(* ===== verification/Prelude.thy ===== *)
theory Prelude
  imports
    "HOL-Library.Word"
    "HOL-Library.Sublist"
    "HOL-Library.Char_ord"
    "HOL-Library.List_Lexorder"
    "HOL-Library.Monad_Syntax" "HOL-Library.Code_Target_Nat"
begin

section \<open>Shared vocabulary of the development\<close>

text \<open>
  What every component uses: Rust strings as byte strings (\<^typ>\<open>string\<close>, one \<^typ>\<open>char\<close> per
  UTF-8 byte) with the operations of \<^verbatim>\<open>str\<close> the sources call, unsigned number parsing,
  the reading of a panic as \<^const>\<open>None\<close>, shared handles (\<^verbatim>\<open>Arc\<close>) as an identity
  paired with the contents, and the automation collections.
\<close>

named_theorems str_simps \<open>facts on the byte-string operations\<close>
named_theorems slice_simps \<open>facts on slices, binary search and partition points\<close>
named_theorems rule_simps \<open>facts on rules and their predicates\<close>

text \<open>
  A computation that may panic is a value of \<^typ>\<open>'a option\<close>, \<^const>\<open>None\<close> being the panic; a
  shared handle carries the address that \<^verbatim>\<open>Arc::as_ptr\<close> compares.
\<close>

type_synonym 'a panics = "'a option"
type_synonym 'a arc = "nat \<times> 'a"

abbreviation (input) arc_ptr :: "'a arc \<Rightarrow> nat" where "arc_ptr \<equiv> fst"
abbreviation (input) arc_get :: "'a arc \<Rightarrow> 'a" where "arc_get \<equiv> snd"

text \<open>\<^verbatim>\<open>Option::or\<close>: the first value there is.\<close>

definition or_else :: "'v option \<Rightarrow> 'v option \<Rightarrow> 'v option" where
  "or_else a b = (case a of None \<Rightarrow> b | Some v \<Rightarrow> Some v)"

subsection \<open>Bytes and ASCII case\<close>

definition byte_val :: "char \<Rightarrow> nat" where
  "byte_val c = of_char c"

definition is_ascii_uppercase :: "char \<Rightarrow> bool" where
  "is_ascii_uppercase c \<longleftrightarrow> 65 \<le> byte_val c \<and> byte_val c \<le> 90"

definition is_ascii_lowercase :: "char \<Rightarrow> bool" where
  "is_ascii_lowercase c \<longleftrightarrow> 97 \<le> byte_val c \<and> byte_val c \<le> 122"

definition is_ascii_digit :: "char \<Rightarrow> bool" where
  "is_ascii_digit c \<longleftrightarrow> 48 \<le> byte_val c \<and> byte_val c \<le> 57"

definition is_ascii_byte :: "char \<Rightarrow> bool" where
  "is_ascii_byte c \<longleftrightarrow> byte_val c < 128"

definition lower_byte :: "char \<Rightarrow> char" where
  "lower_byte c = (if is_ascii_uppercase c then char_of (byte_val c + 32) else c)"

definition upper_byte :: "char \<Rightarrow> char" where
  "upper_byte c = (if is_ascii_lowercase c then char_of (byte_val c - 32) else c)"

definition is_ascii :: "string \<Rightarrow> bool" where
  "is_ascii s \<longleftrightarrow> list_all is_ascii_byte s"

definition to_ascii_lowercase :: "string \<Rightarrow> string" where
  "to_ascii_lowercase s = map lower_byte s"

definition to_ascii_uppercase :: "string \<Rightarrow> string" where
  "to_ascii_uppercase s = map upper_byte s"

definition eq_ignore_ascii_case :: "string \<Rightarrow> string \<Rightarrow> bool" where
  "eq_ignore_ascii_case s t \<longleftrightarrow>
     length s = length t \<and> list_all2 (\<lambda>a b. lower_byte a = lower_byte b) s t"

subsection \<open>Splitting and searching\<close>

text \<open>\<^verbatim>\<open>str::split\<close> on a set of separators: always at least one piece.\<close>

fun split_by :: "(char \<Rightarrow> bool) \<Rightarrow> string \<Rightarrow> string list" where
  "split_by P [] = [[]]"
| "split_by P (c # cs) =
     (if P c then [] # split_by P cs
      else (case split_by P cs of [] \<Rightarrow> [[c]] | p # ps \<Rightarrow> (c # p) # ps))"

abbreviation split_on :: "char \<Rightarrow> string \<Rightarrow> string list" where
  "split_on c \<equiv> split_by (\<lambda>x. x = c)"

text \<open>\<^verbatim>\<open>str::rsplit\<close> yields the pieces from the right.\<close>

definition rsplit_on :: "char \<Rightarrow> string \<Rightarrow> string list" where
  "rsplit_on c s = rev (split_on c s)"

fun split_once :: "char \<Rightarrow> string \<Rightarrow> (string \<times> string) option" where
  "split_once c [] = None"
| "split_once c (x # xs) =
     (if x = c then Some ([], xs)
      else map_option (\<lambda>(l, r). (x # l, r)) (split_once c xs))"

fun splitn :: "nat \<Rightarrow> char \<Rightarrow> string \<Rightarrow> string list" where
  "splitn 0 c s = []"
| "splitn (Suc 0) c s = [s]"
| "splitn (Suc (Suc n)) c s =
     (case split_once c s of None \<Rightarrow> [s] | Some (l, r) \<Rightarrow> l # splitn (Suc n) c r)"

definition strip_prefix :: "string \<Rightarrow> string \<Rightarrow> string option" where
  "strip_prefix p s = (if prefix p s then Some (drop (length p) s) else None)"

definition strip_suffix :: "string \<Rightarrow> string \<Rightarrow> string option" where
  "strip_suffix p s = (if suffix p s then Some (take (length s - length p) s) else None)"

definition starts_with_byte :: "char \<Rightarrow> string \<Rightarrow> bool" where
  "starts_with_byte c s \<longleftrightarrow> (case s of [] \<Rightarrow> False | x # _ \<Rightarrow> x = c)"

definition ends_with_byte :: "char \<Rightarrow> string \<Rightarrow> bool" where
  "ends_with_byte c s \<longleftrightarrow> s \<noteq> [] \<and> last s = c"

text \<open>\<^verbatim>\<open>str::contains\<close> on a needle, and the overlapping \<^verbatim>\<open>windows\<close> of a slice.\<close>

fun contains_str :: "string \<Rightarrow> string \<Rightarrow> bool" where
  "contains_str needle [] \<longleftrightarrow> needle = []"
| "contains_str needle (c # cs) \<longleftrightarrow> prefix needle (c # cs) \<or> contains_str needle cs"

definition windows :: "nat \<Rightarrow> string \<Rightarrow> string list" where
  "windows n s = map (\<lambda>i. take n (drop i s)) [0..<length s + 1 - n]"

definition trim_end_dots :: "string \<Rightarrow> string" where
  "trim_end_dots s = rev (dropWhile (\<lambda>c. c = CHR ''.'') (rev s))"

subsection \<open>Trimming\<close>

text \<open>
  \<^verbatim>\<open>str::trim\<close> removes Unicode white space. The code points with the property
  \<^verbatim>\<open>White_Space\<close> are listed by their UTF-8 bytes.
\<close>

definition white_space :: "string list" where
  "white_space =
     [[char_of (9::nat)], [char_of (10::nat)], [char_of (11::nat)], [char_of (12::nat)],
      [char_of (13::nat)], [char_of (32::nat)],
      [char_of (0xC2::nat), char_of (0x85::nat)], [char_of (0xC2::nat), char_of (0xA0::nat)],
      [char_of (0xE1::nat), char_of (0x9A::nat), char_of (0x80::nat)]] @
     map (\<lambda>b. [char_of (0xE2::nat), char_of (0x80::nat), char_of (b::nat)])
       ([0x80..<0x8B] @ [0xA8, 0xA9, 0xAF]) @
     [[char_of (0xE2::nat), char_of (0x81::nat), char_of (0x9F::nat)],
      [char_of (0xE3::nat), char_of (0x80::nat), char_of (0x80::nat)]]"

text \<open>Removes entries of \<open>ws\<close> from the front of the string, one at a time.\<close>

function strip_all :: "string list \<Rightarrow> string \<Rightarrow> string" where
  "strip_all ws s =
     (case find (\<lambda>w. w \<noteq> [] \<and> prefix w s) ws of
        None \<Rightarrow> s
      | Some w \<Rightarrow> strip_all ws (drop (length w) s))"
  by pat_completeness auto
termination
proof (relation "measure (\<lambda>(ws, s). length s)")
  fix ws s w
  assume "find (\<lambda>w. w \<noteq> [] \<and> prefix w s) ws = Some w"
  then have "w \<noteq> []" "prefix w s"
    by (auto simp: find_Some_iff)
  then show "((ws, drop (length w) s), ws, s) \<in> measure (\<lambda>(ws, s). length s)"
    by (auto simp: prefix_def)
qed simp

declare strip_all.simps [simp del]

definition trim_start :: "string \<Rightarrow> string" where
  "trim_start s = strip_all white_space s"

definition trim_end :: "string \<Rightarrow> string" where
  "trim_end s = rev (strip_all (map rev white_space) (rev s))"

definition trim :: "string \<Rightarrow> string" where
  "trim s = trim_start (trim_end s)"

subsection \<open>Parsing unsigned integers\<close>

text \<open>
  \<^verbatim>\<open>uN::from_str\<close>: an optional plus sign, at least one ASCII digit, nothing else, and a value
  below \<open>2 ^ N\<close>.
\<close>

definition digit_val :: "char \<Rightarrow> nat" where
  "digit_val c = byte_val c - 48"

definition digits_val :: "string \<Rightarrow> nat" where
  "digits_val ds = foldl (\<lambda>n d. 10 * n + digit_val d) 0 ds"

definition parse_uint :: "nat \<Rightarrow> string \<Rightarrow> nat option" where
  "parse_uint bits s =
     (let ds = (case s of [] \<Rightarrow> [] | c # cs \<Rightarrow> if c = CHR ''+'' then cs else s)
      in if ds \<noteq> [] \<and> list_all is_ascii_digit ds \<and> digits_val ds < 2 ^ bits
         then Some (digits_val ds) else None)"

subsection \<open>Facts on the first value\<close>

lemma or_else_None [simp]: "or_else None b = b" "or_else a None = a"
  by (auto simp: or_else_def split: option.splits)

lemma or_else_Some [simp]: "or_else (Some v) b = Some v"
  by (simp add: or_else_def)

lemma or_else_eq_Some: "or_else x y = Some a \<longleftrightarrow> x = Some a \<or> x = None \<and> y = Some a"
  by (cases x) (auto simp: or_else_def)

subsection \<open>Facts on ASCII case\<close>

lemma byte_val_less [simp]: "byte_val c < 256"
  by (simp add: byte_val_def)

lemma byte_val_inject [simp]: "byte_val a = byte_val b \<longleftrightarrow> a = b"
  by (simp add: byte_val_def)

lemma byte_val_char_of [simp]: "n < 256 \<Longrightarrow> byte_val (char_of n) = n"
  by (simp add: byte_val_def)

lemma byte_val_lower_byte:
  "byte_val (lower_byte c) = (if is_ascii_uppercase c then byte_val c + 32 else byte_val c)"
  by (simp add: lower_byte_def is_ascii_uppercase_def)

lemma lower_byte_idem [simp]: "lower_byte (lower_byte c) = lower_byte c"
proof -
  have "\<not> is_ascii_uppercase (lower_byte c)"
    by (simp add: is_ascii_uppercase_def byte_val_lower_byte split: if_splits)
  then show ?thesis by (simp add: lower_byte_def [of "lower_byte c"])
qed

lemma not_upper_lower_byte [simp]: "\<not> is_ascii_uppercase (lower_byte c)"
  by (simp add: is_ascii_uppercase_def byte_val_lower_byte split: if_splits)

lemma lower_byte_id: "\<not> is_ascii_uppercase c \<Longrightarrow> lower_byte c = c"
  by (simp add: lower_byte_def)

lemma lower_byte_eq_iff_nonletter:
  assumes "byte_val d < 65 \<or> 90 < byte_val d \<and> byte_val d < 97 \<or> 122 < byte_val d"
  shows "lower_byte c = d \<longleftrightarrow> c = d"
proof
  assume "lower_byte c = d"
  then have "byte_val (lower_byte c) = byte_val d" by simp
  then show "c = d"
    using assms by (auto simp: byte_val_lower_byte is_ascii_uppercase_def split: if_splits)
next
  assume "c = d"
  then show "lower_byte c = d"
    using assms by (auto simp: lower_byte_def is_ascii_uppercase_def)
qed

lemma lower_byte_dot [simp]: "lower_byte c = CHR ''.'' \<longleftrightarrow> c = CHR ''.''"
  by (rule lower_byte_eq_iff_nonletter) (simp add: byte_val_def)

lemma lower_byte_star [simp]: "lower_byte c = CHR ''*'' \<longleftrightarrow> c = CHR ''*''"
  by (rule lower_byte_eq_iff_nonletter) (simp add: byte_val_def)

lemma lower_byte_plus [simp]: "lower_byte c = CHR ''+'' \<longleftrightarrow> c = CHR ''+''"
  by (rule lower_byte_eq_iff_nonletter) (simp add: byte_val_def)

lemma length_to_ascii_lowercase [simp]: "length (to_ascii_lowercase s) = length s"
  by (simp add: to_ascii_lowercase_def)

lemma to_ascii_lowercase_Nil [simp]: "to_ascii_lowercase [] = []"
  by (simp add: to_ascii_lowercase_def)

lemma to_ascii_lowercase_eq_Nil [simp]: "to_ascii_lowercase s = [] \<longleftrightarrow> s = []"
  by (simp add: to_ascii_lowercase_def)

lemma to_ascii_lowercase_Cons [simp]:
  "to_ascii_lowercase (c # s) = lower_byte c # to_ascii_lowercase s"
  by (simp add: to_ascii_lowercase_def)

lemma to_ascii_lowercase_append [simp]:
  "to_ascii_lowercase (s @ t) = to_ascii_lowercase s @ to_ascii_lowercase t"
  by (simp add: to_ascii_lowercase_def)

lemma to_ascii_lowercase_idem [simp]:
  "to_ascii_lowercase (to_ascii_lowercase s) = to_ascii_lowercase s"
  by (simp add: to_ascii_lowercase_def)

lemma to_ascii_lowercase_take: "to_ascii_lowercase (take n s) = take n (to_ascii_lowercase s)"
  by (simp add: to_ascii_lowercase_def take_map)

lemma to_ascii_lowercase_drop: "to_ascii_lowercase (drop n s) = drop n (to_ascii_lowercase s)"
  by (simp add: to_ascii_lowercase_def drop_map)

lemma eq_ignore_ascii_case_iff [str_simps]:
  "eq_ignore_ascii_case s t \<longleftrightarrow> to_ascii_lowercase s = to_ascii_lowercase t"
proof -
  have "list_all2 (\<lambda>a b. lower_byte a = lower_byte b) s t \<longleftrightarrow> map lower_byte s = map lower_byte t"
    by (induction s arbitrary: t) (auto simp: list_all2_Cons1 map_eq_Cons_conv)
  then show ?thesis
    by (auto simp: eq_ignore_ascii_case_def to_ascii_lowercase_def dest: list_all2_lengthD)
qed

lemma dot_in_to_ascii_lowercase [simp]:
  "CHR ''.'' \<in> set (to_ascii_lowercase s) \<longleftrightarrow> CHR ''.'' \<in> set s"
  by (auto simp: to_ascii_lowercase_def) (metis lower_byte_dot image_eqI)+

lemma to_ascii_lowercase_id:
  "list_all (\<lambda>c. \<not> is_ascii_uppercase c) s \<Longrightarrow> to_ascii_lowercase s = s"
  by (induction s) (simp_all add: lower_byte_id)

end
