(* ===== verification/Replay_Window.thy ===== *)
theory Replay_Window
  imports Prelude
begin

unbundle bit_operations_syntax

section \<open>Anti-replay window over packet identifiers\<close>

text \<open>
  The sliding bitmap of \<^verbatim>\<open>meow-common/src/replay_window.rs\<close>: 32 limbs of 64 bits hold
  which of the last 2048 packet identifiers were accepted, position 0 being the newest. The bitmap
  refines a set of identifiers (\<open>recorded\<close>), and a run of the filter accepts no identifier twice.
\<close>

definition WINDOW_LIMBS :: nat where "WINDOW_LIMBS = 32"
definition WINDOW_BITS :: nat where "WINDOW_BITS = WINDOW_LIMBS * 64"

lemmas window_consts = WINDOW_LIMBS_def WINDOW_BITS_def

record replay_window =
  max_seen :: "64 word"
  bits :: "64 word list"

definition new_window :: replay_window where
  "new_window = \<lparr>max_seen = 0, bits = replicate WINDOW_LIMBS 0\<rparr>"

text \<open>
  One round of the shift loop: limb \<open>i\<close> is overwritten from the limbs at and below \<open>i - limbs\<close>;
  the loop runs from the highest limb down, so those are still the old values.
\<close>

definition shifted_limb :: "nat \<Rightarrow> nat \<Rightarrow> 64 word list \<Rightarrow> nat \<Rightarrow> 64 word" where
  "shifted_limb limbs rm bs i =
     (let v = (if limbs \<le> i then bs ! (i - limbs) else 0)
      in if rm \<noteq> 0 then
           (let v1 = push_bit rm v
            in if limbs < i then v1 OR drop_bit (64 - rm) (bs ! (i - limbs - 1)) else v1)
         else v)"

definition shift :: "replay_window \<Rightarrow> 64 word \<Rightarrow> replay_window" where
  "shift w by =
     (if WINDOW_BITS \<le> unat by then w\<lparr>bits := replicate WINDOW_LIMBS 0\<rparr>
      else w\<lparr>bits := foldl (\<lambda>bs i. bs[i := shifted_limb (unat by div 64) (unat by mod 64) bs i])
                      (bits w) (rev [0..<WINDOW_LIMBS])\<rparr>)"

definition check_and_set :: "replay_window \<Rightarrow> 64 word \<Rightarrow> bool \<times> replay_window" where
  "check_and_set w pid =
     (if pid = - 1 then (False, w)
      else if max_seen w < pid then
        (let w1 = shift w (pid - max_seen w);
             w2 = w1\<lparr>max_seen := pid\<rparr>
         in (True, w2\<lparr>bits := (bits w2)[0 := (bits w2 ! 0) OR 1]\<rparr>))
      else
        (let diff = max_seen w - pid
         in if WINDOW_BITS \<le> unat diff then (False, w)
            else
              (let limb = bits w ! (unat diff div 64);
                   m = push_bit (unat diff mod 64) (1 :: 64 word)
               in if limb AND m \<noteq> 0 then (False, w)
                  else (True, w\<lparr>bits := (bits w)[unat diff div 64 := limb OR m]\<rparr>))))"

text \<open>
  A session filters its packet identifiers in arrival order: the accepted ones, oldest first, and
  the state after the last packet. The relay loops on both sides keep one such state per session.
\<close>

fun filter_run :: "('s \<Rightarrow> 'i \<Rightarrow> bool \<times> 's) \<Rightarrow> 's \<Rightarrow> 'i list \<Rightarrow> 'i list" where
  "filter_run check s [] = []"
| "filter_run check s (i # js) =
     (case check s i of
        (True, s') \<Rightarrow> i # filter_run check s' js
      | (False, s') \<Rightarrow> filter_run check s' js)"

fun filter_state :: "('s \<Rightarrow> 'i \<Rightarrow> bool \<times> 's) \<Rightarrow> 's \<Rightarrow> 'i list \<Rightarrow> 's" where
  "filter_state check s [] = s"
| "filter_state check s (i # js) = filter_state check (snd (check s i)) js"

subsection \<open>The set the bitmap stands for\<close>

definition wf_window :: "replay_window \<Rightarrow> bool" where
  "wf_window w \<longleftrightarrow> length (bits w) = WINDOW_LIMBS"

definition pos_bit :: "64 word list \<Rightarrow> nat \<Rightarrow> bool" where
  "pos_bit bs p \<longleftrightarrow> bit (bs ! (p div 64)) (p mod 64)"

definition recorded :: "replay_window \<Rightarrow> 64 word set" where
  "recorded w = {pid. pid \<le> max_seen w \<and> unat (max_seen w - pid) < WINDOW_BITS \<and>
                     pos_bit (bits w) (unat (max_seen w - pid))}"

text \<open>What the window promises: the identifiers still inside the window of \<open>m\<close>.\<close>

definition in_window :: "64 word \<Rightarrow> 64 word \<Rightarrow> bool" where
  "in_window m pid \<longleftrightarrow> pid \<le> m \<and> unat (m - pid) < WINDOW_BITS"

definition fresh :: "replay_window \<Rightarrow> 64 word \<Rightarrow> bool" where
  "fresh w pid \<longleftrightarrow> pid \<noteq> - 1 \<and> (max_seen w < pid \<or> in_window (max_seen w) pid \<and> pid \<notin> recorded w)"

subsection \<open>Shifting moves every position\<close>

lemma foldl_update_down:
  assumes local: "\<And>bs cs i. (\<And>j. j \<le> i \<Longrightarrow> bs ! j = cs ! j) \<Longrightarrow> h bs i = h cs i"
    and "n \<le> length bs"
  shows "length (foldl (\<lambda>bs i. bs[i := h bs i]) bs (rev [0..<n])) = length bs \<and>
         (\<forall>j < length bs. foldl (\<lambda>bs i. bs[i := h bs i]) bs (rev [0..<n]) ! j =
            (if j < n then h bs j else bs ! j))"
  using assms(2)
proof (induction n arbitrary: bs)
  case 0
  then show ?case by simp
next
  case (Suc n)
  let ?bs = "bs[n := h bs n]"
  have "h ?bs j = h bs j" if "j < n" for j
    using that by (intro local) simp
  moreover have "n \<le> length ?bs" using Suc.prems by simp
  note IH = Suc.IH [OF this]
  ultimately show ?case
    using IH Suc.prems by (auto simp: less_Suc_eq nth_list_update)
qed

lemma shifted_limb_local:
  "(\<And>j. j \<le> i \<Longrightarrow> bs ! j = cs ! j) \<Longrightarrow> shifted_limb l r bs i = shifted_limb l r cs i"
  by (simp add: shifted_limb_def Let_def)

lemma bit_shifted_limb:
  assumes "r < 64" and "k < 64"
  shows "bit (shifted_limb l r bs i) k \<longleftrightarrow>
     (64 * l + r \<le> 64 * i + k \<and> pos_bit bs (64 * i + k - (64 * l + r)))"
proof -
  consider (hi) "r \<le> k" "l \<le> i" | (lo) "k < r" "l < i" | (none) "i < l \<or> (i = l \<and> k < r)"
    by linarith
  then show ?thesis
  proof cases
    case hi
    have "64 * i + k - (64 * l + r) = 64 * (i - l) + (k - r)"
      using hi by (simp add: right_diff_distrib')
    moreover have "k - r < 64" using assms by simp
    ultimately have "pos_bit bs (64 * i + k - (64 * l + r)) = bit (bs ! (i - l)) (k - r)"
      by (simp add: pos_bit_def)
    moreover have "\<not> bit (u :: 64 word) (64 + k - r)" for u
      using hi by (auto dest: bit_imp_le_length)
    ultimately show ?thesis
      using hi assms by (auto simp: shifted_limb_def Let_def bit_simps)
  next
    case lo
    from lo obtain d where "i = Suc (l + d)" by (auto dest: less_imp_Suc_add)
    then have "64 * i + k - (64 * l + r) = 64 * (i - l - 1) + (64 + k - r)"
      using assms by simp
    moreover have "64 + k - r < 64" using lo by simp
    ultimately have "pos_bit bs (64 * i + k - (64 * l + r)) = bit (bs ! (i - l - 1)) (64 + k - r)"
      by (simp add: pos_bit_def)
    moreover have "64 - r + k = 64 + k - r" using lo assms by simp
    ultimately show ?thesis
      using lo assms by (auto simp: shifted_limb_def Let_def bit_simps)
  next
    case none
    then have "\<not> 64 * l + r \<le> 64 * i + k" using assms by auto
    moreover have "\<not> bit (shifted_limb l r bs i) k"
      using none assms by (auto simp: shifted_limb_def Let_def bit_simps)
    ultimately show ?thesis by simp
  qed
qed

lemma pos_bit_shift:
  assumes "wf_window w" and "p < WINDOW_BITS"
  shows "pos_bit (bits (shift w by)) p \<longleftrightarrow>
           unat by \<le> p \<and> pos_bit (bits w) (p - unat by)"
proof (cases "WINDOW_BITS \<le> unat by")
  case True
  then show ?thesis using assms by (simp add: shift_def pos_bit_def window_consts)
next
  case False
  let ?l = "unat by div 64" and ?r = "unat by mod 64"
  have p: "p div 64 < WINDOW_LIMBS" using assms(2) by (simp add: window_consts)
  have "bits (shift w by) ! (p div 64) = shifted_limb ?l ?r (bits w) (p div 64)"
    using False assms(1) p
      foldl_update_down [of "shifted_limb ?l ?r" WINDOW_LIMBS "bits w", OF shifted_limb_local]
    by (simp add: shift_def wf_window_def)
  moreover have "64 * ?l + ?r = unat by" "64 * (p div 64) + p mod 64 = p" by simp_all
  ultimately show ?thesis
    by (simp add: pos_bit_def [of _ p] bit_shifted_limb)
qed

lemma wf_shift [simp]: "wf_window w \<Longrightarrow> wf_window (shift w by)"
  using foldl_update_down [of "shifted_limb (unat by div 64) (unat by mod 64)" WINDOW_LIMBS "bits w",
      OF shifted_limb_local]
  by (auto simp: wf_window_def shift_def)

lemma max_seen_shift [simp]: "max_seen (shift w by) = max_seen w"
  by (simp add: shift_def)

lemma pos_bit_set:
  assumes "q < 64 * length bs"
  shows "pos_bit (bs[q div 64 := (bs ! (q div 64)) OR push_bit (q mod 64) 1]) p \<longleftrightarrow>
           p = q \<or> pos_bit bs p"
proof -
  have "q div 64 < length bs" using assms by (simp add: div_less_iff_less_mult mult.commute)
  moreover have "p = q \<longleftrightarrow> p div 64 = q div 64 \<and> p mod 64 = q mod 64"
    by (metis div_mult_mod_eq)
  moreover have "p mod 64 < 64" by simp
  ultimately show ?thesis
    by (auto simp: pos_bit_def nth_list_update bit_simps)
qed

lemma and_mask_bit:
  assumes "q < 64"
  shows "(x :: 64 word) AND push_bit q 1 \<noteq> 0 \<longleftrightarrow> bit x q"
proof -
  have "x AND push_bit q 1 = (if bit x q then 2 ^ q else 0)"
    by (rule bit_word_eqI) (auto simp: bit_and_iff bit_exp_iff)
  then show ?thesis using assms by simp
qed

subsection \<open>Every call refines the set\<close>

lemma unat_diff_eq: "b \<le> a \<Longrightarrow> unat (a - b) = unat a - unat (b :: 64 word)"
  by (simp add: unat_sub word_le_nat_alt)

lemma wf_check_and_set [simp]: "wf_window w \<Longrightarrow> wf_window (snd (check_and_set w pid))"
  using wf_shift [of w "pid - max_seen w"]
  by (auto simp: check_and_set_def Let_def wf_window_def)

lemma recordedI: "in_window (max_seen w) pid \<Longrightarrow> pos_bit (bits w) (unat (max_seen w - pid)) \<Longrightarrow> pid \<in> recorded w"
  by (simp add: recorded_def in_window_def)

lemma recorded_iff:
  "pid \<in> recorded w \<longleftrightarrow> in_window (max_seen w) pid \<and> pos_bit (bits w) (unat (max_seen w - pid))"
  by (auto simp: recorded_def in_window_def)

lemma check_and_set_newer:
  assumes "wf_window w" and "max_seen w < pid" and "pid \<noteq> - 1"
  shows "fst (check_and_set w pid)" and "max_seen (snd (check_and_set w pid)) = pid"
    and "recorded (snd (check_and_set w pid)) = insert pid {j \<in> recorded w. in_window pid j}"
proof -
  let ?w = "snd (check_and_set w pid)"
  let ?s = "shift w (pid - max_seen w)"
  have eq: "check_and_set w pid =
      (True, ?s\<lparr>max_seen := pid, bits := (bits ?s)[0 := (bits ?s ! 0) OR 1]\<rparr>)"
    using assms by (simp add: check_and_set_def Let_def)
  show "fst (check_and_set w pid)" and m: "max_seen ?w = pid" by (simp_all add: eq)
  have len: "length (bits ?s) = WINDOW_LIMBS" using wf_shift [OF assms(1)] by (simp add: wf_window_def)
  have d: "unat (pid - max_seen w) = unat pid - unat (max_seen w)"
    using assms(2) by (simp add: unat_diff_eq)
  have bit: "pos_bit (bits ?w) p \<longleftrightarrow>
      p = 0 \<or> unat (pid - max_seen w) \<le> p \<and> pos_bit (bits w) (p - unat (pid - max_seen w))"
    if "p < WINDOW_BITS" for p
    using pos_bit_set [of 0 "bits ?s" p] len pos_bit_shift [OF assms(1) that]
    by (simp add: eq window_consts)
  show "recorded ?w = insert pid {j \<in> recorded w. in_window pid j}"
  proof (intro set_eqI iffI)
    fix j
    assume j: "j \<in> recorded ?w"
    then have win: "j \<le> pid" "unat (pid - j) < WINDOW_BITS" by (auto simp: recorded_def m)
    then have dj: "unat (pid - j) = unat pid - unat j" by (simp add: unat_diff_eq)
    show "j \<in> insert pid {j \<in> recorded w. in_window pid j}"
    proof (cases "j = pid")
      case False
      then have "unat j < unat pid" using win(1) by (simp add: word_less_nat_alt [symmetric])
      then have "unat (pid - j) \<noteq> 0" using dj by simp
      then have old: "unat (pid - max_seen w) \<le> unat (pid - j)"
          "pos_bit (bits w) (unat (pid - j) - unat (pid - max_seen w))"
        using j bit [OF win(2)] by (auto simp: recorded_def m)
      then have le: "j \<le> max_seen w"
        using d dj \<open>unat j < unat pid\<close> assms(2)
        by (simp add: word_le_nat_alt word_less_nat_alt)
      then have "unat (pid - j) - unat (pid - max_seen w) = unat (max_seen w - j)"
        using d dj assms(2) by (simp add: unat_diff_eq word_le_nat_alt word_less_nat_alt)
      moreover from this have "unat (max_seen w - j) < WINDOW_BITS" using win(2) by simp
      ultimately show ?thesis
        using old(2) le win by (simp add: recorded_def in_window_def)
    qed simp
  next
    fix j
    assume j: "j \<in> insert pid {j \<in> recorded w. in_window pid j}"
    show "j \<in> recorded ?w"
    proof (cases "j = pid")
      case True
      then show ?thesis using bit [of 0] by (simp add: recorded_def m window_consts)
    next
      case False
      with j have r: "j \<le> max_seen w" "pos_bit (bits w) (unat (max_seen w - j))"
        and win: "j \<le> pid" "unat (pid - j) < WINDOW_BITS"
        by (auto simp: recorded_def in_window_def)
      have "unat (pid - j) - unat (pid - max_seen w) = unat (max_seen w - j)"
        "unat (pid - max_seen w) \<le> unat (pid - j)"
        using d r(1) win(1) assms(2)
        by (simp_all add: unat_diff_eq word_le_nat_alt word_less_nat_alt)
      then show ?thesis using bit [OF win(2)] r(2) win by (simp add: recorded_def m)
    qed
  qed
qed

lemma check_and_set_older:
  assumes "wf_window w" and "pid \<le> max_seen w" and "pid \<noteq> - 1"
  shows "fst (check_and_set w pid) \<longleftrightarrow> in_window (max_seen w) pid \<and> pid \<notin> recorded w"
    and "max_seen (snd (check_and_set w pid)) = max_seen w"
    and "recorded (snd (check_and_set w pid)) =
           (if in_window (max_seen w) pid then insert pid (recorded w) else recorded w)"
proof -
  let ?d = "unat (max_seen w - pid)"
  have lim: "?d mod 64 < 64" by simp
  have test: "bits w ! (?d div 64) AND push_bit (?d mod 64) 1 \<noteq> 0 \<longleftrightarrow> pos_bit (bits w) ?d"
    using and_mask_bit [OF lim] by (simp add: pos_bit_def)
  have eq: "check_and_set w pid =
      (if \<not> in_window (max_seen w) pid then (False, w)
       else if pos_bit (bits w) ?d then (False, w)
       else (True, w\<lparr>bits := (bits w)[?d div 64 := (bits w ! (?d div 64)) OR push_bit (?d mod 64) 1]\<rparr>))"
    using assms(2,3) test by (auto simp: check_and_set_def in_window_def Let_def not_less)
  show "fst (check_and_set w pid) \<longleftrightarrow> in_window (max_seen w) pid \<and> pid \<notin> recorded w"
    by (auto simp: eq recorded_iff)
  show "max_seen (snd (check_and_set w pid)) = max_seen w" by (simp add: eq)
  have len: "?d < 64 * length (bits w)" if "in_window (max_seen w) pid"
    using that assms(1) by (simp add: in_window_def wf_window_def window_consts)
  have inj: "unat (max_seen w - j) = ?d \<longleftrightarrow> j = pid" for j
    using word_unat_eq_iff [of "max_seen w - j" "max_seen w - pid"] by auto
  show "recorded (snd (check_and_set w pid)) =
           (if in_window (max_seen w) pid then insert pid (recorded w) else recorded w)"
    using len pos_bit_set [of ?d "bits w"]
    by (auto simp: eq recorded_iff inj)
qed

lemma max_id_rejected: "check_and_set w (- 1) = (False, w)"
  by (simp add: check_and_set_def)

text \<open>A recorded bitmap never claims an identifier above the maximum, and acceptance is freshness.\<close>

lemma fst_check_and_set: "wf_window w \<Longrightarrow> fst (check_and_set w pid) \<longleftrightarrow> fresh w pid"
  using check_and_set_newer(1) [of w pid] check_and_set_older(1) [of w pid] max_id_rejected [of w]
  by (cases "pid = - 1"; cases "max_seen w < pid") (auto simp: fresh_def)

subsection \<open>The contract a relay session relies on\<close>

text \<open>
  What a session needs of a replay filter: a spent identifier is refused, accepting spends it, and
  nothing becomes unspent again.
\<close>

locale replay_filter =
  fixes check :: "'s \<Rightarrow> 'i \<Rightarrow> bool \<times> 's"
    and valid :: "'s \<Rightarrow> bool"
    and spent :: "'s \<Rightarrow> 'i \<Rightarrow> bool"
  assumes valid_step: "valid s \<Longrightarrow> valid (snd (check s i))"
    and spent_refused: "valid s \<Longrightarrow> spent s i \<Longrightarrow> \<not> fst (check s i)"
    and accept_spends: "valid s \<Longrightarrow> fst (check s i) \<Longrightarrow> spent (snd (check s i)) i"
    and spent_stays: "valid s \<Longrightarrow> spent s i \<Longrightarrow> spent (snd (check s j)) i"
begin

lemma spent_not_accepted: "valid s \<Longrightarrow> spent s i \<Longrightarrow> i \<notin> set (filter_run check s js)"
proof (induction js arbitrary: s)
  case (Cons j ks)
  obtain b s' where c: "check s j = (b, s')" by (cases "check s j")
  have "i \<noteq> j" if b
    using spent_refused [OF Cons.prems] c that by auto
  moreover have "valid s'" "spent s' i"
    using valid_step [OF Cons.prems(1), of j] spent_stays [OF Cons.prems, of j] c by auto
  ultimately show ?case using Cons.IH c by (cases b) auto
qed simp

lemma no_replay: "valid s \<Longrightarrow> distinct (filter_run check s js)"
proof (induction js arbitrary: s)
  case (Cons j ks)
  obtain b s' where c: "check s j = (b, s')" by (cases "check s j")
  have s': "valid s'" using valid_step [OF Cons.prems, of j] c by simp
  have "spent s' j" if b using accept_spends [OF Cons.prems, of j] c that by simp
  then show ?case using Cons.IH [OF s'] spent_not_accepted [OF s'] c by (cases b) auto
qed simp

lemma valid_run: "valid s \<Longrightarrow> valid (filter_state check s js)"
  by (induction js arbitrary: s) (auto intro: valid_step)

end

lemma in_window_mono: "m \<le> m' \<Longrightarrow> i \<le> m \<Longrightarrow> in_window m' i \<Longrightarrow> in_window m i"
  by (auto simp: in_window_def unat_diff_eq word_le_nat_alt)

lemma rejected_unchanged: "\<not> fst (check_and_set w i) \<Longrightarrow> check_and_set w i = (False, w)"
  unfolding check_and_set_def Let_def by (simp split: if_splits)

lemma check_and_set_refused:
  "wf_window w \<Longrightarrow> \<not> fresh w i \<Longrightarrow> check_and_set w i = (False, w)"
  by (rule rejected_unchanged) (simp add: fst_check_and_set)

lemma check_and_set_fresh:
  assumes "wf_window w" and "fresh w i"
  shows "max_seen (snd (check_and_set w i)) = max (max_seen w) i"
    and "recorded (snd (check_and_set w i)) =
           insert i {j \<in> recorded w. in_window (max (max_seen w) i) j}"
proof -
  have i: "i \<noteq> - 1" using assms(2) by (simp add: fresh_def)
  have "max_seen (snd (check_and_set w i)) = max (max_seen w) i \<and>
        recorded (snd (check_and_set w i)) = insert i {j \<in> recorded w. in_window (max (max_seen w) i) j}"
  proof (cases "max_seen w < i")
    case True
    then have "max (max_seen w) i = i" by simp
    then show ?thesis using check_and_set_newer [OF assms(1) True i] by simp
  next
    case False
    then have le: "i \<le> max_seen w" by simp
    then have m: "max (max_seen w) i = max_seen w" by (simp add: max_def)
    have "in_window (max_seen w) i" using assms(2) False by (simp add: fresh_def)
    moreover have "{j \<in> recorded w. in_window (max_seen w) j} = recorded w"
      by (simp add: recorded_iff Collect_conj_eq [symmetric] conj_ac set_eq_iff)
    ultimately show ?thesis using check_and_set_older [OF assms(1) le i] by (simp add: m)
  qed
  then show "max_seen (snd (check_and_set w i)) = max (max_seen w) i"
    and "recorded (snd (check_and_set w i)) =
           insert i {j \<in> recorded w. in_window (max (max_seen w) i) j}" by blast+
qed

lemma not_fresh_stays:
  assumes "wf_window w" and "\<not> fresh w i"
  shows "\<not> fresh (snd (check_and_set w j)) i"
proof (cases "fresh w j")
  case False
  then show ?thesis using check_and_set_refused [OF assms(1)] assms(2) by simp
next
  case True
  let ?w = "snd (check_and_set w j)"
  have w: "max_seen w \<le> max_seen ?w" "recorded ?w = insert j {k \<in> recorded w. in_window (max_seen ?w) k}"
    using check_and_set_fresh [OF assms(1) True] by simp_all
  from assms(2) consider "i = - 1" | "i \<le> max_seen w" "in_window (max_seen w) i \<longrightarrow> i \<in> recorded w"
    by (auto simp: fresh_def)
  then show ?thesis
  proof cases
    case 1
    then show ?thesis by (simp add: fresh_def)
  next
    case 2
    then have "i \<le> max_seen ?w" using w(1) by simp
    moreover have "i \<in> recorded ?w" if "in_window (max_seen ?w) i"
      using 2 in_window_mono [OF w(1) 2(1) that] that by (simp add: w(2))
    ultimately show ?thesis by (auto simp: fresh_def)
  qed
qed

interpretation rw: replay_filter check_and_set wf_window "\<lambda>w i. \<not> fresh w i"
proof unfold_locales
  fix w i
  assume w: "wf_window w"
  then show "wf_window (snd (check_and_set w i))" by simp
  show "\<not> fst (check_and_set w i)" if "\<not> fresh w i"
    using that by (simp add: fst_check_and_set w)
  show "\<not> fresh (snd (check_and_set w i)) i" if "fst (check_and_set w i)"
    using check_and_set_fresh [OF w, of i] that by (simp add: fst_check_and_set w fresh_def [of "snd _"])
  show "\<not> fresh (snd (check_and_set w j)) i" if "\<not> fresh w i" for j
    using w that by (rule not_fresh_stays)
qed

lemma check_and_set_bounds:
  assumes "wf_window w"
  shows "recorded (snd (check_and_set w i)) \<subseteq> insert i (recorded w)"
    and "max_seen (snd (check_and_set w i)) \<in> {max_seen w, i}"
  using check_and_set_fresh [OF assms, of i] check_and_set_refused [OF assms, of i]
  by (cases "fresh w i"; auto simp: max_def)+

lemma wf_new_window [simp]: "wf_window new_window"
  by (simp add: wf_window_def new_window_def)

lemma recorded_new_window [simp]: "recorded new_window = {}"
proof -
  have "\<not> bit (replicate n (0 :: 64 word) ! k) m" if "k < n" for n k m using that by simp
  moreover have "p div 64 < WINDOW_LIMBS" if "p < WINDOW_BITS" for p
    using that by (simp add: window_consts)
  ultimately show ?thesis by (simp add: recorded_def new_window_def pos_bit_def)
qed

lemma max_seen_new_window [simp]: "max_seen new_window = 0"
  by (simp add: new_window_def)

lemma filter_state_bounds:
  assumes "wf_window w"
  shows "recorded (filter_state check_and_set w ids) \<subseteq> recorded w \<union> set ids \<and>
      max_seen (filter_state check_and_set w ids) \<in> insert (max_seen w) (set ids)"
  using assms
proof (induction ids arbitrary: w)
  case (Cons i rest)
  let ?w = "snd (check_and_set w i)"
  have "wf_window ?w" using Cons.prems by simp
  then show ?case
    using Cons.IH [of ?w] check_and_set_bounds [OF Cons.prems, of i] by auto
qed simp

subsection \<open>Properties\<close>

text \<open>C2. one call of the filter refines the set of recorded identifiers. The call accepts exactly
  the fresh identifiers (not \<^verbatim>\<open>u64::MAX\<close>, and newer than everything seen or inside the
  window and unrecorded); an acceptance records the identifier and forgets what left the 2048-wide
  window; a refusal changes nothing.\<close>

theorem check_and_set_refines:
  assumes "wf_window w"
  shows "fst (check_and_set w i) = fresh w i \<and> wf_window (snd (check_and_set w i)) \<and>
    (if fresh w i then
       max_seen (snd (check_and_set w i)) = max (max_seen w) i \<and>
       recorded (snd (check_and_set w i)) = insert i {j \<in> recorded w. in_window (max (max_seen w) i) j}
     else snd (check_and_set w i) = w)"
  using check_and_set_fresh [OF assms, of i] check_and_set_refused [OF assms, of i]
    fst_check_and_set [OF assms, of i] wf_check_and_set [OF assms, of i]
  by (cases "fresh w i") simp_all

theorem check_and_set_refines_witness:
  "wf_window new_window \<and> fst (check_and_set new_window 5) = fresh new_window 5"
  using check_and_set_refines [OF wf_new_window, of 5] by simp

text \<open>C17. a session never accepts the same packet identifier twice, whatever sequence of
  identifiers arrives.\<close>

theorem session_accepts_no_replay:
  "distinct (filter_run check_and_set new_window ids)"
  by (rule rw.no_replay) simp

text \<open>C18. the filter refuses no legitimate packet. After any sequence of packets, an identifier
  that did not occur in it, is not \<^verbatim>\<open>u64::MAX\<close>, and is less than 2048 behind every
  identifier that did, is accepted.\<close>

theorem first_sight_accepted:
  assumes "x \<notin> set ids" and "x \<noteq> - 1"
    and "\<forall>y \<in> set ids. y \<le> x \<or> unat (y - x) < WINDOW_BITS"
  shows "fst (check_and_set (filter_state check_and_set new_window ids) x)"
proof -
  let ?w = "filter_state check_and_set new_window ids"
  have w: "recorded ?w \<subseteq> set ids" "max_seen ?w \<in> insert 0 (set ids)" "wf_window ?w"
    using filter_state_bounds [of new_window ids] rw.valid_run [of new_window ids] by simp_all
  have "max_seen ?w \<le> x \<or> unat (max_seen ?w - x) < WINDOW_BITS"
    using w(2) assms(3) by auto
  then have "fresh ?w x"
    using w(1) assms(1,2) by (auto simp: fresh_def in_window_def not_less window_consts)
  then show ?thesis by (simp add: fst_check_and_set w(3))
qed

theorem first_sight_accepted_witness:
  "fst (check_and_set (filter_state check_and_set new_window [7, 3000]) 2990)"
  by (rule first_sight_accepted) (simp_all add: window_consts)

end
