(* ===== verification/Rust_Fmt.thy ===== *)
theory Rust_Fmt
  imports Prelude
begin

section \<open>Results, replacing, joining and printing\<close>

text \<open>
  The parts of the Rust standard library around \<^verbatim>\<open>Result\<close> and text formatting that the rule
  sources use: \<^verbatim>\<open>?\<close> on results, \<^verbatim>\<open>str::replace\<close>, \<^verbatim>\<open>join\<close>, decimal \<^verbatim>\<open>Display\<close> of unsigned
  integers, \<^verbatim>\<open>{:p}\<close> of a pointer, and \<^verbatim>\<open>u16\<close>/\<^verbatim>\<open>u32\<close>/\<^verbatim>\<open>u8\<close> parsing into words. Printing
  followed by parsing is the identity, so a printed key identifies what was printed.
\<close>

definition and_then :: "'e + 'a \<Rightarrow> ('a \<Rightarrow> 'e + 'b) \<Rightarrow> 'e + 'b" where
  "and_then r f = (case r of Inl e \<Rightarrow> Inl e | Inr a \<Rightarrow> f a)"

definition ok_or :: "'e \<Rightarrow> 'a option \<Rightarrow> 'e + 'a" where
  "ok_or e x = (case x of None \<Rightarrow> Inl e | Some a \<Rightarrow> Inr a)"

lemma and_then_simps [simp]: "and_then (Inl e) f = Inl e" "and_then (Inr a) f = f a"
  by (simp_all add: and_then_def)

lemma ok_or_simps [simp]: "ok_or e None = Inl e" "ok_or e (Some a) = Inr a"
  by (simp_all add: ok_or_def)

lemma and_then_Inr: "and_then r f = Inr b \<longleftrightarrow> (\<exists>a. r = Inr a \<and> f a = Inr b)"
  by (cases r) auto

lemma ok_or_Inr: "ok_or e x = Inr a \<longleftrightarrow> x = Some a"
  by (cases x) auto

text \<open>
  The value of a computation that cannot panic on the data it is given. The value \<open>d\<close> stands for
  the panic; where this is used, a lemma shows that the panic does not occur.
\<close>

definition no_panic :: "'a \<Rightarrow> 'a panics \<Rightarrow> 'a" where
  "no_panic d p = (case p of None \<Rightarrow> d | Some x \<Rightarrow> x)"

lemma no_panic_Some [simp]: "no_panic d (Some x) = x"
  by (simp add: no_panic_def)

text \<open>\<^verbatim>\<open>str::replace\<close>, and \<^verbatim>\<open>join\<close> with a separator.\<close>

fun replace_str :: "string \<Rightarrow> string \<Rightarrow> string \<Rightarrow> string" where
  "replace_str p r [] = []"
| "replace_str p r (c # cs) =
     (if p \<noteq> [] \<and> prefix p (c # cs) then r @ replace_str p r (drop (length p - 1) cs)
      else c # replace_str p r cs)"

fun join_with :: "string \<Rightarrow> string list \<Rightarrow> string" where
  "join_with sep [] = []"
| "join_with sep [s] = s"
| "join_with sep (s # ss) = s @ sep @ join_with sep ss"

subsection \<open>Numbers\<close>

definition parse_u8 :: "string \<Rightarrow> 8 word option" where
  "parse_u8 s = map_option of_nat (parse_uint 8 s)"

definition parse_u16 :: "string \<Rightarrow> 16 word option" where
  "parse_u16 s = map_option of_nat (parse_uint 16 s)"

definition parse_u32 :: "string \<Rightarrow> 32 word option" where
  "parse_u32 s = map_option of_nat (parse_uint 32 s)"

definition digit_char :: "nat \<Rightarrow> char" where
  "digit_char d = char_of (48 + d)"

fun show_nat :: "nat \<Rightarrow> string" where
  "show_nat n = (if n < 10 then [digit_char n] else show_nat (n div 10) @ [digit_char (n mod 10)])"

declare show_nat.simps [simp del]

definition show_word :: "'w :: len word \<Rightarrow> string" where
  "show_word w = show_nat (unat w)"

text \<open>\<^verbatim>\<open>{:p}\<close>: the address in lower-case hexadecimal.\<close>

definition hex_char :: "nat \<Rightarrow> char" where
  "hex_char d = (if d < 10 then char_of (48 + d) else char_of (87 + d))"

fun show_hex :: "nat \<Rightarrow> string" where
  "show_hex n = (if n < 16 then [hex_char n] else show_hex (n div 16) @ [hex_char (n mod 16)])"

declare show_hex.simps [simp del]

definition show_ptr :: "nat \<Rightarrow> string" where
  "show_ptr p = ''0x'' @ show_hex p"

subsection \<open>Printing and parsing\<close>

lemma byte_val_digit_char: "d < 10 \<Longrightarrow> byte_val (digit_char d) = 48 + d"
  by (simp add: digit_char_def)

lemma digit_char_digit: "d < 10 \<Longrightarrow> is_ascii_digit (digit_char d)"
  by (simp add: is_ascii_digit_def byte_val_digit_char)

lemma digit_val_digit_char: "d < 10 \<Longrightarrow> digit_val (digit_char d) = d"
  by (simp add: digit_val_def byte_val_digit_char)

lemma show_nat_digits: "list_all is_ascii_digit (show_nat n)"
proof (induction n rule: show_nat.induct)
  case (1 n)
  then show ?case
    by (subst show_nat.simps) (auto simp: digit_char_digit)
qed

lemma show_nat_nonempty [simp]: "show_nat n \<noteq> []"
  by (subst show_nat.simps) simp

lemma digits_val_show_nat: "digits_val (show_nat n) = n"
proof (induction n rule: show_nat.induct)
  case (1 n)
  show ?case
  proof (cases "n < 10")
    case True
    then show ?thesis by (simp add: show_nat.simps digits_val_def digit_val_digit_char)
  next
    case False
    with 1 have "digits_val (show_nat (n div 10)) = n div 10" by simp
    with False show ?thesis
      by (subst show_nat.simps) (simp add: digits_val_def digit_val_digit_char)
  qed
qed

lemma show_nat_plus: "hd (show_nat n) \<noteq> CHR ''+''"
proof
  assume "hd (show_nat n) = CHR ''+''"
  moreover have "is_ascii_digit (hd (show_nat n))"
    using show_nat_digits [of n] hd_in_set [OF show_nat_nonempty, of n] by (auto simp: list_all_iff)
  ultimately show False by (simp add: is_ascii_digit_def byte_val_def)
qed

lemma parse_show_nat: "n < 2 ^ bits \<Longrightarrow> parse_uint bits (show_nat n) = Some n"
proof -
  assume n: "n < 2 ^ bits"
  have "(case show_nat n of [] \<Rightarrow> [] | c # cs \<Rightarrow> if c = CHR ''+'' then cs else show_nat n) = show_nat n"
    using show_nat_plus [of n] by (cases "show_nat n") auto
  then show ?thesis
    using n show_nat_digits [of n] by (simp add: parse_uint_def digits_val_show_nat)
qed

lemma show_nat_inject: "show_nat m = show_nat n \<longleftrightarrow> m = n"
  by (metis digits_val_show_nat)

lemma show_word_inject: "show_word a = show_word b \<longleftrightarrow> a = b"
  by (simp add: show_word_def show_nat_inject word_unat_eq_iff)

lemma parse_u16_show [simp]: "parse_u16 (show_word w) = Some w"
proof -
  have "unat w < 2 ^ LENGTH(16)" by (rule unsigned_less)
  then show ?thesis by (simp add: parse_u16_def show_word_def parse_show_nat)
qed

lemma hex_char_inject: "a < 16 \<Longrightarrow> b < 16 \<Longrightarrow> hex_char a = hex_char b \<longleftrightarrow> a = b"
proof -
  have v: "byte_val (hex_char d) = (if d < 10 then 48 + d else 87 + d)" if "d < 16" for d
    using that by (simp add: hex_char_def)
  assume "a < 16" "b < 16"
  then have "byte_val (hex_char a) = byte_val (hex_char b) \<longleftrightarrow> a = b"
    by (auto simp only: v split: if_splits)
  then show ?thesis by simp
qed

lemma show_hex_nonempty [simp]: "show_hex n \<noteq> []"
  by (subst show_hex.simps) simp

lemma show_hex_inject: "show_hex m = show_hex n \<longleftrightarrow> m = n"
proof (induction m arbitrary: n rule: show_hex.induct)
  case (1 m)
  show ?case
  proof (cases "m < 16"; cases "n < 16")
    assume "\<not> m < 16" "\<not> n < 16"
    then have "show_hex m = show_hex n \<longleftrightarrow> m div 16 = n div 16 \<and> m mod 16 = n mod 16"
      using 1 [of "n div 16"] by (subst (1 2) show_hex.simps) (simp add: hex_char_inject)
    then show ?thesis by (metis div_mult_mod_eq)
  qed (use show_hex_nonempty [of "n div 16", symmetric] in
      \<open>simp_all add: show_hex.simps [of m] show_hex.simps [of n] hex_char_inject\<close>)
qed

lemma show_ptr_inject: "show_ptr a = show_ptr b \<longleftrightarrow> a = b"
  by (simp add: show_ptr_def show_hex_inject)

lemma show_hex_alnum: "c \<in> set (show_hex n) \<Longrightarrow> 48 \<le> byte_val c \<and> byte_val c \<le> 102"
proof (induction n arbitrary: c rule: show_hex.induct)
  case (1 n)
  have v: "48 \<le> byte_val (hex_char d) \<and> byte_val (hex_char d) \<le> 102" if "d < 16" for d
    using that by (simp add: hex_char_def)
  from 1 show ?case
    by (subst (asm) show_hex.simps) (auto simp: v split: if_splits)
qed

end
