(* ===== verification/Ext_Lib.thy ===== *)
theory Ext_Lib
  imports Rust_Fmt
begin

unbundle bit_operations_syntax

section \<open>Addresses, networks and the libraries the sources call\<close>

text \<open>
  Addresses of the standard library, networks of the \<^verbatim>\<open>ipnet\<close> crate, and one record of the functions
  of code outside the repository that the rule engine calls: \<^verbatim>\<open>regex\<close> (compile, match, escape),
  \<^verbatim>\<open>ipnet\<close> (parse, print, new, network, broadcast, contains, trunc) and the Unicode case mappings of
  \<^verbatim>\<open>str\<close>. Definitions take the record as an argument; theorems that rely on one of its functions
  name the documented behaviour they use (\<open>ipnet_ok\<close>, \<open>net_print_ok\<close>, \<open>case_ok\<close>).
\<close>

datatype ip_addr = V4 "32 word" | V6 "128 word"

record ipv4_net =
  addr4 :: "32 word"
  prefix4 :: nat

record ipv6_net =
  addr6 :: "128 word"
  prefix6 :: nat

datatype ip_net = NetV4 ipv4_net | NetV6 ipv6_net

record ext_lib =
  regex_new :: "string \<Rightarrow> bool"
  regex_is_match :: "string \<Rightarrow> string \<Rightarrow> bool"
  regex_escape :: "string \<Rightarrow> string"
  net_parse :: "string \<Rightarrow> ip_net option"
  network4 :: "ipv4_net \<Rightarrow> 32 word"
  broadcast4 :: "ipv4_net \<Rightarrow> 32 word"
  network6 :: "ipv6_net \<Rightarrow> 128 word"
  broadcast6 :: "ipv6_net \<Rightarrow> 128 word"
  net_contains :: "ip_net \<Rightarrow> ip_addr \<Rightarrow> bool"
  net_trunc :: "ip_net \<Rightarrow> ip_net"
  net_new4 :: "32 word \<Rightarrow> nat \<Rightarrow> ipv4_net option"
  net_new6 :: "128 word \<Rightarrow> nat \<Rightarrow> ipv6_net option"
  net_to_string :: "ip_net \<Rightarrow> string"
  to_lowercase :: "string \<Rightarrow> string"
  to_uppercase :: "string \<Rightarrow> string"

text \<open>
  \<^verbatim>\<open>ipnet\<close>: a network is the range from its network to its broadcast address; addresses of the
  other family are outside; \<^verbatim>\<open>trunc\<close> clears host bits, which keeps the range.
\<close>

definition ipnet_ok :: "ext_lib \<Rightarrow> bool" where
  "ipnet_ok E \<longleftrightarrow>
     (\<forall>n. network4 E n \<le> broadcast4 E n) \<and> (\<forall>n. network6 E n \<le> broadcast6 E n) \<and>
     (\<forall>n a. net_contains E (NetV4 n) (V4 a) \<longleftrightarrow> network4 E n \<le> a \<and> a \<le> broadcast4 E n) \<and>
     (\<forall>n a. net_contains E (NetV6 n) (V6 a) \<longleftrightarrow> network6 E n \<le> a \<and> a \<le> broadcast6 E n) \<and>
     (\<forall>n a. \<not> net_contains E (NetV4 n) (V6 a)) \<and> (\<forall>n a. \<not> net_contains E (NetV6 n) (V4 a)) \<and>
     (\<forall>n. \<exists>m. net_trunc E (NetV4 n) = NetV4 m \<and> network4 E m = network4 E n \<and> broadcast4 E m = broadcast4 E n) \<and>
     (\<forall>n. \<exists>m. net_trunc E (NetV6 n) = NetV6 m \<and> network6 E m = network6 E n \<and> broadcast6 E m = broadcast6 E n)"

text \<open>Printing a network writes its address and prefix length, so it is injective.\<close>

definition net_print_ok :: "ext_lib \<Rightarrow> bool" where
  "net_print_ok E \<longleftrightarrow> inj (net_to_string E)"

text \<open>\<^verbatim>\<open>to_lowercase\<close> and \<^verbatim>\<open>to_uppercase\<close> act on ASCII text as their ASCII versions.\<close>

definition case_ok :: "ext_lib \<Rightarrow> bool" where
  "case_ok E \<longleftrightarrow> (\<forall>s. is_ascii s \<longrightarrow>
     to_lowercase E s = to_ascii_lowercase s \<and> to_uppercase E s = to_ascii_uppercase s)"

lemma all_ip_addr: "(\<forall>a. P a) \<longleftrightarrow> (\<forall>x. P (V4 x)) \<and> (\<forall>x. P (V6 x))"
  by (metis ip_addr.exhaust)

definition net_range4 :: "ext_lib \<Rightarrow> ipv4_net \<Rightarrow> 32 word set" where
  "net_range4 E n = {network4 E n .. broadcast4 E n}"

definition net_range6 :: "ext_lib \<Rightarrow> ipv6_net \<Rightarrow> 128 word set" where
  "net_range6 E n = {network6 E n .. broadcast6 E n}"

lemma ipnet_okD:
  assumes "ipnet_ok E"
  shows "network4 E n4 \<le> broadcast4 E n4" and "network6 E n6 \<le> broadcast6 E n6"
    and "net_contains E (NetV4 n4) (V4 a4) \<longleftrightarrow> a4 \<in> net_range4 E n4"
    and "net_contains E (NetV6 n6) (V6 a6) \<longleftrightarrow> a6 \<in> net_range6 E n6"
    and "\<not> net_contains E (NetV4 n4) (V6 a6)" and "\<not> net_contains E (NetV6 n6) (V4 a4)"
  using assms by (simp_all add: ipnet_ok_def net_range4_def net_range6_def)

lemma net_contains_trunc:
  assumes "ipnet_ok E"
  shows "net_contains E (net_trunc E n) a \<longleftrightarrow> net_contains E n a"
proof (cases n)
  case (NetV4 m)
  obtain k where "net_trunc E (NetV4 m) = NetV4 k" "network4 E k = network4 E m" "broadcast4 E k = broadcast4 E m"
    using assms unfolding ipnet_ok_def by blast
  then show ?thesis using ipnet_okD [OF assms] NetV4 by (cases a) (simp_all add: net_range4_def)
next
  case (NetV6 m)
  obtain k where "net_trunc E (NetV6 m) = NetV6 k" "network6 E k = network6 E m" "broadcast6 E k = broadcast6 E m"
    using assms unfolding ipnet_ok_def by blast
  then show ?thesis using ipnet_okD [OF assms] NetV6 by (cases a) (simp_all add: net_range6_def)
qed

subsection \<open>A concrete instance\<close>

text \<open>
  An instance that meets the laws, for applying theorems to concrete data: networks by their
  masks, one parsable network text, and regular expressions that match their own text only.
\<close>

definition demo_lib :: ext_lib where
  "demo_lib = \<lparr>regex_new = (\<lambda>p. True), regex_is_match = (\<lambda>p s. p = s), regex_escape = (\<lambda>s. s),
     net_parse = (\<lambda>s. if s = ''10.0.0.0/8'' then Some (NetV4 \<lparr>addr4 = 167772160, prefix4 = 8\<rparr>) else None),
     network4 = (\<lambda>n. addr4 n AND NOT (Bit_Operations.mask (32 - prefix4 n))),
     broadcast4 = (\<lambda>n. addr4 n OR Bit_Operations.mask (32 - prefix4 n)),
     network6 = (\<lambda>n. addr6 n AND NOT (Bit_Operations.mask (128 - prefix6 n))),
     broadcast6 = (\<lambda>n. addr6 n OR Bit_Operations.mask (128 - prefix6 n)),
     net_contains = (\<lambda>n a. case (n, a) of
         (NetV4 n, V4 a) \<Rightarrow> addr4 n AND NOT (Bit_Operations.mask (32 - prefix4 n)) \<le> a \<and>
           a \<le> addr4 n OR Bit_Operations.mask (32 - prefix4 n)
       | (NetV6 n, V6 a) \<Rightarrow> addr6 n AND NOT (Bit_Operations.mask (128 - prefix6 n)) \<le> a \<and>
           a \<le> addr6 n OR Bit_Operations.mask (128 - prefix6 n)
       | _ \<Rightarrow> False),
     net_trunc = (\<lambda>n. case n of
         NetV4 n \<Rightarrow> NetV4 (n\<lparr>addr4 := addr4 n AND NOT (Bit_Operations.mask (32 - prefix4 n))\<rparr>)
       | NetV6 n \<Rightarrow> NetV6 (n\<lparr>addr6 := addr6 n AND NOT (Bit_Operations.mask (128 - prefix6 n))\<rparr>)),
     net_new4 = (\<lambda>a p. if p \<le> 32 then Some \<lparr>addr4 = a, prefix4 = p\<rparr> else None),
     net_new6 = (\<lambda>a p. if p \<le> 128 then Some \<lparr>addr6 = a, prefix6 = p\<rparr> else None),
     net_to_string = (\<lambda>n. case n of
         NetV4 n \<Rightarrow> show_word (addr4 n) @ ''/'' @ show_nat (prefix4 n)
       | NetV6 n \<Rightarrow> '':'' @ show_word (addr6 n) @ ''/'' @ show_nat (prefix6 n)),
     to_lowercase = to_ascii_lowercase, to_uppercase = to_ascii_uppercase\<rparr>"

lemma and_not_mask_le: "(a :: 'w :: len word) AND NOT (Bit_Operations.mask k) \<le> a OR Bit_Operations.mask k"
  by (rule order_trans [OF word_and_le2 le_word_or2])

lemma digits_slash_inject:
  assumes "show_nat a @ CHR ''/'' # x = show_nat b @ CHR ''/'' # y"
  shows "a = b \<and> x = y"
proof -
  have no: "CHR ''/'' \<notin> set (show_nat n)" for n
    using show_nat_digits [of n] by (auto simp: list_all_iff is_ascii_digit_def byte_val_def)
  have "takeWhile (\<lambda>c. c \<noteq> CHR ''/'') (show_nat a @ CHR ''/'' # x) = show_nat a" for a x
    using no [of a] by (subst takeWhile_append2) auto
  then have "show_nat a = show_nat b" using assms by metis
  then show ?thesis using assms by (simp add: show_nat_inject)
qed

lemma demo_print_ok: "net_print_ok demo_lib"
proof -
  have colon: "show_nat a @ x \<noteq> CHR '':'' # y" for a x y
  proof
    assume "show_nat a @ x = CHR '':'' # y"
    then have "hd (show_nat a) = CHR '':''" by (cases "show_nat a") auto
    then have "CHR '':'' \<in> set (show_nat a)" using hd_in_set [OF show_nat_nonempty, of a] by simp
    then show False using show_nat_digits [of a] by (auto simp: list_all_iff is_ascii_digit_def byte_val_def)
  qed
  have "n = m" if "net_to_string demo_lib n = net_to_string demo_lib m" for n m
    using that
    by (cases n; cases m)
      (auto simp: demo_lib_def show_word_def show_nat_inject word_unat_eq_iff colon
        dest!: digits_slash_inject colon [THEN notE, OF sym])
  then show ?thesis by (auto simp: net_print_ok_def inj_def)
qed

lemma demo_lib_ok: "ipnet_ok demo_lib" "case_ok demo_lib"
proof -
  show "ipnet_ok demo_lib"
    unfolding ipnet_ok_def demo_lib_def
    by (auto simp: and_not_mask_le intro: bit_word_eqI simp: bit_simps)
  show "case_ok demo_lib" by (simp add: case_ok_def demo_lib_def)
qed

end
