(* ===== verification/Metadata.thy ===== *)
theory Metadata
  imports Ext_Lib
begin

section \<open>Connection metadata\<close>

text \<open>
  \<^verbatim>\<open>Metadata\<close> of \<^verbatim>\<open>meow-common/src/metadata.rs\<close> with the enumerations it carries, the views of it the
  rule engine takes, and host validation. \<open>ip_parse\<close> stands for \<^verbatim>\<open>str::parse::<IpAddr>\<close>. The
  record \<open>platform\<close> holds what \<^verbatim>\<open>process_lookup.rs\<close> decides by target and by the embedder.
\<close>

datatype network = Tcp | Udp

datatype conn_type =
  Http | Https | Socks4 | Socks5 | Shadowsocks | Vmess | Vless | Redir | TProxy | Trojan
| Tun | Tunnel | Tuic | Hysteria2 | Inner

datatype dns_mode = DnsNormal | DnsMapping | DnsFakeIp

definition mapping_enabled :: "dns_mode \<Rightarrow> bool" where
  "mapping_enabled m \<longleftrightarrow> m = DnsMapping \<or> m = DnsFakeIp"

record metadata =
  network :: network
  conn_type :: conn_type
  src_ip :: "ip_addr option"
  dst_ip :: "ip_addr option"
  src_port :: "16 word"
  dst_port :: "16 word"
  host :: string
  dns_mode :: dns_mode
  process :: string
  process_path :: string
  uid :: "32 word option"
  dscp :: "8 word option"
  src_geo_ip :: "string list"
  dst_geo_ip :: "string list"
  sniff_host :: string
  in_name :: string
  in_port :: "16 word"
  in_user :: "string option"
  special_proxy :: string
  internal :: bool

definition default_metadata :: metadata where
  "default_metadata = \<lparr>network = Tcp, conn_type = Http, src_ip = None, dst_ip = None,
     src_port = 0, dst_port = 0, host = [], dns_mode = DnsNormal, process = [], process_path = [],
     uid = None, dscp = None, src_geo_ip = [], dst_geo_ip = [], sniff_host = [], in_name = [],
     in_port = 0, in_user = None, special_proxy = [], internal = False\<rparr>"

definition is_internal :: "metadata \<Rightarrow> bool" where
  "is_internal md \<longleftrightarrow> internal md \<or> conn_type md = Tunnel"

definition swap_src_dst :: "metadata \<Rightarrow> metadata" where
  "swap_src_dst md =
     md\<lparr>src_ip := dst_ip md, dst_ip := src_ip md, src_port := dst_port md, dst_port := src_port md,
        src_geo_ip := dst_geo_ip md, dst_geo_ip := src_geo_ip md\<rparr>"

definition domain_udp_target :: "metadata \<Rightarrow> (string \<times> 16 word) option" where
  "domain_udp_target md =
     (if network md = Udp \<and> dst_ip md = None \<and> host md \<noteq> [] then Some (host md, dst_port md) else None)"

definition lower_host :: "string \<Rightarrow> string" where
  "lower_host s = (if list_ex is_ascii_uppercase s then to_ascii_lowercase s else s)"

definition rule_host :: "metadata \<Rightarrow> string" where
  "rule_host md =
     (if sniff_host md = [] then trim_end_dots (host md) else trim_end_dots (sniff_host md))"

definition resolved :: "metadata \<Rightarrow> bool" where
  "resolved md \<longleftrightarrow> dst_ip md \<noteq> None"

definition pure :: "metadata \<Rightarrow> metadata" where
  "pure md = \<lparr>network = network md, conn_type = conn_type md, src_ip = src_ip md, dst_ip = dst_ip md,
     src_port = src_port md, dst_port = dst_port md, host = host md, dns_mode = dns_mode md,
     process = process md, process_path = process_path md, uid = uid md, dscp = dscp md,
     src_geo_ip = [], dst_geo_ip = [], sniff_host = [], in_name = [],
     in_port = 0, in_user = None, special_proxy = [], internal = internal md\<rparr>"

text \<open>The JSON reading of the DSCP field: unknown is written as 0, and 0 is read as unknown.\<close>

definition dscp_serialize :: "8 word option \<Rightarrow> 8 word" where
  "dscp_serialize d = (case d of None \<Rightarrow> 0 | Some v \<Rightarrow> v)"

definition dscp_deserialize :: "8 word option \<Rightarrow> 8 word option" where
  "dscp_deserialize d = (case d of Some v \<Rightarrow> if v \<noteq> 0 then Some v else None | None \<Rightarrow> None)"

subsection \<open>Host names\<close>

definition metadata_ip_literal :: "(string \<Rightarrow> ip_addr option) \<Rightarrow> string \<Rightarrow> ip_addr option" where
  "metadata_ip_literal ip_parse s =
     (case ip_parse s of
        Some ip \<Rightarrow> Some ip
      | None \<Rightarrow> Option.bind (strip_prefix ''['' s) (\<lambda>s. Option.bind (strip_suffix '']'' s) ip_parse))"

definition is_ascii_alphanumeric :: "char \<Rightarrow> bool" where
  "is_ascii_alphanumeric c \<longleftrightarrow> is_ascii_uppercase c \<or> is_ascii_lowercase c \<or> is_ascii_digit c"

definition host_byte :: "char \<Rightarrow> bool" where
  "host_byte c \<longleftrightarrow> is_ascii_alphanumeric c \<or> c = CHR ''-'' \<or> c = CHR ''_''"

text \<open>
  The closure of \<^verbatim>\<open>is_valid_host\<close>, with the captured flag: the bytes of a label up to the first
  one that is refused, then the labels up to the first one that is refused.
\<close>

fun label_bytes_ok :: "string \<Rightarrow> bool \<Rightarrow> bool \<times> bool" where
  "label_bytes_ok [] non_numeric = (True, non_numeric)"
| "label_bytes_ok (c # cs) non_numeric =
     (let non_numeric = non_numeric \<or> \<not> is_ascii_digit c in
      if host_byte c then label_bytes_ok cs non_numeric else (False, non_numeric))"

fun labels_ok :: "string list \<Rightarrow> bool \<Rightarrow> bool \<times> bool" where
  "labels_ok [] non_numeric = (True, non_numeric)"
| "labels_ok (l # ls) non_numeric =
     (if l = [] \<or> 63 < length l then (False, non_numeric)
      else let (ok, non_numeric) = label_bytes_ok l non_numeric in
        if ok then labels_ok ls non_numeric else (False, non_numeric))"

definition is_valid_host :: "(string \<Rightarrow> ip_addr option) \<Rightarrow> string \<Rightarrow> bool" where
  "is_valid_host ip_parse h =
     (if metadata_ip_literal ip_parse h \<noteq> None then True
      else let name = (case strip_suffix ''.'' h of Some n \<Rightarrow> n | None \<Rightarrow> h) in
        if name = [] \<or> 253 < length name then False
        else let (ok, non_numeric) = labels_ok (split_on CHR ''.'' name) False in ok \<and> non_numeric)"

subsection \<open>Process information\<close>

record platform =
  PROCESS_LOOKUP_SUPPORTED :: bool
  target_linux :: bool
  INBOUND_PROCESS_INFO :: bool

definition enable_inbound_process_info :: "platform \<Rightarrow> platform" where
  "enable_inbound_process_info P = P\<lparr>INBOUND_PROCESS_INFO := True\<rparr>"

definition process_info_available :: "platform \<Rightarrow> bool" where
  "process_info_available P \<longleftrightarrow> PROCESS_LOOKUP_SUPPORTED P \<or> INBOUND_PROCESS_INFO P"

definition uid_info_available :: "platform \<Rightarrow> bool" where
  "uid_info_available P \<longleftrightarrow> target_linux P \<or> INBOUND_PROCESS_INFO P"

text \<open>
  What a platform lets the metadata carry: without any source of process information the process
  name and path are never filled in.
\<close>

definition metadata_on :: "platform \<Rightarrow> metadata \<Rightarrow> bool" where
  "metadata_on P md \<longleftrightarrow> (\<not> process_info_available P \<longrightarrow> process md = [] \<and> process_path md = [])"

subsection \<open>Facts on metadata\<close>

lemma swap_src_dst_involutive [simp]: "swap_src_dst (swap_src_dst md) = md"
  by (simp add: swap_src_dst_def)

lemma swap_src_dst_sel [simp]:
  "src_ip (swap_src_dst md) = dst_ip md" "dst_ip (swap_src_dst md) = src_ip md"
  "src_port (swap_src_dst md) = dst_port md" "dst_port (swap_src_dst md) = src_port md"
  "host (swap_src_dst md) = host md" "sniff_host (swap_src_dst md) = sniff_host md"
  "process (swap_src_dst md) = process md" "process_path (swap_src_dst md) = process_path md"
  "uid (swap_src_dst md) = uid md"
  by (simp_all add: swap_src_dst_def)

lemma rule_host_swap [simp]: "rule_host (swap_src_dst md) = rule_host md"
  by (simp add: rule_host_def)

lemma metadata_on_swap [simp]: "metadata_on P (swap_src_dst md) \<longleftrightarrow> metadata_on P md"
  by (simp add: metadata_on_def)

lemma trim_end_dots_last: "trim_end_dots s \<noteq> [] \<Longrightarrow> last (trim_end_dots s) \<noteq> CHR ''.''"
  using hd_dropWhile [of "\<lambda>c. c = CHR ''.''" "rev s"] by (simp add: trim_end_dots_def last_rev)

lemma trim_end_dots_id: "s = [] \<or> last s \<noteq> CHR ''.'' \<Longrightarrow> trim_end_dots s = s"
  by (cases s rule: rev_cases) (simp_all add: trim_end_dots_def)

lemma trim_end_dots_idem [simp]: "trim_end_dots (trim_end_dots s) = trim_end_dots s"
  using trim_end_dots_last [of s] trim_end_dots_id [of "trim_end_dots s"] by blast

lemma rule_host_trimmed [simp]: "trim_end_dots (rule_host md) = rule_host md"
  by (simp add: rule_host_def)

lemma lower_host_eq: "lower_host s = to_ascii_lowercase s"
  by (auto simp: lower_host_def to_ascii_lowercase_id list_all_iff list_ex_iff)

text \<open>A host the rule engine can be handed: lower-case ASCII without empty labels.\<close>

definition normal_host :: "string \<Rightarrow> bool" where
  "normal_host q \<longleftrightarrow> q = [] \<or>
     list_all (\<lambda>c. is_ascii_byte c \<and> \<not> is_ascii_uppercase c) q \<and> [] \<notin> set (split_on CHR ''.'' q)"

lemma label_bytes_ok_True:
  "label_bytes_ok cs b = (True, b') \<longleftrightarrow> list_all host_byte cs \<and> b' = (b \<or> \<not> list_all is_ascii_digit cs)"
  by (induction cs arbitrary: b) (auto simp: Let_def)

lemma labels_ok_True:
  "labels_ok ls b = (True, b') \<longleftrightarrow>
     (\<forall>l \<in> set ls. l \<noteq> [] \<and> length l \<le> 63 \<and> list_all host_byte l) \<and>
     b' = (b \<or> (\<exists>l \<in> set ls. \<not> list_all is_ascii_digit l))"
proof (induction ls arbitrary: b)
  case (Cons l ls)
  obtain ok nn where l: "label_bytes_ok l b = (ok, nn)" by (cases "label_bytes_ok l b")
  show ?case
  proof (cases ok)
    case True
    then have "list_all host_byte l" and "nn = (b \<or> \<not> list_all is_ascii_digit l)"
      using l label_bytes_ok_True [of l b nn] by simp_all
    then show ?thesis using Cons [of nn] l True by (simp add: not_less)
  next
    case False
    then have "\<not> list_all host_byte l"
      using l label_bytes_ok_True [of l b "b \<or> \<not> list_all is_ascii_digit l"] by simp
    then show ?thesis using l False by (simp add: not_less)
  qed
qed auto

lemma split_on_map_lower:
  "split_on CHR ''.'' (to_ascii_lowercase s) = map to_ascii_lowercase (split_on CHR ''.'' s)"
  by (induction s) (auto split: list.splits)

lemma split_on_nonempty [simp]: "split_by P s \<noteq> []"
  by (induction s) (auto split: list.splits)

lemma split_on_sep_snoc: "split_on c (s @ [c]) = split_on c s @ [[]]"
  by (induction s) (auto split: list.splits)

lemma no_empty_label_last: "[] \<notin> set (split_on CHR ''.'' q) \<Longrightarrow> q \<noteq> [] \<and> last q \<noteq> CHR ''.''"
proof (cases q rule: rev_cases)
  case (snoc s c)
  assume "[] \<notin> set (split_on CHR ''.'' q)"
  then show ?thesis using snoc by (auto simp: split_on_sep_snoc)
qed simp

lemma set_split_on: "set s \<subseteq> insert c (\<Union> (set ` set (split_on c s)))"
proof (induction s)
  case (Cons x s)
  obtain l ls where "split_on c s = l # ls" by (cases "split_on c s") auto
  with Cons show ?case by (simp, blast)
qed simp

lemma is_ascii_lower_byte: "is_ascii_byte c \<Longrightarrow> is_ascii_byte (lower_byte c)"
  by (auto simp: is_ascii_byte_def byte_val_lower_byte is_ascii_uppercase_def)

lemma host_byte_ascii: "host_byte c \<Longrightarrow> is_ascii_byte (lower_byte c)"
  by (rule is_ascii_lower_byte)
    (auto simp: host_byte_def is_ascii_alphanumeric_def is_ascii_byte_def
      is_ascii_uppercase_def is_ascii_lowercase_def is_ascii_digit_def byte_val_def)

lemma normal_host_lower:
  assumes "[] \<notin> set (split_on CHR ''.'' q)" and "\<forall>l \<in> set (split_on CHR ''.'' q). \<forall>c \<in> set l. is_ascii_byte (lower_byte c)"
  shows "normal_host (to_ascii_lowercase q)"
proof -
  have dot: "is_ascii_byte (lower_byte CHR ''.'')" by (simp add: is_ascii_byte_def byte_val_def lower_byte_def is_ascii_uppercase_def)
  then have "\<forall>c \<in> set q. is_ascii_byte (lower_byte c)"
    using set_split_on [of q "CHR ''.''"] assms(2) by fastforce
  moreover have "[] \<notin> set (split_on CHR ''.'' (to_ascii_lowercase q))"
    using assms(1) by (simp add: split_on_map_lower image_iff) (metis to_ascii_lowercase_eq_Nil)
  ultimately show ?thesis by (simp add: normal_host_def to_ascii_lowercase_def list_all_iff)
qed

lemma trim_end_dots_lower: "trim_end_dots (to_ascii_lowercase s) = to_ascii_lowercase (trim_end_dots s)"
  by (induction s rule: rev_induct) (auto simp: trim_end_dots_def)

text \<open>What \<^verbatim>\<open>IpAddr\<close> parsing accepts: ASCII text without empty dot-separated parts.\<close>

definition ip_parse_ok :: "(string \<Rightarrow> ip_addr option) \<Rightarrow> bool" where
  "ip_parse_ok ip_parse \<longleftrightarrow>
     (\<forall>s ip. ip_parse s = Some ip \<longrightarrow> is_ascii s \<and> [] \<notin> set (split_on CHR ''.'' s))"

lemma split_on_subset: "l \<in> set (split_by P s) \<Longrightarrow> set l \<subseteq> set s"
  by (induction s arbitrary: l) (fastforce split: list.splits if_splits)+

lemma split_on_snoc:
  "d \<noteq> c \<Longrightarrow> split_on c (s @ [d]) = butlast (split_on c s) @ [last (split_on c s) @ [d]]"
  by (induction s) (auto split: list.splits simp: append_eq_Cons_conv)

lemma bracketed_labels:
  assumes "[] \<notin> set (split_on CHR ''.'' s)"
  shows "[] \<notin> set (split_on CHR ''.'' (''['' @ s @ '']''))"
proof -
  have "[] \<notin> set (split_on CHR ''.'' (s @ '']''))"
    using assms in_set_butlastD [of "[]" "split_on CHR ''.'' s"] by (auto simp: split_on_snoc)
  then show ?thesis by (auto split: list.splits)
qed

lemma ip_literal_text:
  assumes "ip_parse_ok ip_parse" and "metadata_ip_literal ip_parse h = Some ip"
  shows "is_ascii h" and "[] \<notin> set (split_on CHR ''.'' h)"
proof -
  have "ip_parse h = Some ip \<or> (\<exists>s. h = ''['' @ s @ '']'' \<and> ip_parse s = Some ip)"
    using assms(2)
    by (auto simp: metadata_ip_literal_def strip_prefix_def strip_suffix_def prefix_def suffix_def
        bind_eq_Some_conv split: option.splits if_splits)
  then have "is_ascii h \<and> [] \<notin> set (split_on CHR ''.'' h)"
  proof (elim disjE exE conjE)
    fix s assume s: "h = ''['' @ s @ '']''" "ip_parse s = Some ip"
    then have "is_ascii s" "[] \<notin> set (split_on CHR ''.'' s)" using assms(1) by (auto simp: ip_parse_ok_def)
    then show ?thesis unfolding s(1)
      by (intro conjI bracketed_labels) (simp_all add: is_ascii_def is_ascii_byte_def byte_val_def)
  qed (use assms(1) in \<open>auto simp: ip_parse_ok_def\<close>)
  then show "is_ascii h" and "[] \<notin> set (split_on CHR ''.'' h)" by simp_all
qed

text \<open>
  C21. Ingress validation and rule matching fit together: a host name that passes
  \<^verbatim>\<open>is_valid_host\<close> and is stored through \<^verbatim>\<open>lower_host\<close> gives the rule engine a non-empty host in
  lower-case ASCII with no empty label, which is the form the domain index requires.
\<close>

theorem valid_host_is_normal:
  assumes "ip_parse_ok ip_parse" and "is_valid_host ip_parse h"
    and "host md = lower_host h" and "sniff_host md = []"
  shows "normal_host (rule_host md) \<and> rule_host md \<noteq> []"
proof -
  have rh: "rule_host md = to_ascii_lowercase (trim_end_dots h)"
    using assms(3,4) by (simp add: rule_host_def lower_host_eq trim_end_dots_lower)
  show ?thesis
  proof (cases "metadata_ip_literal ip_parse h")
    case None
    define name where "name = (case strip_suffix ''.'' h of Some n \<Rightarrow> n | None \<Rightarrow> h)"
    obtain nn where "labels_ok (split_on CHR ''.'' name) False = (True, nn)"
      using assms(2) None by (auto simp: is_valid_host_def name_def Let_def split: if_splits prod.splits)
    then have labels: "\<forall>l \<in> set (split_on CHR ''.'' name). l \<noteq> [] \<and> list_all host_byte l"
      by (simp add: labels_ok_True)
    then have ne: "[] \<notin> set (split_on CHR ''.'' name)" by auto
    have "h = name \<or> h = name @ ''.''"
      by (auto simp: name_def strip_suffix_def suffix_def split: option.splits if_splits)
    then have "trim_end_dots h = trim_end_dots name" by (auto simp: trim_end_dots_def)
    also have "\<dots> = name" using no_empty_label_last [OF ne] by (simp add: trim_end_dots_id)
    finally have "rule_host md = to_ascii_lowercase name" using rh by simp
    then show ?thesis using normal_host_lower [OF ne] labels no_empty_label_last [OF ne]
      by (auto simp: list_all_iff host_byte_ascii)
  next
    case (Some ip)
    note ok = ip_literal_text [OF assms(1) Some]
    have "trim_end_dots h = h" using no_empty_label_last [OF ok(2)] by (simp add: trim_end_dots_id)
    moreover have "normal_host (to_ascii_lowercase h)"
      using ok split_on_subset [of _ "\<lambda>x. x = CHR ''.''" h]
      by (intro normal_host_lower) (auto simp: is_ascii_def list_all_iff intro!: is_ascii_lower_byte)
    ultimately show ?thesis using rh no_empty_label_last [OF ok(2)] by simp
  qed
qed

theorem valid_host_is_normal_witness:
  "normal_host (rule_host (default_metadata\<lparr>host := lower_host ''Www.Example.com.''\<rparr>)) \<and>
   rule_host (default_metadata\<lparr>host := lower_host ''Www.Example.com.''\<rparr>) \<noteq> []"
  by (rule valid_host_is_normal [of "\<lambda>_. None" "''Www.Example.com.''"])
    (simp_all add: ip_parse_ok_def default_metadata_def, code_simp)

end
