(* ===== verification/Rust_Slice.thy ===== *)
theory Rust_Slice
  imports Prelude
begin

section \<open>Slices: binary search and partition points\<close>

text \<open>
  The search routines of the Rust standard library that the sources call on sorted slices.
  \<^verbatim>\<open>binary_search_by\<close> halves the candidate run until one element is left;
  \<^verbatim>\<open>partition_point\<close> is the same search with a two-valued comparison. The comparison
  may panic (an index out of bounds), so it returns an \<^typ>\<open>'a panics\<close>.
\<close>

datatype ordering = Less | Equal | Greater

definition compare :: "'a::linorder \<Rightarrow> 'a \<Rightarrow> ordering" where
  "compare a b = (if a < b then Less else if a = b then Equal else Greater)"

function bsearch_loop :: "(nat \<Rightarrow> ordering panics) \<Rightarrow> nat \<Rightarrow> nat \<Rightarrow> nat panics" where
  "bsearch_loop f base sz =
     (if 1 < sz then
        Option.bind (f (base + sz div 2)) (\<lambda>c.
          bsearch_loop f (if c = Greater then base else base + sz div 2) (sz - sz div 2))
      else Some base)"
  by pat_completeness auto
termination
  by (relation "measure (\<lambda>(f, base, sz). sz)") auto

declare bsearch_loop.simps [simp del]

text \<open>\<^const>\<open>Inr\<close> is \<^verbatim>\<open>Ok(index)\<close>, \<^const>\<open>Inl\<close> is \<^verbatim>\<open>Err(insertion point)\<close>.\<close>

definition binary_search_by :: "('a \<Rightarrow> ordering panics) \<Rightarrow> 'a list \<Rightarrow> (nat + nat) panics" where
  "binary_search_by f xs =
     (if xs = [] then Some (Inl 0)
      else Option.bind (bsearch_loop (\<lambda>i. f (xs ! i)) 0 (length xs)) (\<lambda>base.
           Option.bind (f (xs ! base)) (\<lambda>c.
             Some (case c of Less \<Rightarrow> Inl (base + 1) | Equal \<Rightarrow> Inr base | Greater \<Rightarrow> Inl base))))"

definition partition_point :: "('a \<Rightarrow> bool) \<Rightarrow> 'a list \<Rightarrow> nat" where
  "partition_point p xs =
     (case binary_search_by (\<lambda>x. Some (if p x then Less else Greater)) xs of
        Some (Inl i) \<Rightarrow> i
      | Some (Inr i) \<Rightarrow> i
      | None \<Rightarrow> 0)"

subsection \<open>Correctness of the search\<close>

text \<open>
  A comparison is monotone on the first \<open>n\<close> indices when the answers are a run of
  \<^const>\<open>Less\<close>, then a run of \<^const>\<open>Equal\<close>, then a run of \<^const>\<open>Greater\<close>.
\<close>

definition monotone_cmp :: "(nat \<Rightarrow> ordering) \<Rightarrow> nat \<Rightarrow> bool" where
  "monotone_cmp g n \<longleftrightarrow>
     (\<forall>i j. i \<le> j \<longrightarrow> j < n \<longrightarrow> (g i = Greater \<longrightarrow> g j = Greater) \<and> (g j = Less \<longrightarrow> g i = Less))"

lemma monotone_cmpD_Greater:
  "monotone_cmp g n \<Longrightarrow> i \<le> j \<Longrightarrow> g i = Greater \<Longrightarrow> j < n \<Longrightarrow> g j = Greater"
  unfolding monotone_cmp_def by blast

lemma monotone_cmpD_Less:
  "monotone_cmp g n \<Longrightarrow> i \<le> j \<Longrightarrow> g j = Less \<Longrightarrow> j < n \<Longrightarrow> g i = Less"
  unfolding monotone_cmp_def by blast

lemma bsearch_loop_correct:
  assumes "\<And>i. i < base + sz \<Longrightarrow> f i = Some (g i)" and "0 < sz"
    and "monotone_cmp g n" and "base + sz \<le> n"
    and "\<And>i. base + sz \<le> i \<Longrightarrow> i < n \<Longrightarrow> g i = Greater"
    and "base = 0 \<or> g base \<noteq> Greater"
  shows "\<exists>b. bsearch_loop f base sz = Some b \<and> b < n \<and> (b = 0 \<or> g b \<noteq> Greater) \<and>
           (\<forall>i. b < i \<longrightarrow> i < n \<longrightarrow> g i = Greater)"
  using assms
proof (induction f base sz rule: bsearch_loop.induct)
  case (1 f base sz)
  show ?case
  proof (cases "1 < sz")
    case False
    with "1.prems" have "sz = 1" by simp
    moreover from False have "bsearch_loop f base sz = Some base"
      by (simp add: bsearch_loop.simps)
    ultimately show ?thesis using "1.prems" by auto
  next
    case True
    define half where "half = sz div 2"
    let ?mid = "base + half"
    have half: "0 < half" "half < sz" using True by (auto simp: half_def)
    have fm: "f ?mid = Some (g ?mid)" using "1.prems"(1) half by simp
    define base' where "base' = (if g ?mid = Greater then base else ?mid)"
    have above: "g i = Greater" if "base' + (sz - half) \<le> i" "i < n" for i
    proof (cases "g ?mid = Greater")
      case True
      have "half \<le> sz - half" unfolding half_def by arith
      with True that(1) have "?mid \<le> i" by (simp add: base'_def)
      then show ?thesis using True that(2) by (rule monotone_cmpD_Greater [OF "1.prems"(3)])
    next
      case False
      then show ?thesis using that "1.prems"(5) half by (simp add: base'_def)
    qed
    have bounds: "base' + (sz - half) \<le> base + sz" "base' = 0 \<or> g base' \<noteq> Greater"
      using half "1.prems"(6) by (simp_all add: base'_def)
    have "\<exists>b. bsearch_loop f base' (sz - half) = Some b \<and> b < n \<and> (b = 0 \<or> g b \<noteq> Greater) \<and>
           (\<forall>i. b < i \<longrightarrow> i < n \<longrightarrow> g i = Greater)"
    proof (rule "1.IH" [OF True, of "g ?mid", folded half_def, folded base'_def])
      show "f i = Some (g i)" if "i < base' + (sz - half)" for i
        using "1.prems"(1) bounds(1) that by simp
      show "base' + (sz - half) \<le> n" using bounds(1) "1.prems"(4) by simp
      show "g i = Greater" if "base' + (sz - half) \<le> i" "i < n" for i
        using that by (rule above)
    qed (use fm half "1.prems"(3) bounds(2) in simp_all)
    moreover have "bsearch_loop f base sz = bsearch_loop f base' (sz - half)"
      using True fm by (subst bsearch_loop.simps) (simp add: base'_def half_def)
    ultimately show ?thesis by simp
  qed
qed

lemma binary_search_by_correct:
  assumes "\<And>i. i < length xs \<Longrightarrow> f (xs ! i) = Some (g i)" and "monotone_cmp g (length xs)"
  shows "\<exists>r. binary_search_by f xs = Some r \<and>
     (case r of
        Inr i \<Rightarrow> i < length xs \<and> g i = Equal
      | Inl i \<Rightarrow> i \<le> length xs \<and> (\<forall>j < i. g j = Less) \<and> (\<forall>j. i \<le> j \<longrightarrow> j < length xs \<longrightarrow> g j = Greater))"
proof (cases "xs = []")
  case True
  then show ?thesis by (simp add: binary_search_by_def)
next
  case False
  have "\<exists>b. bsearch_loop (\<lambda>i. f (xs ! i)) 0 (length xs) = Some b \<and> b < length xs \<and>
      (b = 0 \<or> g b \<noteq> Greater) \<and> (\<forall>i. b < i \<longrightarrow> i < length xs \<longrightarrow> g i = Greater)"
  proof (rule bsearch_loop_correct)
    show "f (xs ! i) = Some (g i)" if "i < 0 + length xs" for i using that assms(1) by simp
  qed (use False assms(2) in simp_all)
  then obtain b where b: "bsearch_loop (\<lambda>i. f (xs ! i)) 0 (length xs) = Some b" "b < length xs"
    "b = 0 \<or> g b \<noteq> Greater" "\<forall>i. b < i \<longrightarrow> i < length xs \<longrightarrow> g i = Greater"
    by blast
  have less: "g j = Less" if "g b = Less" "j \<le> b" for j
    using monotone_cmpD_Less [OF assms(2) that(2,1) b(2)] .
  have ge: "g j = Greater" if "g b = Greater" "j < length xs" for j
    using that b by (cases "j = b") auto
  have "binary_search_by f xs =
      Some (case g b of Less \<Rightarrow> Inl (b + 1) | Equal \<Rightarrow> Inr b | Greater \<Rightarrow> Inl b)"
    using False b(1) assms(1) [OF b(2)] by (simp add: binary_search_by_def)
  moreover have "b = 0" if "g b = Greater" using b(3) that by simp
  moreover have "\<forall>j. j < Suc b \<longrightarrow> g j = Less" if "g b = Less" using less [OF that] by simp
  moreover have "\<forall>j. j < length xs \<longrightarrow> g j = Greater" if "g b = Greater" using ge [OF that] by simp
  ultimately show ?thesis
    using b(2,4) by (cases "g b") auto
qed

lemma partition_point_correct:
  assumes "\<And>i j. i \<le> j \<Longrightarrow> j < length xs \<Longrightarrow> p (xs ! j) \<Longrightarrow> p (xs ! i)"
  shows "partition_point p xs \<le> length xs"
    and "\<And>j. j < partition_point p xs \<Longrightarrow> p (xs ! j)"
    and "\<And>j. partition_point p xs \<le> j \<Longrightarrow> j < length xs \<Longrightarrow> \<not> p (xs ! j)"
proof -
  define g where "g i = (if p (xs ! i) then Less else Greater)" for i
  have "monotone_cmp g (length xs)"
    using assms by (auto simp: monotone_cmp_def g_def split: if_splits)
  then obtain r where r: "binary_search_by (\<lambda>x. Some (if p x then Less else Greater)) xs = Some r"
     "case r of
        Inr i \<Rightarrow> i < length xs \<and> g i = Equal
      | Inl i \<Rightarrow> i \<le> length xs \<and> (\<forall>j < i. g j = Less) \<and> (\<forall>j. i \<le> j \<longrightarrow> j < length xs \<longrightarrow> g j = Greater)"
    using binary_search_by_correct [of xs "\<lambda>x. Some (if p x then Less else Greater)" g]
    by (auto simp: g_def)
  obtain i where i: "r = Inl i"
    using r(2) by (cases r) (auto simp: g_def split: if_splits)
  have *: "i \<le> length xs" "\<forall>j < i. p (xs ! j)" "\<forall>j. i \<le> j \<longrightarrow> j < length xs \<longrightarrow> \<not> p (xs ! j)"
    using r(2) by (auto simp: i g_def split: if_splits)
  have "partition_point p xs = i" by (simp add: partition_point_def r(1) i)
  with * show "partition_point p xs \<le> length xs"
    and "\<And>j. j < partition_point p xs \<Longrightarrow> p (xs ! j)"
    and "\<And>j. partition_point p xs \<le> j \<Longrightarrow> j < length xs \<Longrightarrow> \<not> p (xs ! j)"
    by auto
qed

lemma partition_point_takeWhile:
  assumes "\<And>i j. i \<le> j \<Longrightarrow> j < length xs \<Longrightarrow> p (xs ! j) \<Longrightarrow> p (xs ! i)"
  shows "partition_point p xs = length (takeWhile p xs)"
proof -
  let ?k = "partition_point p xs"
  note k = partition_point_correct [of xs p, OF assms]
  have "takeWhile p xs = take ?k xs"
    by (rule takeWhile_eq_take_P_nth) (use k in auto)
  then show ?thesis using k(1) by simp
qed

lemma partition_point_append:
  assumes "\<forall>x \<in> set as. p x" and "\<forall>x \<in> set bs. \<not> p x"
  shows "partition_point p (as @ bs) = length as"
proof -
  have "partition_point p (as @ bs) = length (takeWhile p (as @ bs))"
    by (rule partition_point_takeWhile)
       (use assms in \<open>auto simp: nth_append split: if_splits\<close>)
  also have "takeWhile p (as @ bs) = as"
    using assms by (cases bs) (auto simp: takeWhile_append)
  finally show ?thesis .
qed

subsection \<open>Indexing, sub-slices and loops that may panic\<close>

text \<open>\<^verbatim>\<open>xs[i]\<close>, \<^verbatim>\<open>xs[i] = v\<close> and \<^verbatim>\<open>&xs[a..b]\<close>, with the bounds checks.\<close>

definition index :: "'a list \<Rightarrow> nat \<Rightarrow> 'a panics" where
  "index xs i = (if i < length xs then Some (xs ! i) else None)"

definition store :: "'a list \<Rightarrow> nat \<Rightarrow> 'a \<Rightarrow> 'a list panics" where
  "store xs i v = (if i < length xs then Some (xs[i := v]) else None)"

definition slice :: "'a list \<Rightarrow> nat \<Rightarrow> nat \<Rightarrow> 'a list panics" where
  "slice xs a b = (if a \<le> b \<and> b \<le> length xs then Some (take (b - a) (drop a xs)) else None)"

text \<open>A \<^verbatim>\<open>for\<close> loop whose body may panic, and the collection of a fallible map.\<close>

fun foldM :: "('s \<Rightarrow> 'a \<Rightarrow> 's panics) \<Rightarrow> 's \<Rightarrow> 'a list \<Rightarrow> 's panics" where
  "foldM f s [] = Some s"
| "foldM f s (x # xs) = Option.bind (f s x) (\<lambda>s. foldM f s xs)"

fun mapM :: "('a \<Rightarrow> 'b panics) \<Rightarrow> 'a list \<Rightarrow> 'b list panics" where
  "mapM f [] = Some []"
| "mapM f (x # xs) = Option.bind (f x) (\<lambda>y. map_option ((#) y) (mapM f xs))"

lemma index_nth [simp, slice_simps]: "i < length xs \<Longrightarrow> index xs i = Some (xs ! i)"
  by (simp add: index_def)

lemma store_nth [simp, slice_simps]: "i < length xs \<Longrightarrow> store xs i v = Some (xs[i := v])"
  by (simp add: store_def)

lemma slice_within [slice_simps]:
  "a \<le> b \<Longrightarrow> b \<le> length xs \<Longrightarrow> slice xs a b = Some (take (b - a) (drop a xs))"
  by (simp add: slice_def)

lemma mapM_Some: "(\<And>x. x \<in> set xs \<Longrightarrow> f x = Some (g x)) \<Longrightarrow> mapM f xs = Some (map g xs)"
  by (induction xs) auto

lemma foldM_prefix_from:
  assumes "\<And>ys y zs s. xs = ys @ y # zs \<Longrightarrow> P ys s \<Longrightarrow> \<exists>s'. f s y = Some s' \<and> P (ys @ [y]) s'"
    and "xs = us @ vs" and "P us s"
  shows "\<exists>s'. foldM f s vs = Some s' \<and> P xs s'"
  using assms(2,3)
proof (induction vs arbitrary: us s)
  case (Cons v vs)
  then obtain s' where "f s v = Some s'" "P (us @ [v]) s'" using assms(1) by blast
  with Cons.IH [of "us @ [v]" s'] Cons.prems(1) show ?case by simp
qed simp

text \<open>The loop rule: an invariant on the part of the input already read.\<close>

lemma foldM_prefix:
  assumes "\<And>ys y zs s. xs = ys @ y # zs \<Longrightarrow> P ys s \<Longrightarrow> \<exists>s'. f s y = Some s' \<and> P (ys @ [y]) s'"
    and "P [] s"
  shows "\<exists>s'. foldM f s xs = Some s' \<and> P xs s'"
  by (rule foldM_prefix_from [of xs P f "[]" xs s]) (use assms in auto)

end
