(* ===== verification/Ip_Set.thy ===== *)
theory Ip_Set
  imports Ext_Lib Rust_Slice "HOL-Library.Product_Lexorder"
begin

section \<open>IP range sets\<close>

text \<open>
  \<^verbatim>\<open>meow-rules/src/ip_set.rs\<close>: sorted, disjoint, coalesced address intervals kept as two parallel
  arrays, looked up by one binary search. The Rust code is generic in the address type and takes the
  successor function as a closure; here both are the parameters of the locale \<open>succ_order\<close>,
  interpreted for \<^verbatim>\<open>checked_add(1)\<close> on 32-bit and on 128-bit words. \<^const>\<open>None\<close> is an index panic.
\<close>

record 'a intervals =
  starts :: "'a list"
  ends :: "'a list"

definition iv_contains :: "('a :: linorder) intervals \<Rightarrow> 'a \<Rightarrow> bool panics" where
  "iv_contains iv addr =
     (let idx = partition_point (\<lambda>start. start \<le> addr) (starts iv) in
      if idx > 0 then map_option (\<lambda>stop. addr \<le> stop) (index (ends iv) (idx - 1)) else Some False)"

definition iv_covers :: "('a :: linorder) intervals \<Rightarrow> 'a \<Rightarrow> 'a \<Rightarrow> bool panics" where
  "iv_covers iv start stop =
     (let idx = partition_point (\<lambda>s. s \<le> start) (starts iv) in
      if idx > 0 then map_option (\<lambda>last. stop \<le> last) (index (ends iv) (idx - 1)) else Some False)"

definition iv_is_empty :: "'a intervals \<Rightarrow> bool" where
  "iv_is_empty iv \<longleftrightarrow> starts iv = []"

definition iv_len :: "'a intervals \<Rightarrow> nat" where
  "iv_len iv = length (starts iv)"

definition coalesce ::
  "(('a :: linorder) \<Rightarrow> 'a option) \<Rightarrow> 'a list \<times> 'a list \<Rightarrow> 'a \<times> 'a \<Rightarrow> 'a list \<times> 'a list" where
  "coalesce nxt = (\<lambda>(ss, es) (start, stop).
     if es \<noteq> [] \<and> (start \<le> last es \<or> nxt (last es) = Some start)
     then (ss, if stop > last es then butlast es @ [stop] else es)
     else (ss @ [start], es @ [stop]))"

definition from_unsorted ::
  "(('a :: linorder) \<Rightarrow> 'a option) \<Rightarrow> ('a \<times> 'a) list \<Rightarrow> 'a intervals" where
  "from_unsorted nxt ranges =
     (let (ss, es) = foldl (coalesce nxt) ([], []) (sort ranges) in \<lparr>starts = ss, ends = es\<rparr>)"

definition push_merging ::
  "(('a :: linorder) \<Rightarrow> 'a option) \<Rightarrow> ('a \<times> 'a) list \<Rightarrow> 'a \<Rightarrow> 'a \<Rightarrow> ('a \<times> 'a) list" where
  "push_merging nxt pending start stop =
     (if pending \<noteq> [] \<and> start \<ge> fst (last pending) \<and>
         (start \<le> snd (last pending) \<or> nxt (snd (last pending)) = Some start)
      then (if stop > snd (last pending)
            then butlast pending @ [(fst (last pending), stop)] else pending)
      else pending @ [(start, stop)])"

definition checked_succ :: "'w :: len word \<Rightarrow> 'w word option" where
  "checked_succ a = (if a = - 1 then None else Some (a + 1))"

definition v4_bounds :: "ext_lib \<Rightarrow> ipv4_net \<Rightarrow> 32 word \<times> 32 word" where
  "v4_bounds E net = (network4 E net, broadcast4 E net)"

definition v6_bounds :: "ext_lib \<Rightarrow> ipv6_net \<Rightarrow> 128 word \<times> 128 word" where
  "v6_bounds E net = (network6 E net, broadcast6 E net)"

record ip_range_set =
  set_v4 :: "32 word intervals"
  set_v6 :: "128 word intervals"

record ip_range_set_builder =
  pend_v4 :: "(32 word \<times> 32 word) list"
  pend_v6 :: "(128 word \<times> 128 word) list"

definition set_builder_new :: ip_range_set_builder where
  "set_builder_new = \<lparr>pend_v4 = [], pend_v6 = []\<rparr>"

definition add_v4 :: "ext_lib \<Rightarrow> ip_range_set_builder \<Rightarrow> ipv4_net \<Rightarrow> ip_range_set_builder" where
  "add_v4 E b net =
     (let (start, stop) = v4_bounds E net in b\<lparr>pend_v4 := push_merging checked_succ (pend_v4 b) start stop\<rparr>)"

definition add_v6 :: "ext_lib \<Rightarrow> ip_range_set_builder \<Rightarrow> ipv6_net \<Rightarrow> ip_range_set_builder" where
  "add_v6 E b net =
     (let (start, stop) = v6_bounds E net in b\<lparr>pend_v6 := push_merging checked_succ (pend_v6 b) start stop\<rparr>)"

definition set_add :: "ext_lib \<Rightarrow> ip_range_set_builder \<Rightarrow> ip_net \<Rightarrow> ip_range_set_builder" where
  "set_add E b net = (case net of NetV4 n \<Rightarrow> add_v4 E b n | NetV6 n \<Rightarrow> add_v6 E b n)"

definition set_build :: "ip_range_set_builder \<Rightarrow> ip_range_set" where
  "set_build b = \<lparr>set_v4 = from_unsorted checked_succ (pend_v4 b), set_v6 = from_unsorted checked_succ (pend_v6 b)\<rparr>"

definition from_nets :: "ext_lib \<Rightarrow> ip_net list \<Rightarrow> ip_range_set" where
  "from_nets E nets = set_build (foldl (set_add E) set_builder_new nets)"

definition contains_v4 :: "ip_range_set \<Rightarrow> 32 word \<Rightarrow> bool panics" where
  "contains_v4 s a = iv_contains (set_v4 s) a"

definition contains_v6 :: "ip_range_set \<Rightarrow> 128 word \<Rightarrow> bool panics" where
  "contains_v6 s a = iv_contains (set_v6 s) a"

definition set_contains :: "ip_range_set \<Rightarrow> ip_addr \<Rightarrow> bool panics" where
  "set_contains s addr = (case addr of V4 a \<Rightarrow> contains_v4 s a | V6 a \<Rightarrow> contains_v6 s a)"

definition set_covers :: "ext_lib \<Rightarrow> ip_range_set \<Rightarrow> ip_net \<Rightarrow> bool panics" where
  "set_covers E s net =
     (case net of
        NetV4 n \<Rightarrow> (let (start, stop) = v4_bounds E n in iv_covers (set_v4 s) start stop)
      | NetV6 n \<Rightarrow> (let (start, stop) = v6_bounds E n in iv_covers (set_v6 s) start stop))"

definition set_is_empty :: "ip_range_set \<Rightarrow> bool" where
  "set_is_empty s \<longleftrightarrow> iv_is_empty (set_v4 s) \<and> iv_is_empty (set_v6 s)"

definition has_v4 :: "ip_range_set \<Rightarrow> bool" where
  "has_v4 s \<longleftrightarrow> \<not> iv_is_empty (set_v4 s)"

definition has_v6 :: "ip_range_set \<Rightarrow> bool" where
  "has_v6 s \<longleftrightarrow> \<not> iv_is_empty (set_v6 s)"

definition interval_counts :: "ip_range_set \<Rightarrow> nat \<times> nat" where
  "interval_counts s = (iv_len (set_v4 s), iv_len (set_v6 s))"

subsection \<open>The set a list of ranges stands for\<close>

definition ranges_set :: "('a :: linorder \<times> 'a) list \<Rightarrow> 'a set" where
  "ranges_set rs = (\<Union>(a, b) \<in> set rs. {a..b})"

definition valid_ranges :: "('a :: linorder \<times> 'a) list \<Rightarrow> bool" where
  "valid_ranges rs \<longleftrightarrow> (\<forall>(a, b) \<in> set rs. a \<le> b)"

text \<open>Ascending, non-empty, and separated by at least one address.\<close>

fun coalesced :: "(('a :: linorder) \<Rightarrow> 'a option) \<Rightarrow> ('a \<times> 'a) list \<Rightarrow> bool" where
  "coalesced nxt [] \<longleftrightarrow> True"
| "coalesced nxt [(a, b)] \<longleftrightarrow> a \<le> b"
| "coalesced nxt ((a, b) # (c, d) # rs) \<longleftrightarrow>
     a \<le> b \<and> b < c \<and> nxt b \<noteq> Some c \<and> coalesced nxt ((c, d) # rs)"

lemma ranges_set_simps [simp]:
  "ranges_set [] = {}" "ranges_set (r # rs) = {fst r..snd r} \<union> ranges_set rs"
  "ranges_set (rs @ rs') = ranges_set rs \<union> ranges_set rs'"
  by (auto simp: ranges_set_def)

lemma coalesced_snoc:
  "coalesced nxt (rs @ [(c, d)]) \<longleftrightarrow>
     coalesced nxt rs \<and> c \<le> d \<and> (rs \<noteq> [] \<longrightarrow> snd (last rs) < c \<and> nxt (snd (last rs)) \<noteq> Some c)"
  by (induction nxt rs rule: coalesced.induct) auto

lemma coalesced_snoc2:
  "coalesced nxt (rs @ [(a, b), (c, d)]) \<longleftrightarrow>
     coalesced nxt (rs @ [(a, b)]) \<and> c \<le> d \<and> b < c \<and> nxt b \<noteq> Some c"
  using coalesced_snoc [of nxt "rs @ [(a, b)]" c d] by simp

lemma coalesced_hd: "coalesced nxt ((a, b) # rs) \<Longrightarrow> a \<le> b"
  by (cases rs) auto

lemma coalesced_Cons_less:
  "coalesced nxt ((a, b) # rs) \<Longrightarrow> (c, d) \<in> set rs \<Longrightarrow> b < c \<and> c \<le> d"
proof (induction rs arbitrary: a b)
  case (Cons r rs)
  obtain e f where r: "r = (e, f)" by (cases r)
  with Cons.prems have "b < e" "coalesced nxt ((e, f) # rs)" by auto
  moreover from this have "e \<le> f" by (simp add: coalesced_hd)
  ultimately show ?case using Cons.IH [of e f] Cons.prems(2) r by fastforce
qed simp

lemma coalesced_appendD:
  "coalesced nxt (rs @ rs') \<Longrightarrow> coalesced nxt rs \<and> coalesced nxt rs'"
  by (induction nxt rs rule: coalesced.induct) (auto, (cases rs'; auto)+)

lemma coalesced_sorted: "coalesced nxt rs \<Longrightarrow> sorted_wrt (\<lambda>r r'. snd r < fst r') rs"
proof (induction nxt rs rule: coalesced.induct)
  case (3 nxt a b c d rs)
  then have "c \<le> d" using coalesced_hd [of nxt c d rs] by simp
  with 3 show ?case by fastforce
qed auto

locale succ_order =
  fixes nxt :: "('a :: linorder) \<Rightarrow> 'a option"
  assumes nxt_above: "x < y \<Longrightarrow> \<exists>z. nxt x = Some z \<and> x < z \<and> z \<le> y"
begin

lemma between: "nxt x = Some z \<Longrightarrow> x < w \<Longrightarrow> z \<le> w"
  using nxt_above [of x w] by auto

lemma extend_range:
  assumes "a \<le> b" and "a \<le> s" and "s \<le> b \<or> nxt b = Some s" and "s \<le> e"
  shows "{a..max b e} = {a..b} \<union> {s..e}"
proof
  show "{a..b} \<union> {s..e} \<subseteq> {a..max b e}" using assms by auto
  show "{a..max b e} \<subseteq> {a..b} \<union> {s..e}"
  proof
    fix x
    assume "x \<in> {a..max b e}"
    then show "x \<in> {a..b} \<union> {s..e}"
      using assms between [of b s x] by (cases "x \<le> b") (auto simp: le_max_iff_disj)
  qed
qed

lemma push_merging_set:
  assumes "valid_ranges pending" and "s \<le> e"
  shows "ranges_set (push_merging nxt pending s e) = ranges_set pending \<union> {s..e}"
    and "valid_ranges (push_merging nxt pending s e)"
proof -
  have "ranges_set (push_merging nxt pending s e) = ranges_set pending \<union> {s..e} \<and>
    valid_ranges (push_merging nxt pending s e)"
  proof (cases pending rule: rev_cases)
    case Nil
    then show ?thesis using assms by (simp add: push_merging_def valid_ranges_def)
  next
    case (snoc ps r)
    obtain a b where r: "r = (a, b)" by (cases r)
    have ab: "a \<le> b" using assms(1) by (simp add: snoc r valid_ranges_def)
    show ?thesis
    proof (cases "a \<le> s \<and> (s \<le> b \<or> nxt b = Some s)")
      case True
      then have u: "{a..max b e} = {a..b} \<union> {s..e}" using extend_range [OF ab _ _ assms(2)] by blast
      show ?thesis
      proof (cases "e > b")
        case gt: True
        with u have "{a..e} = {a..b} \<union> {s..e}" by (simp add: max.absorb2 less_imp_le)
        then show ?thesis using True gt assms ab
          by (auto simp: push_merging_def snoc r valid_ranges_def Un_assoc)
      next
        case False
        with u have "{a..b} = {a..b} \<union> {s..e}" by (simp add: max_def not_less)
        then show ?thesis using True False assms(1)
          by (simp add: push_merging_def snoc r) blast
      qed
    next
      case False
      then show ?thesis using assms by (auto simp: push_merging_def snoc r valid_ranges_def)
    qed
  qed
  then show "ranges_set (push_merging nxt pending s e) = ranges_set pending \<union> {s..e}"
    and "valid_ranges (push_merging nxt pending s e)" by simp_all
qed

lemma push_merging_coalesced:
  assumes "coalesced nxt rs" and "s \<le> e" and "rs \<noteq> [] \<Longrightarrow> fst (last rs) \<le> s"
  shows "coalesced nxt (push_merging nxt rs s e)" and "fst (last (push_merging nxt rs s e)) \<le> s"
    and "push_merging nxt rs s e \<noteq> []"
proof -
  have "coalesced nxt (push_merging nxt rs s e) \<and> fst (last (push_merging nxt rs s e)) \<le> s \<and>
    push_merging nxt rs s e \<noteq> []"
  proof (cases rs rule: rev_cases)
    case Nil
    then show ?thesis using assms(2) by (simp add: push_merging_def)
  next
    case (snoc ps r)
    obtain a b where r: "r = (a, b)" by (cases r)
    show ?thesis using assms by (auto simp: push_merging_def snoc r coalesced_snoc coalesced_snoc2 not_le)
  qed
  then show "coalesced nxt (push_merging nxt rs s e)" and "fst (last (push_merging nxt rs s e)) \<le> s"
    and "push_merging nxt rs s e \<noteq> []" by simp_all
qed

lemma coalesce_push:
  assumes "rs \<noteq> [] \<Longrightarrow> fst (last rs) \<le> s"
  shows "coalesce nxt (map fst rs, map snd rs) (s, e) =
    (map fst (push_merging nxt rs s e), map snd (push_merging nxt rs s e))"
  using assms by (cases rs rule: rev_cases) (auto simp: coalesce_def push_merging_def last_map butlast_append)

lemma foldl_coalesce:
  assumes "coalesced nxt rs" and "valid_ranges todo" and "sorted todo"
    and "rs \<noteq> [] \<Longrightarrow> \<forall>r \<in> set todo. fst (last rs) \<le> fst r"
  shows "\<exists>rs'. foldl (coalesce nxt) (map fst rs, map snd rs) todo = (map fst rs', map snd rs') \<and>
    coalesced nxt rs' \<and> ranges_set rs' = ranges_set rs \<union> ranges_set todo"
  using assms
proof (induction todo arbitrary: rs)
  case (Cons r todo)
  obtain s e where r: "r = (s, e)" by (cases r)
  have se: "s \<le> e" and first: "rs \<noteq> [] \<Longrightarrow> fst (last rs) \<le> s"
    using Cons.prems(2,4) by (auto simp: r valid_ranges_def)
  let ?rs = "push_merging nxt rs s e"
  note P = push_merging_coalesced [OF Cons.prems(1) se first]
  have "valid_ranges rs"
    using Cons.prems(1) unfolding valid_ranges_def
    by (metis case_prodI2 coalesced_Cons_less coalesced_appendD coalesced_hd in_set_conv_decomp)
  then have set: "ranges_set ?rs = ranges_set rs \<union> {s..e}" by (rule push_merging_set(1) [OF _ se])
  have "s \<le> fst r'" if "r' \<in> set todo" for r'
    using Cons.prems(3) that by (auto simp: r less_eq_prod_def)
  then have "\<forall>r \<in> set todo. fst (last ?rs) \<le> fst r" using P(2) by (meson order_trans)
  from Cons.IH [OF P(1) _ _ this] Cons.prems(2,3)
  show ?case using coalesce_push [OF first] set by (auto simp: r valid_ranges_def Un_assoc)
qed auto

lemma from_unsorted_coalesced:
  assumes "valid_ranges ranges"
  shows "\<exists>rs. from_unsorted nxt ranges = \<lparr>starts = map fst rs, ends = map snd rs\<rparr> \<and>
    coalesced nxt rs \<and> ranges_set rs = ranges_set ranges"
proof -
  have "valid_ranges (sort ranges)" "ranges_set (sort ranges) = ranges_set ranges"
    using assms by (simp_all add: valid_ranges_def ranges_set_def)
  then show ?thesis using foldl_coalesce [of "[]" "sort ranges"] by (auto simp: from_unsorted_def)
qed

lemma coalesced_lookup:
  assumes "coalesced nxt rs"
  defines "xs \<equiv> \<lambda>a. takeWhile (\<lambda>r. fst r \<le> a) rs"
  shows "partition_point (\<lambda>s. s \<le> a) (map fst rs) = length (xs a)"
    and "xs a \<noteq> [] \<Longrightarrow> index (map snd rs) (length (xs a) - 1) = Some (snd (last (xs a)))"
    and "a \<in> ranges_set rs \<longleftrightarrow> xs a \<noteq> [] \<and> a \<le> snd (last (xs a))"
proof -
  let ?ys = "dropWhile (\<lambda>r. fst r \<le> a) rs"
  have rs: "rs = xs a @ ?ys" by (simp add: xs_def)
  have sw: "sorted_wrt (\<lambda>r r'. snd r < fst r') rs" by (rule coalesced_sorted [OF assms(1)])
  have le: "fst r \<le> snd r" if "r \<in> set rs" for r
    using that assms(1) by (metis coalesced_appendD coalesced_hd in_set_conv_decomp prod.collapse)
  have ys: "a < fst r" if "r \<in> set ?ys" for r
  proof (cases ?ys)
    case (Cons y ys)
    have "\<not> fst y \<le> a" using hd_dropWhile [of "\<lambda>r. fst r \<le> a" rs] Cons by simp
    moreover have "r = y \<or> snd y < fst r" "fst y \<le> snd y"
      using sw that le [of y] rs Cons by (auto simp: sorted_wrt_append)
    ultimately show ?thesis by auto
  next
    case Nil
    show ?thesis using that unfolding Nil by simp
  qed
  have xsa: "fst r \<le> a" if "r \<in> set (xs a)" for r using that by (auto simp: xs_def dest: set_takeWhileD)
  show "partition_point (\<lambda>s. s \<le> a) (map fst rs) = length (xs a)"
  proof -
    have m: "map fst rs = map fst (xs a) @ map fst ?ys" by (metis map_append rs)
    have "partition_point (\<lambda>s. s \<le> a) (map fst (xs a) @ map fst ?ys) = length (map fst (xs a))"
      by (rule partition_point_append) (use xsa ys in \<open>fastforce simp: not_le\<close>)+
    then show ?thesis by (simp only: m length_map)
  qed
  show "index (map snd rs) (length (xs a) - 1) = Some (snd (last (xs a)))" if ne: "xs a \<noteq> []"
  proof -
    have "length (xs a) - 1 < length rs" "rs ! (length (xs a) - 1) = last (xs a)"
      using ne rs by (metis One_nat_def diff_less length_append length_greater_0_conv lessI less_le_trans le_add1 order_less_le_trans trans_less_add1 zero_less_one)
        (metis ne diff_less last_conv_nth length_greater_0_conv nth_append rs zero_less_one)
    then show ?thesis by simp
  qed
  show "a \<in> ranges_set rs \<longleftrightarrow> xs a \<noteq> [] \<and> a \<le> snd (last (xs a))"
  proof
    assume "a \<in> ranges_set rs"
    then obtain r where r: "r \<in> set rs" "fst r \<le> a" "a \<le> snd r" by (auto simp: ranges_set_def)
    then have rx: "r \<in> set (xs a)" using rs ys by (metis Un_iff leD set_append)
    then obtain zs z where z: "xs a = zs @ [z]" by (metis rev_exhaust list.set(1) empty_iff)
    have "r = z \<or> snd r < fst z" using rx sw rs z by (metis Un_iff empty_iff insert_iff list.set sorted_wrt_append set_append sorted_wrt.simps)
    then show "xs a \<noteq> [] \<and> a \<le> snd (last (xs a))" using r xsa [of z] z by auto
  next
    assume h: "xs a \<noteq> [] \<and> a \<le> snd (last (xs a))"
    then have "last (xs a) \<in> set rs" "fst (last (xs a)) \<le> a" using xsa rs
      by (metis Un_iff last_in_set set_append) (use h xsa last_in_set in blast)
    then show "a \<in> ranges_set rs" using h by (force simp: ranges_set_def)
  qed
qed

lemma gap_after:
  assumes "coalesced nxt (xs @ ys)" and "xs \<noteq> []" and "snd (last xs) < e"
  shows "\<exists>z. snd (last xs) < z \<and> z \<le> e \<and> z \<notin> ranges_set (xs @ ys)"
proof -
  obtain zs a b where xs: "xs = zs @ [(a, b)]" using assms(2) by (metis rev_exhaust prod.exhaust)
  have sw: "sorted_wrt (\<lambda>r r'. snd r < fst r') (xs @ ys)" by (rule coalesced_sorted [OF assms(1)])
  have le: "fst r \<le> snd r" if "r \<in> set (xs @ ys)" for r
    using that assms(1) by (metis coalesced_appendD coalesced_hd in_set_conv_decomp prod.collapse)
  obtain z where z: "nxt b = Some z" "b < z" "z \<le> e" using nxt_above [of b e] assms(3) xs by auto
  have "z \<notin> {fst r..snd r}" if "r \<in> set xs" for r
  proof -
    have "snd r \<le> b"
      using that sw le [of "(a, b)"] xs by (fastforce simp: sorted_wrt_append)
    then show ?thesis using z(2) by auto
  qed
  moreover have "z \<notin> {fst r..snd r}" if r: "r \<in> set ys" for r
  proof (cases ys)
    case (Cons y ys')
    obtain c d where y: "y = (c, d)" by (cases y)
    have "coalesced nxt ([(a, b)] @ ys)" using assms(1) xs coalesced_appendD [of nxt zs] by simp
    then have c: "b < c" "nxt b \<noteq> Some c" using Cons y by auto
    then have "z < c" using between [OF z(1) c(1)] z(1) by (metis order.not_eq_order_implies_strict)
    moreover have "c \<le> fst r"
      using r sw le [of y] Cons y by (fastforce simp: sorted_wrt_append)
    ultimately show ?thesis by auto
  qed (use r in simp)
  ultimately have "z \<notin> ranges_set (xs @ ys)" by (auto simp: ranges_set_def)
  then show ?thesis using z xs by auto
qed

lemma contains_from_unsorted:
  assumes "valid_ranges ranges"
  shows "iv_contains (from_unsorted nxt ranges) a = Some (a \<in> ranges_set ranges)"
proof -
  obtain rs where rs: "from_unsorted nxt ranges = \<lparr>starts = map fst rs, ends = map snd rs\<rparr>"
    "coalesced nxt rs" "ranges_set rs = ranges_set ranges" using from_unsorted_coalesced [OF assms] by blast
  note L = coalesced_lookup [OF rs(2), of a]
  show ?thesis using L rs(1,3) by (auto simp: iv_contains_def Let_def)
qed

lemma covers_coalesced:
  assumes "coalesced nxt rs" and "s \<le> e"
  shows "iv_covers \<lparr>starts = map fst rs, ends = map snd rs\<rparr> s e = Some ({s..e} \<subseteq> ranges_set rs)"
proof -
  let ?xs = "takeWhile (\<lambda>r. fst r \<le> s) rs"
  note L = coalesced_lookup [OF assms(1), of s]
  have "{s..e} \<subseteq> ranges_set rs \<longleftrightarrow> ?xs \<noteq> [] \<and> e \<le> snd (last ?xs)"
  proof
    assume sub: "{s..e} \<subseteq> ranges_set rs"
    then have x: "?xs \<noteq> [] \<and> s \<le> snd (last ?xs)" using L(3) assms(2) by auto
    show "?xs \<noteq> [] \<and> e \<le> snd (last ?xs)"
    proof (rule ccontr)
      assume "\<not> (?xs \<noteq> [] \<and> e \<le> snd (last ?xs))"
      with x have "snd (last ?xs) < e" by auto
      with x gap_after [of ?xs "dropWhile (\<lambda>r. fst r \<le> s) rs" e] assms(1)
      obtain z where "snd (last ?xs) < z" "z \<le> e" "z \<notin> ranges_set rs" by auto
      moreover from this have "z \<in> {s..e}" using x by auto
      ultimately show False using sub by blast
    qed
  next
    assume x: "?xs \<noteq> [] \<and> e \<le> snd (last ?xs)"
    have "last ?xs \<in> set rs" "fst (last ?xs) \<le> s"
      using x last_in_set set_takeWhileD by (metis, metis)
    then have "{fst (last ?xs)..snd (last ?xs)} \<subseteq> ranges_set rs" by (force simp: ranges_set_def)
    moreover have "{s..e} \<subseteq> {fst (last ?xs)..snd (last ?xs)}" using x \<open>fst (last ?xs) \<le> s\<close> by auto
    ultimately show "{s..e} \<subseteq> ranges_set rs" by (rule order_trans [rotated])
  qed
  then show ?thesis using L(1,2) by (auto simp: iv_covers_def Let_def)
qed

lemma covers_from_unsorted:
  assumes "valid_ranges ranges" and "s \<le> e"
  shows "iv_covers (from_unsorted nxt ranges) s e = Some ({s..e} \<subseteq> ranges_set ranges)"
  using from_unsorted_coalesced [OF assms(1)] covers_coalesced [OF _ assms(2)] by metis

end

lemma word_succ_above:
  fixes x y :: "'w :: len word"
  assumes "x < y"
  shows "\<exists>z. checked_succ x = Some z \<and> x < z \<and> z \<le> y"
proof -
  have "x \<noteq> - 1" using assms by (metis leD word_n1_ge)
  then have "1 + x \<noteq> 0" by (metis add.commute eq_neg_iff_add_eq_0)
  then have "unat (x + 1) = unat x + 1" using unatSuc [of x] by (simp add: add.commute)
  then have "x < x + 1" "x + 1 \<le> y" using assms by (simp_all add: word_less_nat_alt word_le_nat_alt)
  then show ?thesis using \<open>x \<noteq> - 1\<close> by (simp add: checked_succ_def)
qed

interpretation v4: succ_order "checked_succ :: 32 word \<Rightarrow> 32 word option"
  by unfold_locales (rule word_succ_above)

interpretation v6: succ_order "checked_succ :: 128 word \<Rightarrow> 128 word option"
  by unfold_locales (rule word_succ_above)

subsection \<open>Sets built from networks\<close>

definition v4_of :: "ext_lib \<Rightarrow> ip_net list \<Rightarrow> 32 word set" where
  "v4_of E nets = {a. \<exists>n \<in> set nets. net_contains E n (V4 a)}"

definition v6_of :: "ext_lib \<Rightarrow> ip_net list \<Rightarrow> 128 word set" where
  "v6_of E nets = {a. \<exists>n \<in> set nets. net_contains E n (V6 a)}"

lemma builder_add:
  assumes ok: "ipnet_ok E" and "valid_ranges (pend_v4 b)" and "valid_ranges (pend_v6 b)"
  shows "valid_ranges (pend_v4 (set_add E b n))" and "valid_ranges (pend_v6 (set_add E b n))"
    and "ranges_set (pend_v4 (set_add E b n)) = ranges_set (pend_v4 b) \<union> {a. net_contains E n (V4 a)}"
    and "ranges_set (pend_v6 (set_add E b n)) = ranges_set (pend_v6 b) \<union> {a. net_contains E n (V6 a)}"
  using assms v4.push_merging_set [OF assms(2) ipnet_okD(1) [OF ok]] v6.push_merging_set [OF assms(3) ipnet_okD(2) [OF ok]]
  by (cases n; simp add: set_add_def add_v4_def add_v6_def v4_bounds_def v6_bounds_def ipnet_okD [OF ok]
      net_range4_def net_range6_def atLeastAtMost_def atLeast_def atMost_def Collect_conj_eq)+

lemma builder_fold:
  assumes ok: "ipnet_ok E" and "valid_ranges (pend_v4 b)" and "valid_ranges (pend_v6 b)"
  shows "valid_ranges (pend_v4 (foldl (set_add E) b nets)) \<and> valid_ranges (pend_v6 (foldl (set_add E) b nets)) \<and>
    ranges_set (pend_v4 (foldl (set_add E) b nets)) = ranges_set (pend_v4 b) \<union> v4_of E nets \<and>
    ranges_set (pend_v6 (foldl (set_add E) b nets)) = ranges_set (pend_v6 b) \<union> v6_of E nets"
  using assms(2,3)
proof (induction nets arbitrary: b)
  case (Cons n nets)
  note A = builder_add [OF ok Cons.prems, of n]
  show ?case using Cons.IH [OF A(1,2)] A(3,4) by (auto simp: v4_of_def v6_of_def)
qed (simp add: v4_of_def v6_of_def)

lemma from_nets_ranges:
  assumes "ipnet_ok E"
  shows "\<exists>r4 r6. from_nets E nets = \<lparr>set_v4 = from_unsorted checked_succ r4, set_v6 = from_unsorted checked_succ r6\<rparr> \<and>
    valid_ranges r4 \<and> valid_ranges r6 \<and> ranges_set r4 = v4_of E nets \<and> ranges_set r6 = v6_of E nets"
proof -
  have "valid_ranges (pend_v4 set_builder_new)" "valid_ranges (pend_v6 set_builder_new)"
    by (simp_all add: set_builder_new_def valid_ranges_def)
  from builder_fold [OF assms this, of nets] show ?thesis
    by (auto simp: from_nets_def set_build_def set_builder_new_def)
qed

lemma set_contains_from_nets:
  assumes "ipnet_ok E"
  shows "set_contains (from_nets E nets) a = Some (\<exists>n \<in> set nets. net_contains E n a)"
proof -
  obtain r4 r6 where r: "from_nets E nets = \<lparr>set_v4 = from_unsorted checked_succ r4, set_v6 = from_unsorted checked_succ r6\<rparr>"
    "valid_ranges r4" "valid_ranges r6" "ranges_set r4 = v4_of E nets" "ranges_set r6 = v6_of E nets"
    using from_nets_ranges [OF assms] by blast
  show ?thesis
    using v4.contains_from_unsorted [OF r(2)] v6.contains_from_unsorted [OF r(3)] r(1,4,5)
    by (cases a) (simp_all add: set_contains_def contains_v4_def contains_v6_def v4_of_def v6_of_def)
qed

text \<open>
  C13. A range set built from a list of networks answers membership exactly: an address is in the
  set if and only if one of the networks contains it, whatever the order, overlap or adjacency of
  the networks, and the lookup never indexes out of range.
\<close>

theorem ip_set_contains_exact:
  assumes "ipnet_ok E"
  shows "set_contains (from_nets E nets) a = Some (\<exists>n \<in> set nets. net_contains E n a)"
  by (rule set_contains_from_nets [OF assms])

theorem ip_set_contains_exact_witness:
  "set_contains (from_nets demo_lib [NetV4 \<lparr>addr4 = 167772160, prefix4 = 8\<rparr>]) (V4 167772161) =
     Some (\<exists>n \<in> set [NetV4 \<lparr>addr4 = 167772160, prefix4 = 8\<rparr>]. net_contains demo_lib n (V4 167772161))"
  by (rule ip_set_contains_exact [OF demo_lib_ok(1)])

text \<open>
  C14. \<^verbatim>\<open>IpRangeSet::covers\<close> decides containment of a whole network: it answers true exactly when
  every address of the network is in some network of the set, even if only the union of several
  networks covers it.
\<close>

theorem ip_set_covers_exact:
  assumes "ipnet_ok E"
  shows "set_covers E (from_nets E nets) net =
    Some (\<forall>a. net_contains E net a \<longrightarrow> (\<exists>n \<in> set nets. net_contains E n a))"
proof -
  obtain r4 r6 where r: "from_nets E nets = \<lparr>set_v4 = from_unsorted checked_succ r4, set_v6 = from_unsorted checked_succ r6\<rparr>"
    "valid_ranges r4" "valid_ranges r6" "ranges_set r4 = v4_of E nets" "ranges_set r6 = v6_of E nets"
    using from_nets_ranges [OF assms] by blast
  note ok = ipnet_okD [OF assms]
  show ?thesis
  proof (cases net)
    case (NetV4 n)
    have "(\<forall>a. net_contains E net a \<longrightarrow> (\<exists>n \<in> set nets. net_contains E n a)) \<longleftrightarrow>
        {network4 E n..broadcast4 E n} \<subseteq> v4_of E nets"
      unfolding NetV4 all_ip_addr by (simp add: ok(3,5) net_range4_def v4_of_def subset_iff)
    then show ?thesis using v4.covers_from_unsorted [OF r(2) ok(1)] r(1,4) NetV4
      by (simp add: set_covers_def v4_bounds_def)
  next
    case (NetV6 n)
    have "(\<forall>a. net_contains E net a \<longrightarrow> (\<exists>n \<in> set nets. net_contains E n a)) \<longleftrightarrow>
        {network6 E n..broadcast6 E n} \<subseteq> v6_of E nets"
      unfolding NetV6 all_ip_addr by (simp add: ok(4,6) net_range6_def v6_of_def subset_iff)
    then show ?thesis using v6.covers_from_unsorted [OF r(3) ok(2)] r(1,5) NetV6
      by (simp add: set_covers_def v6_bounds_def)
  qed
qed

theorem ip_set_covers_exact_witness:
  "set_covers demo_lib (from_nets demo_lib [NetV4 \<lparr>addr4 = 0, prefix4 = 1\<rparr>, NetV4 \<lparr>addr4 = 2147483648, prefix4 = 1\<rparr>])
     (NetV4 \<lparr>addr4 = 0, prefix4 = 0\<rparr>) =
   Some (\<forall>a. net_contains demo_lib (NetV4 \<lparr>addr4 = 0, prefix4 = 0\<rparr>) a \<longrightarrow>
     (\<exists>n \<in> set [NetV4 \<lparr>addr4 = 0, prefix4 = 1\<rparr>, NetV4 \<lparr>addr4 = 2147483648, prefix4 = 1\<rparr>]. net_contains demo_lib n a))"
  by (rule ip_set_covers_exact [OF demo_lib_ok(1)])

end
