(* ===== verification/Trie_Search.thy ===== *)
theory Trie_Search
  imports Rust_Slice
begin

section \<open>Domain trie: the two searches\<close>

text \<open>
  The label walks of \<^verbatim>\<open>meow-trie/src/trie.rs\<close>: \<^verbatim>\<open>search_best\<close> (most specific pattern) and the
  loop of \<^verbatim>\<open>search_min_normalized\<close> (smallest value of all matching patterns). The source writes
  each loop twice, once over the builder and once over the sealed layout, with the same control
  flow; here a loop takes the node lookup and the slot read as arguments. What a representation
  has to provide for the walks to be right is the locale \<open>label_tree\<close>; what they compute is
  stated over the table \<open>path \<times> kind \<rightharpoonup> value\<close> the representation stands for.
\<close>

datatype match_kind = Exact | Star | Dot

definition label_count :: "string \<Rightarrow> nat" where
  "label_count query = length (filter (\<lambda>b. b = CHR ''.'') query) + 1"

text \<open>\<open>le\<close> is the comparison of the value type's \<^verbatim>\<open>Ord\<close> instance.\<close>

fun fold_min :: "('v \<Rightarrow> 'v \<Rightarrow> bool) \<Rightarrow> 'v option \<Rightarrow> 'v option \<Rightarrow> 'v option" where
  "fold_min le best None = best"
| "fold_min le best (Some cand) =
     (case best of Some cur \<Rightarrow> if le cur cand then Some cur else Some cand | None \<Rightarrow> Some cand)"

fun search_min_loop ::
  "('v \<Rightarrow> 'v \<Rightarrow> bool) \<Rightarrow> ('n \<Rightarrow> string \<Rightarrow> 'n option panics) \<Rightarrow>
   ('n \<Rightarrow> match_kind \<Rightarrow> 'v option panics) \<Rightarrow> nat \<Rightarrow> nat \<Rightarrow> 'n \<Rightarrow> string list \<Rightarrow> 'v option \<Rightarrow> 'v option panics" where
  "search_min_loop le down slot n d node [] best = Some best"
| "search_min_loop le down slot n d node (label # rest) best =
     Option.bind (down node label) (\<lambda>found. case found of
       None \<Rightarrow> Some best
     | Some node \<Rightarrow>
         (let remaining = n - d - 1 in
          if remaining = 0 then
            Option.bind (slot node Exact) (\<lambda>e.
              search_min_loop le down slot n (d + 1) node rest (fold_min le best e))
          else
            Option.bind (if remaining = 1 then map_option (fold_min le best) (slot node Star)
                         else Some best) (\<lambda>best.
            Option.bind (slot node Dot) (\<lambda>v.
              search_min_loop le down slot n (d + 1) node rest (fold_min le best v)))))"

fun search_best_loop ::
  "('n \<Rightarrow> string \<Rightarrow> 'n option panics) \<Rightarrow> ('n \<Rightarrow> match_kind \<Rightarrow> 'v option panics) \<Rightarrow>
   nat \<Rightarrow> nat \<Rightarrow> 'n \<Rightarrow> string list \<Rightarrow> 'v option \<Rightarrow> 'v option panics" where
  "search_best_loop down slot n d node [] best = Some best"
| "search_best_loop down slot n d node (label # rest) best =
     Option.bind (down node label) (\<lambda>found. case found of
       None \<Rightarrow> Some best
     | Some node \<Rightarrow>
         (let remaining = n - d - 1 in
          if remaining = 0 then
            Option.bind (slot node Exact) (\<lambda>e. case e of
              Some v \<Rightarrow> Some (Some v)
            | None \<Rightarrow> search_best_loop down slot n (d + 1) node rest best)
          else if remaining = 1 then
            Option.bind (slot node Star) (\<lambda>s. case s of
              Some v \<Rightarrow> search_best_loop down slot n (d + 1) node rest (Some v)
            | None \<Rightarrow> Option.bind (slot node Dot) (\<lambda>t. case t of
                Some v \<Rightarrow> search_best_loop down slot n (d + 1) node rest (Some v)
              | None \<Rightarrow> search_best_loop down slot n (d + 1) node rest best))
          else
            Option.bind (slot node Dot) (\<lambda>t. case t of
              Some v \<Rightarrow> search_best_loop down slot n (d + 1) node rest (Some v)
            | None \<Rightarrow> search_best_loop down slot n (d + 1) node rest best)))"

subsection \<open>What a table of patterns matches\<close>

text \<open>
  A pattern is a label path, top-level domain first, and a kind. An exact pattern matches its own
  path, a star pattern exactly one more label, a dot pattern one or more further labels.
\<close>

type_synonym 'v table = "string list \<Rightarrow> match_kind \<Rightarrow> 'v option"

fun covers :: "string list \<Rightarrow> match_kind \<Rightarrow> string list \<Rightarrow> bool" where
  "covers p Exact q \<longleftrightarrow> p \<noteq> [] \<and> q = p"
| "covers p Star q \<longleftrightarrow> p \<noteq> [] \<and> prefix p q \<and> length q = length p + 1"
| "covers p Dot q \<longleftrightarrow> p \<noteq> [] \<and> strict_prefix p q"

definition hits :: "'v table \<Rightarrow> string list \<Rightarrow> 'v set" where
  "hits t q = {v. \<exists>p k. covers p k q \<and> t p k = Some v}"

definition is_min_of :: "('v :: linorder) option \<Rightarrow> 'v set \<Rightarrow> bool" where
  "is_min_of r S \<longleftrightarrow> (case r of None \<Rightarrow> S = {} | Some v \<Rightarrow> v \<in> S \<and> (\<forall>w \<in> S. v \<le> w))"

text \<open>Exact beats every wildcard; a deeper wildcard beats a shallower one; star beats dot.\<close>

definition at_least_as_specific ::
  "string list \<times> match_kind \<Rightarrow> string list \<times> match_kind \<Rightarrow> bool" where
  "at_least_as_specific = (\<lambda>(p, k) (p', k').
     k = Exact \<or> k' \<noteq> Exact \<and>
       (length p' < length p \<or> length p' = length p \<and> (k = Star \<or> k' = Dot)))"

definition is_best_of :: "'v option \<Rightarrow> 'v table \<Rightarrow> string list \<Rightarrow> bool" where
  "is_best_of r t q \<longleftrightarrow>
     (case r of
        None \<Rightarrow> hits t q = {}
      | Some v \<Rightarrow> \<exists>p k. covers p k q \<and> t p k = Some v \<and>
          (\<forall>p' k'. covers p' k' q \<and> t p' k' \<noteq> None \<longrightarrow> at_least_as_specific (p, k) (p', k')))"

text \<open>The walks as recursions over the query path, on the table alone.\<close>

fun table_min :: "('v \<Rightarrow> 'v \<Rightarrow> bool) \<Rightarrow> 'v table \<Rightarrow> string list \<Rightarrow> string list \<Rightarrow> 'v option \<Rightarrow> 'v option" where
  "table_min le t p [] best = best"
| "table_min le t p (l # ls) best =
     (let p = p @ [l] in
      table_min le t p ls
        (if ls = [] then fold_min le best (t p Exact)
         else fold_min le (if length ls = 1 then fold_min le best (t p Star) else best) (t p Dot)))"

fun table_best :: "'v table \<Rightarrow> string list \<Rightarrow> string list \<Rightarrow> 'v option \<Rightarrow> 'v option" where
  "table_best t p [] best = best"
| "table_best t p (l # ls) best =
     (let p = p @ [l] in
      table_best t p ls
        (if ls = [] then or_else (t p Exact) best
         else if length ls = 1 then or_else (t p Star) (or_else (t p Dot) best)
         else or_else (t p Dot) best))"

lemma label_count_split: "label_count q = length (split_on CHR ''.'' q)"
  by (induction q) (auto simp: label_count_def split: list.splits)

lemma label_count_rsplit: "label_count q = length (rsplit_on CHR ''.'' q)"
  by (simp add: label_count_split rsplit_on_def)

lemma covers_single:
  "covers [x] k (y # ls) \<longleftrightarrow> x = y \<and> (case k of Exact \<Rightarrow> ls = [] | Star \<Rightarrow> length ls = 1 | Dot \<Rightarrow> ls \<noteq> [])"
  by (cases k) (auto simp: strict_prefix_def)

lemma covers_Cons: "p \<noteq> [] \<Longrightarrow> covers (x # p) k (y # ls) \<longleftrightarrow> x = y \<and> covers p k ls"
  by (cases k) auto

lemma covers_Nil [simp]: "\<not> covers [] k q" "\<not> covers p k []"
  by (cases k; auto)+

lemma ex_match_kind: "(\<exists>k. P k) \<longleftrightarrow> P Exact \<or> P Star \<or> P Dot"
  by (metis match_kind.exhaust)

lemma all_match_kind: "(\<forall>k. P k) \<longleftrightarrow> P Exact \<and> P Star \<and> P Dot"
  by (metis match_kind.exhaust)

definition below :: "'v table \<Rightarrow> string list \<Rightarrow> string list \<Rightarrow> 'v set" where
  "below t p q = {v. \<exists>r k. covers r k q \<and> t (p @ r) k = Some v}"

lemma below_Nil [simp]: "below t p [] = {}"
  by (simp add: below_def)

lemma below_root: "below t [] q = hits t q"
  by (simp add: below_def hits_def)

lemma below_Cons:
  "below t p (l # ls) =
     {v. \<exists>k. t (p @ [l]) k = Some v \<and>
          (case k of Exact \<Rightarrow> ls = [] | Star \<Rightarrow> length ls = 1 | Dot \<Rightarrow> ls \<noteq> [])} \<union> below t (p @ [l]) ls"
  (is "_ = ?here \<union> _")
proof (intro equalityI subsetI)
  fix v
  assume "v \<in> below t p (l # ls)"
  then obtain r k where r: "covers r k (l # ls)" "t (p @ r) k = Some v" by (auto simp: below_def)
  then obtain x r' where "r = x # r'" by (cases r) auto
  with r show "v \<in> ?here \<union> below t (p @ [l]) ls"
    by (cases "r' = []") (auto simp: covers_single covers_Cons below_def)
next
  fix v
  assume "v \<in> ?here \<union> below t (p @ [l]) ls"
  then show "v \<in> below t p (l # ls)"
  proof
    assume "v \<in> ?here"
    then obtain k where "covers [l] k (l # ls)" "t (p @ [l]) k = Some v"
      by (auto simp: covers_single)
    then show ?thesis unfolding below_def by blast
  next
    assume "v \<in> below t (p @ [l]) ls"
    then obtain r k where r: "covers r k ls" "t ((p @ [l]) @ r) k = Some v" by (auto simp: below_def)
    then have "covers (l # r) k (l # ls)" by (cases "r = []") (auto simp: covers_Cons)
    moreover have "t (p @ l # r) k = Some v" using r by simp
    ultimately show ?thesis unfolding below_def by blast
  qed
qed

lemma is_min_of_fold:
  "is_min_of best S \<Longrightarrow> is_min_of (fold_min (\<le>) best c) (S \<union> set_option c)"
  by (cases c; cases best) (auto simp: is_min_of_def)

lemma table_min_correct:
  "is_min_of best S \<Longrightarrow> is_min_of (table_min (\<le>) t p ls best) (S \<union> below t p ls)"
proof (induction ls arbitrary: p best S)
  case (Cons l ls)
  let ?p = "p @ [l]"
  let ?best = "if ls = [] then fold_min (\<le>) best (t ?p Exact)
         else fold_min (\<le>) (if length ls = 1 then fold_min (\<le>) best (t ?p Star) else best) (t ?p Dot)"
  let ?here = "{v. \<exists>k. t ?p k = Some v \<and>
          (case k of Exact \<Rightarrow> ls = [] | Star \<Rightarrow> length ls = 1 | Dot \<Rightarrow> ls \<noteq> [])}"
  have here: "?here = (if ls = [] then set_option (t ?p Exact)
     else (if length ls = 1 then set_option (t ?p Star) else {}) \<union> set_option (t ?p Dot))"
    by (auto simp: ex_match_kind)
  have "is_min_of ?best (S \<union> ?here)"
    unfolding here using Cons.prems is_min_of_fold [of best S] is_min_of_fold
    by (auto simp flip: Un_assoc)
  from Cons.IH [OF this, of ?p] show ?case by (simp add: below_Cons Un_assoc Let_def)
qed simp

text \<open>The invariant of the walk for the most specific pattern: the best of those read so far.\<close>

definition cands :: "'v table \<Rightarrow> nat \<Rightarrow> string list \<Rightarrow> (string list \<times> match_kind) set" where
  "cands t n q = {(p, k). covers p k q \<and> length p \<le> n \<and> t p k \<noteq> None}"

definition best_upto :: "'v option \<Rightarrow> 'v table \<Rightarrow> nat \<Rightarrow> string list \<Rightarrow> bool" where
  "best_upto r t n q \<longleftrightarrow>
     (case r of
        None \<Rightarrow> cands t n q = {}
      | Some v \<Rightarrow> \<exists>c \<in> cands t n q. t (fst c) (snd c) = Some v \<and>
          (\<forall>c' \<in> cands t n q. at_least_as_specific c c'))"

lemma covers_prefix: "covers p k q \<Longrightarrow> prefix p q"
  by (cases k) (auto simp: strict_prefix_def)

lemma covers_length: "covers p k q \<Longrightarrow> length p \<le> length q \<and> (length p < length q \<longrightarrow> k \<noteq> Exact)"
  by (cases k) (auto simp: strict_prefix_def dest: prefix_length_le)

lemma covers_at:
  "covers (p @ [l]) k (p @ l # ls) \<longleftrightarrow>
     (case k of Exact \<Rightarrow> ls = [] | Star \<Rightarrow> length ls = 1 | Dot \<Rightarrow> ls \<noteq> [])"
  by (cases k) (auto simp: strict_prefix_def prefix_def)

lemma covers_new:
  assumes "covers p' k (p @ l # ls)" and "length p' \<le> length p + 1"
  shows "length p' \<le> length p \<and> k \<noteq> Exact \<or> p' = p @ [l]"
proof (cases "length p' = length p + 1")
  case True
  have "prefix p' (p @ l # ls)" and "prefix (p @ [l]) (p @ l # ls)"
    using covers_prefix [OF assms(1)] by simp_all
  then show ?thesis using True by (metis length_append_singleton Suc_eq_plus1 prefix_length_prefix
      le_refl prefix_order.antisym)
next
  case False
  then show ?thesis using assms covers_length [OF assms(1)] by auto
qed

lemma best_upto_keep:
  assumes "best_upto r t (length p) (p @ l # ls)"
    and "\<And>k. covers (p @ [l]) k (p @ l # ls) \<Longrightarrow> t (p @ [l]) k = None"
  shows "best_upto r t (length p + 1) (p @ l # ls)"
proof -
  have "length p' \<le> length p" if "covers p' k (p @ l # ls)" "length p' \<le> length p + 1" "t p' k \<noteq> None" for p' k
    using covers_new [OF that(1,2)] assms(2) that by auto
  then have "cands t (length p + 1) (p @ l # ls) = cands t (length p) (p @ l # ls)"
    unfolding cands_def by fastforce
  with assms(1) show ?thesis by (cases r) (simp_all add: best_upto_def)
qed

lemma best_upto_take:
  assumes "covers (p @ [l]) k (p @ l # ls)" and "t (p @ [l]) k = Some v"
    and "\<And>k'. covers (p @ [l]) k' (p @ l # ls) \<Longrightarrow> t (p @ [l]) k' \<noteq> None \<Longrightarrow>
           at_least_as_specific (p @ [l], k) (p @ [l], k')"
  shows "best_upto (Some v) t (length p + 1) (p @ l # ls)"
proof -
  have "at_least_as_specific (p @ [l], k) (p', k')"
    if "covers p' k' (p @ l # ls)" "length p' \<le> length p + 1" "t p' k' \<noteq> None" for p' k'
    using covers_new [OF that(1,2)] assms(3) that by (auto simp: at_least_as_specific_def)
  with assms(1,2) show ?thesis unfolding best_upto_def cands_def
    by (auto intro!: exI [of _ "p @ [l]"] exI [of _ k])
qed

lemma table_best_step:
  assumes "best_upto best t (length p) (p @ l # ls)"
  shows "best_upto (if ls = [] then or_else (t (p @ [l]) Exact) best
         else if length ls = 1 then or_else (t (p @ [l]) Star) (or_else (t (p @ [l]) Dot) best)
         else or_else (t (p @ [l]) Dot) best) t (length p + 1) (p @ l # ls)"
proof -
  have keep: "best_upto best t (length p + 1) (p @ l # ls)"
    if "ls = [] \<Longrightarrow> t (p @ [l]) Exact = None" "length ls = 1 \<Longrightarrow> t (p @ [l]) Star = None"
      "ls \<noteq> [] \<Longrightarrow> t (p @ [l]) Dot = None"
    by (rule best_upto_keep [OF assms]) (use that in \<open>auto simp: covers_at split: match_kind.splits\<close>)
  note new = best_upto_take [of p l _ ls t, unfolded covers_at]
  have dot: "best_upto (Some v) t (length p + 1) (p @ l # ls)"
    if "ls \<noteq> []" "t (p @ [l]) Dot = Some v" "length ls = 1 \<Longrightarrow> t (p @ [l]) Star = None" for v
    by (rule best_upto_take [of p l Dot])
      (use that in \<open>auto simp: covers_at at_least_as_specific_def simp del: covers.simps
            split: match_kind.splits\<close>)
  consider (leaf) "ls = []" | (one) "ls \<noteq> []" "length ls = 1" | (more) "ls \<noteq> []" "length ls \<noteq> 1"
    by blast
  then show ?thesis
  proof cases
    case leaf
    then show ?thesis using keep new [of Exact]
      by (cases "t (p @ [l]) Exact") (auto simp: at_least_as_specific_def split: match_kind.splits)
  next
    case one
    then show ?thesis using keep new [of Star] dot
      by (cases "t (p @ [l]) Star"; cases "t (p @ [l]) Dot")
        (auto simp: at_least_as_specific_def split: match_kind.splits)
  next
    case more
    then show ?thesis using keep dot
      by (cases "t (p @ [l]) Dot") (auto simp: at_least_as_specific_def split: match_kind.splits)
  qed
qed

lemma table_best_upto:
  "best_upto best t (length p) (p @ ls) \<Longrightarrow> best_upto (table_best t p ls best) t (length (p @ ls)) (p @ ls)"
proof (induction ls arbitrary: p best)
  case (Cons l ls)
  from Cons.IH [of _ "p @ [l]"] table_best_step [OF Cons.prems] show ?case by (simp add: Let_def)
qed simp

lemma cands_all: "cands t (length q) q = {(p, k). covers p k q \<and> t p k \<noteq> None}"
  using covers_length by (auto simp: cands_def)

lemma best_upto_Nil [simp]: "best_upto None t 0 q"
  by (auto simp: best_upto_def cands_def)

lemma best_upto_all: "best_upto r t (length q) q \<Longrightarrow> is_best_of r t q"
  unfolding best_upto_def is_best_of_def cands_all hits_def by (cases r) auto

lemma table_best_correct: "is_best_of (table_best t [] q None) t q"
  using table_best_upto [of None t "[]" q] by (simp add: best_upto_all)

lemma table_min_none: "\<forall>r k. r \<noteq> [] \<longrightarrow> t (p @ r) k = None \<Longrightarrow> table_min le t p ls best = best"
proof (induction ls arbitrary: p)
  case (Cons l ls)
  have "\<forall>r k. r \<noteq> [] \<longrightarrow> t ((p @ [l]) @ r) k = None" and "t (p @ [l]) k = None" for k
    using Cons.prems by simp_all
  with Cons.IH [of "p @ [l]"] show ?case by (simp add: Let_def)
qed simp

lemma table_best_none: "\<forall>r k. r \<noteq> [] \<longrightarrow> t (p @ r) k = None \<Longrightarrow> table_best t p ls best = best"
proof (induction ls arbitrary: p)
  case (Cons l ls)
  have "\<forall>r k. r \<noteq> [] \<longrightarrow> t ((p @ [l]) @ r) k = None" and "t (p @ [l]) k = None" for k
    using Cons.prems by simp_all
  with Cons.IH [of "p @ [l]"] show ?case by (simp add: Let_def)
qed simp

lemma table_miss:
  assumes "\<And>r k. t (p @ l # r) k = None"
  shows "table_min le t p (l # ls) best = best" and "table_best t p (l # ls) best = best"
  using assms [of "[]"] assms table_min_none [of t "p @ [l]" le ls best] table_best_none [of t "p @ [l]" ls best]
  by (simp_all add: Let_def)

subsection \<open>The interface a representation provides\<close>

text \<open>
  \<open>located s n p\<close>: node \<open>n\<close> of the trie state \<open>s\<close> is the one reached by path \<open>p\<close>. The lookup of
  a label neither panics nor misses a stored path; the slots of a located node are the table's.
  \<open>norm\<close> is what the lookup does to a query label before comparing it.
\<close>

locale label_tree =
  fixes valid :: "'s \<Rightarrow> bool"
    and root :: 'n
    and down :: "'s \<Rightarrow> 'n \<Rightarrow> string \<Rightarrow> 'n option panics"
    and slot :: "'s \<Rightarrow> 'n \<Rightarrow> match_kind \<Rightarrow> 'v option panics"
    and located :: "'s \<Rightarrow> 'n \<Rightarrow> string list \<Rightarrow> bool"
    and table :: "'s \<Rightarrow> 'v table"
    and norm :: "string \<Rightarrow> string"
  assumes root_located: "valid s \<Longrightarrow> located s root []"
    and down_hit: "valid s \<Longrightarrow> located s n p \<Longrightarrow> CHR ''.'' \<notin> set l \<Longrightarrow>
      (\<exists>c. down s n l = Some (Some c) \<and> located s c (p @ [norm l])) \<or>
      (down s n l = Some None \<and> (\<forall>r k. table s (p @ norm l # r) k = None))"
    and slot_located: "valid s \<Longrightarrow> located s n p \<Longrightarrow> slot s n k = Some (table s p k)"
begin

lemma search_min_loop_table:
  assumes "valid s" and "located s n p" and "\<forall>l \<in> set ls. CHR ''.'' \<notin> set l" and "N = d + length ls"
  shows "search_min_loop le (down s) (slot s) N d n ls best = Some (table_min le (table s) p (map norm ls) best)"
  using assms(2-4)
proof (induction ls arbitrary: n p d best)
  case (Cons l ls)
  consider (hit) c where "down s n l = Some (Some c)" "located s c (p @ [norm l])"
    | (miss) "down s n l = Some None" "\<And>r k. table s (p @ norm l # r) k = None"
    using down_hit [OF assms(1) Cons.prems(1)] Cons.prems(2) by fastforce
  then show ?case
  proof cases
    case hit
    note sl = slot_located [OF assms(1) hit(2)]
    have IH: "search_min_loop le (down s) (slot s) N (d + 1) c ls b =
        Some (table_min le (table s) (p @ [norm l]) (map norm ls) b)" for b
      using Cons.IH [OF hit(2)] Cons.prems by simp
    show ?thesis using Cons.prems(3) hit(1) sl IH by (auto simp: Let_def)
  next
    case miss
    then show ?thesis using table_miss(1) [of "table s" p "norm l"] by (simp del: table_min.simps)
  qed
qed simp

lemma search_best_loop_table:
  assumes "valid s" and "located s n p" and "\<forall>l \<in> set ls. CHR ''.'' \<notin> set l" and "N = d + length ls"
  shows "search_best_loop (down s) (slot s) N d n ls best = Some (table_best (table s) p (map norm ls) best)"
  using assms(2-4)
proof (induction ls arbitrary: n p d best)
  case (Cons l ls)
  consider (hit) c where "down s n l = Some (Some c)" "located s c (p @ [norm l])"
    | (miss) "down s n l = Some None" "\<And>r k. table s (p @ norm l # r) k = None"
    using down_hit [OF assms(1) Cons.prems(1)] Cons.prems(2) by fastforce
  then show ?case
  proof cases
    case hit
    note sl = slot_located [OF assms(1) hit(2)]
    have IH: "search_best_loop (down s) (slot s) N (d + 1) c ls b =
        Some (table_best (table s) (p @ [norm l]) (map norm ls) b)" for b
      using Cons.IH [OF hit(2)] Cons.prems by simp
    show ?thesis using Cons.prems(3) hit(1) sl IH by (auto simp: Let_def or_else_def split: option.splits)
  next
    case miss
    then show ?thesis using table_miss(2) [of "table s" p "norm l"] by (simp del: table_best.simps)
  qed
qed simp

end

end
