(* ===== verification/Trie_Builder.thy ===== *)
theory Trie_Builder
  imports Trie_Search "HOL-Library.AList"
begin

section \<open>Domain trie: the build phase\<close>

text \<open>
  \<^verbatim>\<open>Builder\<close> of \<^verbatim>\<open>meow-trie/src/trie.rs\<close>: a vector of nodes, one hash map of edges
  \<open>(parent, label id) \<mapsto> child\<close> and one label interner. Hash maps are association lists with
  distinct keys (\<^verbatim>\<open>insert\<close> is \<^const>\<open>AList.update\<close>). Node and label numbers are
  \<^verbatim>\<open>u32\<close>: the conversions that panic on overflow return \<^const>\<open>None\<close>. The invariant
  \<open>wf_builder\<close> makes every node reachable by at most one label path, so that the vector stands
  for a table \<open>path \<times> kind \<rightharpoonup> value\<close>.
\<close>

datatype insert_mode = FirstWins | Overwrite

record 'v build_node =
  bn_label :: nat
  bn_exact :: "'v option"
  bn_star :: "'v option"
  bn_dot :: "'v option"

record 'v builder =
  nodes :: "'v build_node list"
  edges :: "((nat \<times> nat) \<times> nat) list"
  labels :: "(string \<times> nat) list"

definition u32_try :: "nat \<Rightarrow> nat panics" where
  "u32_try n = (if n < 2 ^ 32 then Some n else None)"

definition builder_new :: "'v builder" where
  "builder_new = \<lparr>nodes = [], edges = [], labels = []\<rparr>"

definition empty_node :: "nat \<Rightarrow> 'v build_node" where
  "empty_node l = \<lparr>bn_label = l, bn_exact = None, bn_star = None, bn_dot = None\<rparr>"

definition ensure_root :: "'v builder \<Rightarrow> 'v builder" where
  "ensure_root b =
     (if nodes b = []
      then b\<lparr>labels := AList.update [] 0 (labels b), nodes := nodes b @ [empty_node 0]\<rparr>
      else b)"

definition intern_label :: "'v builder \<Rightarrow> string \<Rightarrow> (nat \<times> 'v builder) panics" where
  "intern_label b label =
     (case map_of (labels b) label of
        Some i \<Rightarrow> Some (i, b)
      | None \<Rightarrow>
          Option.bind (u32_try (length (labels b))) (\<lambda>i.
            Some (i, b\<lparr>labels := AList.update label i (labels b)\<rparr>)))"

definition child_or_insert :: "'v builder \<Rightarrow> nat \<Rightarrow> string \<Rightarrow> (nat \<times> 'v builder) panics" where
  "child_or_insert b parent label =
     Option.bind (intern_label b label) (\<lambda>(i, b1).
       case map_of (edges b1) (parent, i) of
         Some c \<Rightarrow> Some (c, b1)
       | None \<Rightarrow>
           Option.bind (u32_try (length (nodes b1))) (\<lambda>new.
             Some (new, b1\<lparr>edges := AList.update (parent, i) new (edges b1),
                           nodes := nodes b1 @ [empty_node i]\<rparr>)))"

definition child :: "'v builder \<Rightarrow> nat \<Rightarrow> string \<Rightarrow> nat option" where
  "child b parent label =
     Option.bind (map_of (labels b) label) (\<lambda>i. map_of (edges b) (parent, i))"

text \<open>Stored labels are lower-case, so the case-insensitive lookup lowers the query label.\<close>

definition child_ci :: "'v builder \<Rightarrow> nat \<Rightarrow> string \<Rightarrow> nat option" where
  "child_ci b parent label =
     (if \<not> list_ex is_ascii_uppercase label then child b parent label
      else child b parent (to_ascii_lowercase label))"

fun get_slot :: "match_kind \<Rightarrow> 'v build_node \<Rightarrow> 'v option" where
  "get_slot Exact n = bn_exact n"
| "get_slot Star n = bn_star n"
| "get_slot Dot n = bn_dot n"

fun set_slot :: "match_kind \<Rightarrow> 'v option \<Rightarrow> 'v build_node \<Rightarrow> 'v build_node" where
  "set_slot Exact v n = n\<lparr>bn_exact := v\<rparr>"
| "set_slot Star v n = n\<lparr>bn_star := v\<rparr>"
| "set_slot Dot v n = n\<lparr>bn_dot := v\<rparr>"

fun write_slot :: "insert_mode \<Rightarrow> 'v \<Rightarrow> 'v option \<Rightarrow> 'v option" where
  "write_slot FirstWins v old = (case old of None \<Rightarrow> Some v | Some w \<Rightarrow> Some w)"
| "write_slot Overwrite v old = Some v"

text \<open>\<^verbatim>\<open>for label in base.rsplit('.')\<close>: walk from a node, creating what is missing.\<close>

fun insert_walk :: "'v builder \<Rightarrow> nat \<Rightarrow> string list \<Rightarrow> (nat \<times> 'v builder) panics" where
  "insert_walk b n [] = Some (n, b)"
| "insert_walk b n (l # ls) =
     Option.bind (child_or_insert b n l) (\<lambda>(c, b1). insert_walk b1 c ls)"

definition builder_insert ::
  "'v builder \<Rightarrow> string \<Rightarrow> 'v \<Rightarrow> match_kind \<Rightarrow> insert_mode \<Rightarrow> 'v builder panics" where
  "builder_insert b base v k mode =
     Option.bind (insert_walk (ensure_root b) 0 (rsplit_on CHR ''.'' base)) (\<lambda>(n, b1).
       if n < length (nodes b1)
       then Some (b1\<lparr>nodes := (nodes b1)[n := set_slot k (write_slot mode v (get_slot k (nodes b1 ! n)))
                                              (nodes b1 ! n)]\<rparr>)
       else None)"

text \<open>\<^verbatim>\<open>&b.nodes[node]\<close>, then the slot.\<close>

definition builder_slot :: "'v builder \<Rightarrow> nat \<Rightarrow> match_kind \<Rightarrow> 'v option panics" where
  "builder_slot b n k = (if n < length (nodes b) then Some (get_slot k (nodes b ! n)) else None)"

subsection \<open>The table a builder stands for\<close>

fun walk :: "'v builder \<Rightarrow> nat \<Rightarrow> string list \<Rightarrow> nat option" where
  "walk b n [] = Some n"
| "walk b n (l # ls) = Option.bind (child b n l) (\<lambda>c. walk b c ls)"

definition slots :: "'v builder \<Rightarrow> string list \<Rightarrow> match_kind \<Rightarrow> 'v option" where
  "slots b path k =
     (if nodes b = [] then None
      else Option.bind (walk b 0 path) (\<lambda>n. get_slot k (nodes b ! n)))"

definition wf_builder :: "'v builder \<Rightarrow> bool" where
  "wf_builder b \<longleftrightarrow>
     (nodes b = [] \<longrightarrow> labels b = []) \<and>
     (nodes b \<noteq> [] \<longrightarrow> labels b \<noteq> [] \<and> bn_label (nodes b ! 0) = 0) \<and>
     distinct (map fst (labels b)) \<and> map snd (labels b) = [0..<length (labels b)] \<and>
     (\<forall>l \<in> set (map fst (labels b)). CHR ''.'' \<notin> set l) \<and>
     distinct (map fst (edges b)) \<and> map snd (edges b) = [1..<length (nodes b)] \<and>
     (\<forall>((p, l), c) \<in> set (edges b). p < c \<and> l < length (labels b) \<and> bn_label (nodes b ! c) = l)"

subsection \<open>Association lists with vacant keys\<close>

lemma update_vacant: "map_of xs k = None \<Longrightarrow> AList.update k v xs = xs @ [(k, v)]"
  by (induction xs) (auto split: if_splits)

lemma snd_distinct_map_of:
  "distinct (map snd xs) \<Longrightarrow> map_of xs a = Some c \<Longrightarrow> map_of xs b = Some c \<Longrightarrow> a = b"
  by (metis distinct_map inj_onD map_of_SomeD prod.inject snd_conv)

lemma map_of_append_vacant:
  "map_of xs k = None \<Longrightarrow> map_of (xs @ [(k, v)]) x = (if x = k then Some v else map_of xs x)"
  by (auto simp: map_add_def split: option.splits)

subsection \<open>Facts on well-formed builders\<close>

lemma wf_builder_new [simp]: "wf_builder builder_new"
  by (simp add: wf_builder_def builder_new_def)

lemma map_of_upt_less: "map snd xs = [a..<n] \<Longrightarrow> map_of xs k = Some i \<Longrightarrow> a \<le> i \<and> i < n"
proof -
  assume "map snd xs = [a..<n]" and "map_of xs k = Some i"
  then have "(k, i) \<in> set xs" and "set (map snd xs) = {a..<n}" by (simp_all only: map_of_SomeD set_upt)
  then have "i \<in> {a..<n}" by (metis image_eqI set_map snd_conv)
  then show ?thesis by simp
qed

lemma wf_builderD:
  assumes "wf_builder b"
  shows "distinct (map fst (labels b))" and "map snd (labels b) = [0..<length (labels b)]"
    and "distinct (map fst (edges b))" and "map snd (edges b) = [1..<length (nodes b)]"
    and "((p, l), c) \<in> set (edges b) \<Longrightarrow> p < c \<and> l < length (labels b) \<and> bn_label (nodes b ! c) = l"
    and "nodes b \<noteq> [] \<Longrightarrow> labels b \<noteq> [] \<and> bn_label (nodes b ! 0) = 0"
    and "(l', i) \<in> set (labels b) \<Longrightarrow> CHR ''.'' \<notin> set l'"
proof -
  show "((p, l), c) \<in> set (edges b) \<Longrightarrow> p < c \<and> l < length (labels b) \<and> bn_label (nodes b ! c) = l"
  proof -
    have "\<forall>((p, l), c) \<in> set (edges b). p < c \<and> l < length (labels b) \<and> bn_label (nodes b ! c) = l"
      using assms unfolding wf_builder_def by (elim conjE)
    then show "((p, l), c) \<in> set (edges b) \<Longrightarrow> p < c \<and> l < length (labels b) \<and> bn_label (nodes b ! c) = l"
      by auto
  qed
  show "(l', i) \<in> set (labels b) \<Longrightarrow> CHR ''.'' \<notin> set l'"
  proof -
    have "\<forall>l \<in> set (map fst (labels b)). CHR ''.'' \<notin> set l"
      using assms unfolding wf_builder_def by (elim conjE)
    then show "(l', i) \<in> set (labels b) \<Longrightarrow> CHR ''.'' \<notin> set l'" by force
  qed
qed (use assms in \<open>simp_all add: wf_builder_def\<close>)

lemma wf_labels_less: "wf_builder b \<Longrightarrow> map_of (labels b) l = Some i \<Longrightarrow> i < length (labels b)"
  using map_of_upt_less [OF wf_builderD(2)] by simp

lemma wf_child:
  assumes "wf_builder b" and "child b p l = Some c"
  shows "p < c" and "c < length (nodes b)"
proof -
  from assms(2) obtain i where e: "map_of (edges b) (p, i) = Some c"
    by (auto simp: child_def bind_eq_Some_conv)
  then show "p < c" using wf_builderD(5) [OF assms(1)] map_of_SomeD by fastforce
  show "c < length (nodes b)" using map_of_upt_less [OF wf_builderD(4) [OF assms(1)] e] by simp
qed

lemma wf_child_inject:
  assumes "wf_builder b" and "child b p l = Some c" and "child b q m = Some c"
  shows "p = q \<and> l = m"
proof -
  from assms(2,3) obtain i j where ij: "map_of (labels b) l = Some i" "map_of (edges b) (p, i) = Some c"
    "map_of (labels b) m = Some j" "map_of (edges b) (q, j) = Some c"
    by (auto simp: child_def bind_eq_Some_conv)
  have "distinct (map snd (edges b))" "distinct (map snd (labels b))"
    using assms(1) by (simp_all add: wf_builder_def)
  then show ?thesis
    using ij snd_distinct_map_of [of "edges b" "(p, i)" c "(q, j)"]
      snd_distinct_map_of [of "labels b" l i m] by auto
qed

lemma walk_append: "walk b n (p @ q) = Option.bind (walk b n p) (\<lambda>m. walk b m q)"
  by (induction p arbitrary: n) (auto split: bind_splits)

lemma walk_le: "wf_builder b \<Longrightarrow> walk b n p = Some m \<Longrightarrow> n \<le> m"
  by (induction p arbitrary: n) (fastforce simp: bind_eq_Some_conv dest: wf_child(1))+

lemma walk_less:
  "wf_builder b \<Longrightarrow> n < length (nodes b) \<Longrightarrow> walk b n p = Some m \<Longrightarrow> m < length (nodes b)"
  by (induction p arbitrary: n) (auto simp: bind_eq_Some_conv dest: wf_child(2))

lemma walk_inject:
  assumes "wf_builder b" and "walk b 0 p = Some n" and "walk b 0 q = Some n"
  shows "p = q"
  using assms(2,3)
proof (induction p arbitrary: q n rule: rev_induct)
  case Nil
  then show ?case
  proof (cases q rule: rev_cases)
    case (snoc q' l)
    with Nil show ?thesis
      by (auto simp: walk_append bind_eq_Some_conv dest: wf_child(1) [OF assms(1)])
  qed simp
next
  case (snoc l p)
  then obtain m where m: "walk b 0 p = Some m" "child b m l = Some n"
    by (auto simp: walk_append bind_eq_Some_conv)
  then have "0 < n" using wf_child(1) [OF assms(1)] by fastforce
  then obtain q' l' where q: "q = q' @ [l']"
    using snoc.prems(2) by (cases q rule: rev_cases) auto
  then obtain m' where m': "walk b 0 q' = Some m'" "child b m' l' = Some n"
    using snoc.prems(2) by (auto simp: walk_append bind_eq_Some_conv)
  have "m = m' \<and> l = l'" using wf_child_inject [OF assms(1) m(2) m'(2)] by simp
  then show ?case using snoc.IH [OF m(1)] m'(1) q by simp
qed

subsection \<open>Growing a builder keeps the table\<close>

definition extends :: "'v builder \<Rightarrow> 'v builder \<Rightarrow> bool" where
  "extends b b' \<longleftrightarrow>
     wf_builder b' \<and>
     (\<exists>new. nodes b' = nodes b @ new \<and> (\<forall>x \<in> set new. \<forall>k. get_slot k x = None)) \<and>
     (\<forall>n l c. child b n l = Some c \<longrightarrow> child b' n l = Some c) \<and>
     (\<forall>n l c. child b' n l = Some c \<longrightarrow> child b n l = Some c \<or> length (nodes b) \<le> c)"

lemma get_slot_empty_node [simp]: "get_slot k (empty_node i) = None"
  by (cases k) (simp_all add: empty_node_def)

lemma extends_refl: "wf_builder b \<Longrightarrow> extends b b"
  by (simp add: extends_def)

lemma extends_trans:
  assumes "extends a b" and "extends b c"
  shows "extends a c"
proof -
  from assms obtain n1 n2 where n: "nodes b = nodes a @ n1" "nodes c = nodes b @ n2"
    "\<forall>x \<in> set n1. \<forall>k. get_slot k x = None" "\<forall>x \<in> set n2. \<forall>k. get_slot k x = None"
    unfolding extends_def by blast
  then have "\<exists>new. nodes c = nodes a @ new \<and> (\<forall>x \<in> set new. \<forall>k. get_slot k x = None)"
    by (intro exI [of _ "n1 @ n2"]) auto
  moreover have "child a n l = Some m \<or> length (nodes a) \<le> m" if "child c n l = Some m" for n l m
    using assms that n(1) unfolding extends_def by (metis le_trans length_append le_add1)
  ultimately show ?thesis using assms unfolding extends_def by blast
qed

lemma extends_walk: "extends b b' \<Longrightarrow> walk b n p = Some m \<Longrightarrow> walk b' n p = Some m"
  by (induction p arbitrary: n) (auto simp: bind_eq_Some_conv extends_def)

lemma extends_walk_new:
  assumes "extends b b'" and "walk b' n p = Some m" and "walk b n p = None"
  shows "length (nodes b) \<le> m"
  using assms(2,3)
proof (induction p arbitrary: n)
  case (Cons l p)
  then obtain c where c: "child b' n l = Some c" "walk b' c p = Some m"
    by (auto simp: bind_eq_Some_conv)
  have wf': "wf_builder b'" using assms(1) by (simp add: extends_def)
  show ?case
  proof (cases "child b n l = Some c")
    case True
    then show ?thesis using Cons c by simp
  next
    case False
    then have "length (nodes b) \<le> c" using assms(1) c(1) unfolding extends_def by blast
    then show ?thesis using walk_le [OF wf' c(2)] by simp
  qed
qed simp

lemma extends_slots:
  assumes "extends b b'" and "wf_builder b" and "nodes b \<noteq> []"
  shows "slots b' p k = slots b p k"
proof -
  from assms(1) obtain new where new: "nodes b' = nodes b @ new"
    "\<forall>x \<in> set new. \<forall>k. get_slot k x = None" and wf': "wf_builder b'"
    unfolding extends_def by blast
  show ?thesis
  proof (cases "walk b 0 p")
    case None
    have "get_slot k (nodes b' ! m) = None" if "walk b' 0 p = Some m" for m
    proof -
      have "length (nodes b) \<le> m" using extends_walk_new [OF assms(1) that None] .
      moreover have "m < length (nodes b')" using walk_less [OF wf' _ that] new(1) assms(3) by simp
      ultimately show ?thesis using new by (auto simp: nth_append)
    qed
    with None show ?thesis using new(1) assms(3)
      by (cases "walk b' 0 p") (auto simp: slots_def)
  next
    case (Some m)
    then have "m < length (nodes b)" using walk_less [OF assms(2) _ Some] assms(3) by simp
    with Some show ?thesis
      using extends_walk [OF assms(1) Some] new(1) assms(3) by (simp add: slots_def nth_append)
  qed
qed

lemma extends_nonempty: "extends b b' \<Longrightarrow> nodes b \<noteq> [] \<Longrightarrow> nodes b' \<noteq> []"
  by (auto simp: extends_def)

lemma wf_ensure_root: "wf_builder b \<Longrightarrow> wf_builder (ensure_root b)"
  by (cases "nodes b = []") (auto simp: wf_builder_def ensure_root_def empty_node_def)

lemma ensure_root_nonempty [simp]: "nodes (ensure_root b) \<noteq> []"
  by (simp add: ensure_root_def)

lemma ensure_root_slots:
  assumes "wf_builder b"
  shows "slots (ensure_root b) p k = slots b p k"
proof (cases "nodes b = []")
  case True
  with assms have "edges b = []" by (simp add: wf_builder_def)
  with True have "walk (ensure_root b) 0 p = (if p = [] then Some 0 else None)"
    by (cases p) (auto simp: ensure_root_def child_def split: bind_splits)
  with True show ?thesis by (simp add: slots_def) (simp add: ensure_root_def)
qed (simp add: ensure_root_def)

lemma wf_intern_label:
  assumes "wf_builder b" and "nodes b \<noteq> []" and "CHR ''.'' \<notin> set l"
    and "intern_label b l = Some (i, b1)"
  shows "wf_builder b1" and "map_of (labels b1) l = Some i"
    and "nodes b1 = nodes b" and "edges b1 = edges b"
    and "map_of (labels b) m = Some j \<Longrightarrow> map_of (labels b1) m = Some j"
    and "map_of (labels b1) m = Some j \<Longrightarrow> map_of (labels b) m = Some j \<or> m = l \<and> j = length (labels b)"
proof -
  have "wf_builder b1 \<and> map_of (labels b1) l = Some i \<and> nodes b1 = nodes b \<and> edges b1 = edges b \<and>
    (map_of (labels b) m = Some j \<longrightarrow> map_of (labels b1) m = Some j) \<and>
    (map_of (labels b1) m = Some j \<longrightarrow> map_of (labels b) m = Some j \<or> m = l \<and> j = length (labels b))"
  proof (cases "map_of (labels b) l")
    case None
    then have b1: "b1 = b\<lparr>labels := labels b @ [(l, length (labels b))]\<rparr>" "i = length (labels b)"
      using assms(4) by (auto simp: intern_label_def u32_try_def update_vacant split: if_splits)
    have "l \<notin> fst ` set (labels b)" using None by (simp add: map_of_eq_None_iff)
    then have "wf_builder b1"
      using assms(1-3) wf_builderD(5) [OF assms(1)] unfolding wf_builder_def b1
      by (auto simp: less_Suc_eq)
    then show ?thesis using None b1 by (simp add: map_of_append_vacant del: map_of_append)
  qed (use assms in \<open>auto simp: intern_label_def\<close>)
  then show "wf_builder b1" and "map_of (labels b1) l = Some i"
    and "nodes b1 = nodes b" and "edges b1 = edges b"
    and "map_of (labels b) m = Some j \<Longrightarrow> map_of (labels b1) m = Some j"
    and "map_of (labels b1) m = Some j \<Longrightarrow> map_of (labels b) m = Some j \<or> m = l \<and> j = length (labels b)"
    by simp_all
qed

lemma wf_add_child:
  assumes "wf_builder b" and "p < length (nodes b)" and "map_of (edges b) (p, i) = None"
    and "i < length (labels b)"
  shows "wf_builder (b\<lparr>edges := edges b @ [((p, i), length (nodes b))],
                       nodes := nodes b @ [empty_node i]\<rparr>)"
proof -
  have "(p, i) \<notin> fst ` set (edges b)" using assms(3) by (simp add: map_of_eq_None_iff)
  moreover have "c < length (nodes b)" if "(q, c) \<in> set (edges b)" for q c
    using wf_builderD(4) [OF assms(1)] that
    by (metis atLeastLessThan_iff image_eqI set_map set_upt snd_conv)
  moreover have "[1..<Suc (length (nodes b))] = [1..<length (nodes b)] @ [length (nodes b)]"
    using assms(2) by (simp add: Suc_leI)
  ultimately show ?thesis
    using assms(1,2,4) wf_builderD(5) [OF assms(1)] unfolding wf_builder_def
    by (auto simp: nth_append empty_node_def split_beta)
qed

lemma child_or_insert_extends:
  assumes wf: "wf_builder b" and p: "p < length (nodes b)" and dotfree: "CHR ''.'' \<notin> set l"
    and run: "child_or_insert b p l = Some (c, b')"
  shows "extends b b'" and "child b' p l = Some c"
proof -
  from p have ne: "nodes b \<noteq> []" by auto
  from run obtain i b1 where i: "intern_label b l = Some (i, b1)"
    by (auto simp: child_or_insert_def bind_eq_Some_conv)
  note I = wf_intern_label [OF wf ne dotfree i]
  have old: "child b n m = Some d \<Longrightarrow> child b1 n m = Some d" for n m d
    using I(4,5) by (auto simp: child_def bind_eq_Some_conv)
  have before: "child b n m = Some d" if "child b1 n m = Some d" for n m d
  proof -
    from that obtain j where j: "map_of (labels b1) m = Some j" "map_of (edges b) (n, j) = Some d"
      using I(4) by (auto simp: child_def bind_eq_Some_conv)
    have "j < length (labels b)" using wf_builderD(5) [OF wf] map_of_SomeD [OF j(2)] by blast
    with I(6) [OF j(1)] j show ?thesis by (auto simp: child_def)
  qed
  have "extends b b' \<and> child b' p l = Some c"
  proof (cases "map_of (edges b) (p, i)")
    case None
    then have b': "c = length (nodes b)"
      "b' = b1\<lparr>edges := edges b1 @ [((p, i), length (nodes b1))], nodes := nodes b1 @ [empty_node i]\<rparr>"
      using run i I(3,4) by (auto simp: child_or_insert_def u32_try_def update_vacant split: if_splits)
    have iL: "i < length (labels b1)" using wf_labels_less [OF I(1,2)] .
    have wf': "wf_builder b'"
      unfolding b' by (rule wf_add_child [OF I(1)]) (use p I(3,4) None iL in auto)
    have ch: "child b' n m = (if n = p \<and> map_of (labels b1) m = Some i then Some c else child b1 n m)" for n m
      using None I(3,4) unfolding b'
      by (auto simp: child_def map_of_append_vacant simp del: map_of_append split: bind_splits)
    have kept: "child b' n m = Some d" if "child b n m = Some d" for n m d
      using None old [OF that] I(4) unfolding ch by (auto simp: child_def)
    have fresh: "child b n m = Some d \<or> length (nodes b) \<le> d" if "child b' n m = Some d" for n m d
      using that before [of n m d] b'(1) unfolding ch by (auto split: if_splits)
    have "nodes b' = nodes b @ [empty_node i]" using b'(2) I(3) by simp
    then have "extends b b'" unfolding extends_def using wf' kept fresh by simp
    then show ?thesis using ch I(2) by simp
  next
    case (Some d)
    then have eq: "b' = b1" "d = c" using run i I(4) by (auto simp: child_or_insert_def)
    have "child b1 n m = child b n m" for n m
      using old [of n m] before [of n m] by (metis option.exhaust)
    then have "extends b b1" unfolding extends_def using I(1) by (simp add: I(3))
    moreover have "child b1 p l = Some c" using Some I(2,4) eq(2) by (simp add: child_def)
    ultimately show ?thesis using eq(1) by simp
  qed
  then show "extends b b'" and "child b' p l = Some c" by simp_all
qed

lemma insert_walk_extends:
  assumes "wf_builder b" and "n < length (nodes b)" and "\<forall>l \<in> set ls. CHR ''.'' \<notin> set l"
    and "insert_walk b n ls = Some (m, b')"
  shows "extends b b' \<and> walk b' n ls = Some m"
  using assms
proof (induction ls arbitrary: b n)
  case Nil
  then show ?case by (simp add: extends_refl)
next
  case (Cons l ls)
  from Cons.prems(4) obtain c b1 where c: "child_or_insert b n l = Some (c, b1)"
    "insert_walk b1 c ls = Some (m, b')" by (auto simp: bind_eq_Some_conv)
  have e: "extends b b1" "child b1 n l = Some c"
    using child_or_insert_extends [OF Cons.prems(1,2) _ c(1)] Cons.prems(3) by auto
  then have wf1: "wf_builder b1" by (simp add: extends_def)
  have "extends b1 b' \<and> walk b' c ls = Some m"
    using Cons.IH [OF wf1 wf_child(2) [OF wf1 e(2)] _ c(2)] Cons.prems(3) by simp
  moreover have "child b' n l = Some c" using calculation e(2) by (simp add: extends_def)
  ultimately show ?case using extends_trans [OF e(1)] by simp
qed

lemma split_on_no_sep: "l \<in> set (split_on c s) \<Longrightarrow> c \<notin> set l"
  by (induction s arbitrary: l) (auto split: if_splits list.splits)

lemma split_on_ne [simp]: "split_on c s \<noteq> []"
  by (cases s) (auto split: list.splits)

lemma rsplit_on_no_sep: "l \<in> set (rsplit_on c s) \<Longrightarrow> c \<notin> set l"
  by (simp add: rsplit_on_def split_on_no_sep)

lemma rsplit_on_ne [simp]: "rsplit_on c s \<noteq> []"
  by (simp add: rsplit_on_def)

subsection \<open>Writing a slot\<close>

lemma get_set_slot [simp]: "get_slot k (set_slot k' v n) = (if k = k' then v else get_slot k n)"
  by (cases k; cases k') simp_all

lemma bn_label_set_slot [simp]: "bn_label (set_slot k v n) = bn_label n"
  by (cases k) simp_all

lemma child_nodes_update [simp]: "child (b\<lparr>nodes := ns\<rparr>) = child b"
  by (simp add: child_def fun_eq_iff)

lemma walk_nodes_update [simp]: "walk (b\<lparr>nodes := ns\<rparr>) n p = walk b n p"
  by (induction p arbitrary: n) simp_all

lemma wf_set_slot:
  assumes "wf_builder b"
  shows "wf_builder (b\<lparr>nodes := (nodes b)[n := set_slot k v (nodes b ! n)]\<rparr>)"
proof -
  have "bn_label ((nodes b)[n := set_slot k v (nodes b ! n)] ! m) = bn_label (nodes b ! m)" for m
    by (cases "m = n"; cases "n < length (nodes b)") (simp_all add: list_update_beyond)
  with assms show ?thesis by (simp add: wf_builder_def)
qed

lemma slots_set_slot:
  assumes "wf_builder b" and "nodes b \<noteq> []" and "walk b 0 p = Some n"
  shows "slots (b\<lparr>nodes := (nodes b)[n := set_slot k v (nodes b ! n)]\<rparr>) q k' =
    (if q = p \<and> k' = k then v else slots b q k')"
proof (cases "walk b 0 q")
  case (Some m)
  have "m < length (nodes b)" "n < length (nodes b)"
    using walk_less [OF assms(1) _ Some] walk_less [OF assms(1) _ assms(3)] assms(2) by auto
  moreover have "m = n \<longleftrightarrow> q = p"
    using walk_inject [OF assms(1) Some] assms(3) Some by (metis option.inject)
  ultimately show ?thesis using Some assms(2) by (auto simp: slots_def)
qed (use assms in \<open>auto simp: slots_def\<close>)

lemma slots_builder_insert:
  assumes "wf_builder b" and "builder_insert b base v k mode = Some b'"
  shows "wf_builder b'" and "nodes b' \<noteq> []"
    and "slots b' q k' =
      (if q = rsplit_on CHR ''.'' base \<and> k' = k then write_slot mode v (slots b q k') else slots b q k')"
proof -
  let ?p = "rsplit_on CHR ''.'' base"
  let ?r = "ensure_root b"
  from assms(2) obtain n b1 where n: "insert_walk ?r 0 ?p = Some (n, b1)" "n < length (nodes b1)"
    and b': "b' = b1\<lparr>nodes := (nodes b1)[n := set_slot k (write_slot mode v (get_slot k (nodes b1 ! n)))
               (nodes b1 ! n)]\<rparr>"
    by (auto simp: builder_insert_def bind_eq_Some_conv split: if_splits)
  have wfr: "wf_builder ?r" by (rule wf_ensure_root [OF assms(1)])
  have e: "extends ?r b1" "walk b1 0 ?p = Some n"
    using insert_walk_extends [OF wfr _ _ n(1)] rsplit_on_no_sep by auto
  then have wf1: "wf_builder b1" by (simp add: extends_def)
  have ne: "nodes b1 \<noteq> []" using n(2) by auto
  have same: "slots b1 q k = slots b q k" for q k
    using extends_slots [OF e(1) wfr] ensure_root_slots [OF assms(1)] by simp
  have here: "get_slot k (nodes b1 ! n) = slots b1 ?p k" using e(2) ne by (simp add: slots_def)
  show "wf_builder b'" unfolding b' by (rule wf_set_slot [OF wf1])
  show "nodes b' \<noteq> []" unfolding b' using ne by simp
  show "slots b' q k' = (if q = ?p \<and> k' = k then write_slot mode v (slots b q k') else slots b q k')"
    unfolding b' slots_set_slot [OF wf1 ne e(2)] here same by simp
qed

text \<open>The only panics of an insertion are the two number overflows.\<close>

lemma intern_label_total:
  assumes "length (labels b) < 2 ^ 32"
  shows "\<exists>i b1. intern_label b l = Some (i, b1) \<and> nodes b1 = nodes b \<and>
    length (labels b1) \<le> length (labels b) + 1"
  using assms
  by (cases "map_of (labels b) l") (auto simp: intern_label_def u32_try_def update_vacant)

lemma child_or_insert_total:
  assumes "length (labels b) < 2 ^ 32" and "length (nodes b) < 2 ^ 32"
  shows "\<exists>c b1. child_or_insert b p l = Some (c, b1) \<and> length (nodes b1) \<le> length (nodes b) + 1 \<and>
    length (labels b1) \<le> length (labels b) + 1"
proof -
  obtain i b1 where "intern_label b l = Some (i, b1)" "nodes b1 = nodes b"
    "length (labels b1) \<le> length (labels b) + 1"
    using intern_label_total [OF assms(1)] by blast
  then show ?thesis using assms(2)
    by (cases "map_of (edges b1) (p, i)") (auto simp: child_or_insert_def u32_try_def)
qed

lemma insert_walk_total:
  assumes "length (labels b) + length ls \<le> 2 ^ 32" and "length (nodes b) + length ls \<le> 2 ^ 32"
  shows "\<exists>m b'. insert_walk b n ls = Some (m, b')"
  using assms
proof (induction ls arbitrary: b n)
  case (Cons l ls)
  then obtain c b1 where "child_or_insert b n l = Some (c, b1)"
    "length (nodes b1) \<le> length (nodes b) + 1" "length (labels b1) \<le> length (labels b) + 1"
    using child_or_insert_total [of b n l] by auto
  with Cons.IH [of b1 c] Cons.prems show ?case by simp
qed simp

lemma builder_insert_total:
  assumes wf: "wf_builder b"
    and "length (labels b) + label_count base < 2 ^ 32" and "length (nodes b) + label_count base < 2 ^ 32"
  shows "\<exists>b'. builder_insert b base v k mode = Some b'"
proof -
  let ?p = "rsplit_on CHR ''.'' base"
  let ?r = "ensure_root b"
  have "length (labels ?r) \<le> length (labels b) + 1" "length (nodes ?r) \<le> length (nodes b) + 1"
    using wf by (auto simp: ensure_root_def wf_builder_def)
  then obtain n b1 where n: "insert_walk ?r 0 ?p = Some (n, b1)"
    using insert_walk_total [of ?r ?p 0] assms by (auto simp: label_count_rsplit)
  have wfr: "wf_builder ?r" by (rule wf_ensure_root [OF wf])
  have e: "extends ?r b1" "walk b1 0 ?p = Some n"
    using insert_walk_extends [OF wfr _ _ n] rsplit_on_no_sep by auto
  have "nodes b1 \<noteq> []" using extends_nonempty [OF e(1)] by simp
  then have "n < length (nodes b1)" using walk_less [OF _ _ e(2)] e(1) by (simp add: extends_def)
  with n show ?thesis by (simp add: builder_insert_def)
qed

subsection \<open>A builder is a label tree\<close>

definition valid_builder :: "'v builder \<Rightarrow> bool" where
  "valid_builder b \<longleftrightarrow> wf_builder b \<and> nodes b \<noteq> []"

lemma child_ci_lower: "child_ci b n l = child b n (to_ascii_lowercase l)"
proof (cases "list_ex is_ascii_uppercase l")
  case False
  then have "to_ascii_lowercase l = l"
    by (induction l) (auto simp: to_ascii_lowercase_def lower_byte_def)
  with False show ?thesis by (simp add: child_ci_def)
qed (simp add: child_ci_def)

lemma slots_no_child:
  assumes "walk b 0 p = Some n" and "child b n l = None"
  shows "slots b (p @ l # r) k = None"
  using assms by (simp add: slots_def walk_append)

lemma to_lower_dotfree [simp]: "CHR ''.'' \<in> set (to_ascii_lowercase l) \<longleftrightarrow> CHR ''.'' \<in> set l"
  by (rule dot_in_to_ascii_lowercase)

interpretation bt: label_tree valid_builder "0 :: nat" "\<lambda>b n l. Some (child b n l)" builder_slot
  "\<lambda>b n p. walk b 0 p = Some n" slots "\<lambda>l. l"
proof
  fix b :: "'v builder" and n p l and k :: match_kind
  assume v: "valid_builder b"
  show "walk b 0 [] = Some 0" by simp
  assume w: "walk b 0 p = Some n"
  then show "builder_slot b n k = Some (slots b p k)"
    using v walk_less [OF _ _ w] by (auto simp: valid_builder_def builder_slot_def slots_def)
  show "(\<exists>c. Some (child b n l) = Some (Some c) \<and> walk b 0 (p @ [l]) = Some c) \<or>
    Some (child b n l) = Some None \<and> (\<forall>r k. slots b (p @ l # r) k = None)"
    using w slots_no_child [OF w] by (cases "child b n l") (auto simp: walk_append)
qed

interpretation bt_ci: label_tree valid_builder "0 :: nat" "\<lambda>b n l. Some (child_ci b n l)" builder_slot
  "\<lambda>b n p. walk b 0 p = Some n" slots to_ascii_lowercase
proof
  fix b :: "'v builder" and n p l and k :: match_kind
  assume v: "valid_builder b"
  show "walk b 0 [] = Some 0" by simp
  assume w: "walk b 0 p = Some n"
  then show "builder_slot b n k = Some (slots b p k)" by (rule bt.slot_located [OF v])
  assume "CHR ''.'' \<notin> set l"
  then show "(\<exists>c. Some (child_ci b n l) = Some (Some c) \<and> walk b 0 (p @ [to_ascii_lowercase l]) = Some c) \<or>
    Some (child_ci b n l) = Some None \<and> (\<forall>r k. slots b (p @ to_ascii_lowercase l # r) k = None)"
    unfolding child_ci_lower using bt.down_hit [OF v w, of "to_ascii_lowercase l"] by simp
qed

end
