(* ===== verification/Trie_Sealed.thy ===== *)
theory Trie_Sealed
  imports Trie_Builder
begin

section \<open>Domain trie: the sealed layout\<close>

text \<open>
  \<^verbatim>\<open>Builder::into_sealed\<close> and \<^verbatim>\<open>Sealed\<close> of \<^verbatim>\<open>meow-trie/src/trie.rs\<close>: breadth-first node order, a
  child run per node found by binary search on labels kept in one \<^verbatim>\<open>.\<close>-terminated arena, the first
  child's index packed with the three presence bits into 32 bits, and values found by a sampled
  rank. Loop counters that the \<open>2\<^sup>29\<close> node limit keeps far from overflow are \<^typ>\<open>nat\<close>; what is
  packed or stored as \<^verbatim>\<open>u32\<close> is a 32-bit word. Every index and slice is checked (\<^const>\<open>None\<close> is
  the panic), and the sealed trie is shown to be a \<^const>\<open>label_tree\<close> for the builder's table.
\<close>

unbundle bit_operations_syntax

definition MASK_EXACT :: "8 word" where "MASK_EXACT = 1"
definition MASK_STAR :: "8 word" where "MASK_STAR = 2"
definition MASK_DOT :: "8 word" where "MASK_DOT = 4"
definition MASK_SHIFT :: nat where "MASK_SHIFT = 29"
definition CHILD_MASK :: "32 word" where "CHILD_MASK = push_bit MASK_SHIFT 1 - 1"
definition VALUE_BLOCK :: nat where "VALUE_BLOCK = 32"

lemmas mask_defs = MASK_EXACT_def MASK_STAR_def MASK_DOT_def MASK_SHIFT_def CHILD_MASK_def
  VALUE_BLOCK_def

record node =
  nd_label :: "32 word"
  child_mask :: "32 word"

definition first_child :: "node \<Rightarrow> nat" where
  "first_child nd = unat (child_mask nd AND CHILD_MASK)"

definition nd_mask :: "node \<Rightarrow> 8 word" where
  "nd_mask nd = ucast (drop_bit MASK_SHIFT (child_mask nd))"

record 'v sealed =
  s_nodes :: "node list"
  s_values :: "'v list"
  value_base :: "32 word list"
  s_labels :: string

subsection \<open>Sealing\<close>

text \<open>Children grouped by parent: count, prefix sums, fill with advancing cursors.\<close>

definition csr_counts :: "nat \<Rightarrow> ((nat \<times> nat) \<times> nat) list \<Rightarrow> nat list panics" where
  "csr_counts n es =
     foldM (\<lambda>bs e. Option.bind (index bs (fst (fst e) + 1)) (\<lambda>x. store bs (fst (fst e) + 1) (x + 1)))
       (replicate (n + 1) 0) es"

definition csr_prefix :: "nat \<Rightarrow> nat list \<Rightarrow> nat list panics" where
  "csr_prefix n bounds =
     foldM (\<lambda>bs i. Option.bind (index bs i) (\<lambda>x. Option.bind (index bs (i + 1)) (\<lambda>y.
       store bs (i + 1) (y + x)))) bounds [0..<n]"

definition csr_fill ::
  "nat list \<Rightarrow> nat list \<Rightarrow> ((nat \<times> nat) \<times> nat) list \<Rightarrow> (nat list \<times> nat list) panics" where
  "csr_fill bounds children es =
     foldM (\<lambda>(bs, cs) e. Option.bind (index bs (fst (fst e))) (\<lambda>slot.
       Option.bind (store cs slot (snd e)) (\<lambda>cs.
       Option.bind (store bs (fst (fst e)) (slot + 1)) (\<lambda>bs. Some (bs, cs)))))
       (bounds, children) es"

definition run :: "nat list \<Rightarrow> nat \<Rightarrow> (nat \<times> nat) panics" where
  "run bounds p =
     Option.bind (if p = 0 then Some 0 else index bounds (p - 1)) (\<lambda>start.
     Option.bind (index bounds p) (\<lambda>stop. Some (start, stop)))"

definition label_by_id :: "(string \<times> nat) list \<Rightarrow> string list panics" where
  "label_by_id ls = foldM (\<lambda>v (l, i). store v i l) (replicate (length ls) []) ls"

definition sort_group :: "'v build_node list \<Rightarrow> string list \<Rightarrow> nat list \<Rightarrow> nat list panics" where
  "sort_group ns by_id grp =
     Option.bind (mapM (\<lambda>c. Option.bind (index ns c) (\<lambda>nd. index by_id (bn_label nd))) grp) (\<lambda>keys.
       Some (map snd (sort_key fst (zip keys grp))))"

definition sort_groups ::
  "'v build_node list \<Rightarrow> string list \<Rightarrow> nat list \<Rightarrow> nat \<Rightarrow> nat list \<Rightarrow> nat list panics" where
  "sort_groups ns by_id bounds n children =
     foldM (\<lambda>cs p. Option.bind (run bounds p) (\<lambda>(start, stop).
       Option.bind (slice cs start stop) (\<lambda>grp.
       Option.bind (sort_group ns by_id grp) (\<lambda>sorted.
         Some (take start cs @ sorted @ drop stop cs))))) children [0..<n]"

text \<open>Breadth-first renumbering; one unit of fuel per visited node.\<close>

fun bfs_loop ::
  "nat \<Rightarrow> (nat \<Rightarrow> nat list panics) \<Rightarrow> nat \<Rightarrow> nat list \<Rightarrow> nat list \<Rightarrow> (nat list \<times> nat list) panics" where
  "bfs_loop 0 kids i order first = None"
| "bfs_loop (Suc fuel) kids i order first =
     (if i < length order then
        Option.bind (kids (order ! i)) (\<lambda>ks.
          bfs_loop fuel kids (i + 1) (order @ ks) (first @ [length order]))
      else Some (order, first))"

definition arena :: "string list \<Rightarrow> nat list \<times> string" where
  "arena by_id = foldl (\<lambda>(offs, bytes) l. (offs @ [length bytes], bytes @ l @ ''.'')) ([], []) by_id"

definition node_mask :: "'v build_node \<Rightarrow> 8 word" where
  "node_mask nd = (if bn_exact nd \<noteq> None then MASK_EXACT else 0) OR
     (if bn_star nd \<noteq> None then MASK_STAR else 0) OR (if bn_dot nd \<noteq> None then MASK_DOT else 0)"

definition node_values :: "'v build_node \<Rightarrow> 'v list" where
  "node_values nd =
     (case bn_exact nd of None \<Rightarrow> [] | Some v \<Rightarrow> [v]) @ (case bn_star nd of None \<Rightarrow> [] | Some v \<Rightarrow> [v]) @
     (case bn_dot nd of None \<Rightarrow> [] | Some v \<Rightarrow> [v])"

definition emit_nodes ::
  "'v build_node list \<Rightarrow> nat list \<Rightarrow> nat list \<Rightarrow> nat list \<Rightarrow>
   (node list \<times> 'v list \<times> 32 word list) panics" where
  "emit_nodes ns offs first order =
     foldM (\<lambda>(out, values, base) (new, old).
       Option.bind (if new mod VALUE_BLOCK = 0
                    then map_option (\<lambda>v. base @ [word_of_nat v]) (u32_try (length values))
                    else Some base) (\<lambda>base.
       Option.bind (index ns old) (\<lambda>nd.
       Option.bind (index offs (bn_label nd)) (\<lambda>off.
       Option.bind (index first new) (\<lambda>fc.
         Some (out @ [\<lparr>nd_label = word_of_nat off,
                       child_mask = word_of_nat fc OR push_bit MASK_SHIFT (ucast (node_mask nd))\<rparr>],
               values @ node_values nd, base))))))
       ([], [], []) (zip [0..<length order] order)"

definition into_sealed :: "'v builder \<Rightarrow> 'v sealed panics" where
  "into_sealed builder =
     (let b = ensure_root builder; ns = nodes b; n = length ns in
      if n < 2 ^ MASK_SHIFT then
        Option.bind (csr_counts n (edges b)) (\<lambda>counts.
        Option.bind (csr_prefix n counts) (\<lambda>starts.
        Option.bind (csr_fill starts (replicate (n - 1) 0) (edges b)) (\<lambda>(bounds, children).
        Option.bind (label_by_id (labels b)) (\<lambda>by_id.
        Option.bind (sort_groups ns by_id bounds n children) (\<lambda>children.
        Option.bind (bfs_loop (n + 1)
            (\<lambda>p. Option.bind (run bounds p) (\<lambda>(start, stop). slice children start stop)) 0 [0] [])
          (\<lambda>(order, first).
        Option.bind (u32_try (sum_list (map (\<lambda>l. length l + 1) by_id))) (\<lambda>_.
        (let (offs, bytes) = arena by_id in
        Option.bind (emit_nodes ns offs first order) (\<lambda>(out, values, base).
          Some \<lparr>s_nodes = out @ [\<lparr>nd_label = 0, child_mask = word_of_nat n\<rparr>],
                s_values = values, value_base = base, s_labels = bytes\<rparr>)))))))))
      else None)"

subsection \<open>Reading the sealed layout\<close>

text \<open>\<^verbatim>\<open>cmp_label\<close>: the loop over the query bytes; \<open>stored\<close> starts at the current position.\<close>

fun cmp_bytes :: "bool \<Rightarrow> string \<Rightarrow> string \<Rightarrow> ordering panics" where
  "cmp_bytes ci stored [] =
     Option.bind (index stored 0) (\<lambda>s. Some (if s = CHR ''.'' then Equal else Greater))"
| "cmp_bytes ci stored (q # query) =
     Option.bind (index stored 0) (\<lambda>s.
       if s = CHR ''.'' then Some Less
       else (case compare s (if ci then lower_byte q else q) of
               Equal \<Rightarrow> cmp_bytes ci (drop 1 stored) query
             | non_eq \<Rightarrow> Some non_eq))"

definition cmp_label :: "bool \<Rightarrow> 'v sealed \<Rightarrow> 32 word \<Rightarrow> string \<Rightarrow> ordering panics" where
  "cmp_label ci s offset query =
     (if unat offset \<le> length (s_labels s) then cmp_bytes ci (drop (unat offset) (s_labels s)) query
      else None)"

definition children :: "'v sealed \<Rightarrow> nat \<Rightarrow> (nat \<times> node list) panics" where
  "children s n =
     Option.bind (index (s_nodes s) n) (\<lambda>a.
     Option.bind (index (s_nodes s) (n + 1)) (\<lambda>b.
     Option.bind (slice (s_nodes s) (first_child a) (first_child b)) (\<lambda>cs.
       Some (first_child a, cs))))"

definition find_child :: "bool \<Rightarrow> 'v sealed \<Rightarrow> nat \<Rightarrow> string \<Rightarrow> nat option panics" where
  "find_child ci s n label =
     Option.bind (children s n) (\<lambda>(start, cs).
     Option.bind (binary_search_by (\<lambda>c. cmp_label ci s (nd_label c) label) cs) (\<lambda>r.
       Some (case r of Inr i \<Rightarrow> Some (start + i) | Inl _ \<Rightarrow> None)))"

definition count_ones :: "'w :: len word \<Rightarrow> nat" where
  "count_ones w = length (filter (bit w) [0..<LENGTH('w)])"

text \<open>\<open>zst\<close>: the value type has size zero, so every value is the same one.\<close>

definition value_index :: "bool \<Rightarrow> 'v sealed \<Rightarrow> nat \<Rightarrow> nat panics" where
  "value_index zst s n =
     (if zst then Some 0
      else (let block = n div VALUE_BLOCK in
        Option.bind (index (value_base s) block) (\<lambda>base.
        Option.bind (slice (s_nodes s) (block * VALUE_BLOCK) n) (\<lambda>earlier.
          Some (foldl (\<lambda>idx nd. idx + count_ones (drop_bit MASK_SHIFT (child_mask nd)))
                  (unat base) earlier)))))"

fun slot_test :: "match_kind \<Rightarrow> 8 word" where
  "slot_test Exact = MASK_EXACT"
| "slot_test Star = MASK_STAR"
| "slot_test Dot = MASK_DOT"

fun slot_skip :: "match_kind \<Rightarrow> 8 word \<Rightarrow> nat" where
  "slot_skip Exact m = 0"
| "slot_skip Star m = unat (m AND MASK_EXACT)"
| "slot_skip Dot m = count_ones (m AND (MASK_EXACT OR MASK_STAR))"

text \<open>\<^verbatim>\<open>exact\<close>, \<^verbatim>\<open>star\<close> and \<^verbatim>\<open>dot\<close>.\<close>

definition sealed_slot :: "bool \<Rightarrow> 'v sealed \<Rightarrow> nat \<Rightarrow> match_kind \<Rightarrow> 'v option panics" where
  "sealed_slot zst s n k =
     Option.bind (index (s_nodes s) n) (\<lambda>nd.
       if nd_mask nd AND slot_test k \<noteq> 0
       then Option.bind (value_index zst s n) (\<lambda>i.
              map_option Some (index (s_values s) (i + slot_skip k (nd_mask nd))))
       else Some None)"

subsection \<open>Grouping children by parent\<close>

definition seg :: "((nat \<times> nat) \<times> nat) list \<Rightarrow> nat \<Rightarrow> nat list" where
  "seg es p = map snd (filter (\<lambda>e. fst (fst e) = p) es)"

abbreviation psum :: "(nat \<Rightarrow> 'a list) \<Rightarrow> nat \<Rightarrow> nat" where
  "psum f p \<equiv> length (concat (map f [0..<p]))"

lemma seg_snoc: "seg (es @ [e]) p = seg es p @ (if fst (fst e) = p then [snd e] else [])"
  by (simp add: seg_def)

lemma map_upt_update: "p < n \<Longrightarrow> (map f [0..<n])[p := v] = map (f(p := v)) [0..<n]"
  by (rule nth_equalityI) (auto simp: nth_list_update)

lemma upt_split: "p < n \<Longrightarrow> [0..<n] = [0..<p] @ p # [Suc p..<n]"
  using upt_add_eq_append [of 0 p "n - p"] by (simp add: upt_conv_Cons)

lemma concat_upt_split:
  "p < n \<Longrightarrow> concat (map f [0..<n]) = concat (map f [0..<p]) @ f p @ concat (map f [Suc p..<n])"
  by (simp add: upt_split [of p n] del: upt_Suc)

lemma upt_prefixD:
  assumes "[0..<n] = ys @ y # zs"
  shows "y = length ys" and "y < n" and "ys = [0..<length ys]"
proof -
  have l: "length ys < n" using arg_cong [OF assms, of length] by simp
  have "y = (ys @ y # zs) ! length ys" by simp
  also have "\<dots> = length ys" using l by (simp flip: assms)
  finally show "y = length ys" .
  with l show "y < n" by simp
  have "ys = take (length ys) [0..<n]" by (simp add: assms)
  then show "ys = [0..<length ys]" using l by (simp add: take_upt)
qed

lemma csr_counts_seg:
  assumes "\<forall>e \<in> set es. fst (fst e) < n"
  shows "csr_counts n es = Some (0 # map (\<lambda>p. length (seg es p)) [0..<n])"
proof -
  let ?P = "\<lambda>ys bs. bs = 0 # map (\<lambda>p. length (seg ys p)) [0..<n]"
  have "\<exists>bs. csr_counts n es = Some bs \<and> ?P es bs"
    unfolding csr_counts_def
  proof (rule foldM_prefix)
    show "?P [] (replicate (n + 1) 0)" by (simp add: seg_def map_replicate_const)
    fix ys e zs bs
    assume es: "es = ys @ e # zs" and bs: "?P ys bs"
    let ?p = "fst (fst e)"
    from es assms have p: "?p < n" by simp
    have "(map (\<lambda>p. length (seg ys p)) [0..<n])[?p := Suc (length (seg ys ?p))] =
        map (\<lambda>p. length (seg (ys @ [e]) p)) [0..<n]"
      by (simp add: map_upt_update [OF p] seg_snoc)
    then show "\<exists>bs'. Option.bind (index bs (?p + 1)) (\<lambda>x. store bs (?p + 1) (x + 1)) = Some bs' \<and>
        ?P (ys @ [e]) bs'"
      using p by (simp add: bs del: upt_Suc)
  qed
  then show ?thesis by simp
qed

lemma csr_prefix_psum:
  "csr_prefix n (0 # map (\<lambda>p. length (f p)) [0..<n]) = Some (map (psum f) [0..<n + 1])"
proof -
  let ?P = "\<lambda>ys bs. bs = map (\<lambda>i. if i \<le> length ys then psum f i else length (f (i - 1))) [0..<n + 1]"
  have "\<exists>bs. csr_prefix n (0 # map (\<lambda>p. length (f p)) [0..<n]) = Some bs \<and> ?P [0..<n] bs"
    unfolding csr_prefix_def
  proof (rule foldM_prefix)
    show "?P [] (0 # map (\<lambda>p. length (f p)) [0..<n])"
      by (rule nth_equalityI) (auto simp: nth_Cons' simp del: upt_Suc)
    fix ys i zs bs
    assume e: "[0..<n] = ys @ i # zs" and bs: "?P ys bs"
    note i = upt_prefixD [OF e]
    have "(map (\<lambda>i. if i \<le> length ys then psum f i else length (f (i - 1))) [0..<n + 1])
        [i + 1 := length (f i) + psum f i] =
      map (\<lambda>i. if i \<le> length (ys @ [i]) then psum f i else length (f (i - 1))) [0..<n + 1]"
      using i by (subst map_upt_update) (auto simp: le_Suc_eq)
    then show "\<exists>bs'. Option.bind (index bs i) (\<lambda>x. Option.bind (index bs (i + 1)) (\<lambda>y.
        store bs (i + 1) (y + x))) = Some bs' \<and> ?P (ys @ [i]) bs'"
      using i by (simp add: bs del: upt_Suc)
  qed
  moreover have "map (\<lambda>i. if i \<le> length [0..<n] then psum f i else length (f (i - 1))) [0..<n + 1] =
      map (psum f) [0..<n + 1]" by simp
  ultimately show ?thesis by (simp del: upt_Suc)
qed

text \<open>The fill loop: what is read so far stands at the start of each group, the rest is zero.\<close>

definition fillv :: "((nat \<times> nat) \<times> nat) list \<Rightarrow> ((nat \<times> nat) \<times> nat) list \<Rightarrow> nat \<Rightarrow> nat list" where
  "fillv es ys p = seg ys p @ replicate (length (seg es p) - length (seg ys p)) 0"

lemma length_fillv: "es = ys @ zs \<Longrightarrow> length (fillv es ys p) = length (seg es p)"
  by (simp add: fillv_def seg_def)

lemma psum_cong: "(\<And>p. length (f p) = length (g p)) \<Longrightarrow> psum f n = psum g n"
  by (induction n) simp_all

lemma concat_replicate_zero:
  "concat (map (\<lambda>p. replicate (f p) z) xs) = replicate (length (concat (map (\<lambda>p. replicate (f p) z) xs))) z"
  by (induction xs) (simp_all add: replicate_add)

lemma psum_seg: "(\<forall>e \<in> set es. fst (fst e) < n) \<Longrightarrow> psum (seg es) n = length es"
proof (induction es rule: rev_induct)
  case Nil
  then show ?case by (simp add: seg_def map_replicate_const)
next
  case (snoc e es)
  then have p: "fst (fst e) < n" by simp
  have "seg (es @ [e]) q = seg es q" if "q \<noteq> fst (fst e)" for q using that by (simp add: seg_snoc)
  then have m: "map (seg (es @ [e])) [0..<fst (fst e)] = map (seg es) [0..<fst (fst e)]"
    "map (seg (es @ [e])) [Suc (fst (fst e))..<n] = map (seg es) [Suc (fst (fst e))..<n]" by simp_all
  have "psum (seg (es @ [e])) n = psum (seg es) n + 1"
    unfolding concat_upt_split [OF p] m by (simp add: seg_snoc)
  with snoc show ?case by simp
qed

lemma fillv_step:
  assumes "es = ys @ e # zs" and "fst (fst e) < n"
  shows "(concat (map (fillv es ys) [0..<n]))
      [psum (seg es) (fst (fst e)) + length (seg ys (fst (fst e))) := snd e] =
    concat (map (fillv es (ys @ [e])) [0..<n])"
    and "psum (seg es) (fst (fst e)) + length (seg ys (fst (fst e))) < length (concat (map (fillv es ys) [0..<n]))"
proof -
  let ?p = "fst (fst e)"
  have same: "fillv es (ys @ [e]) q = fillv es ys q" if "q \<noteq> ?p" for q
    using that by (simp add: fillv_def seg_snoc)
  have m: "map (fillv es (ys @ [e])) [0..<?p] = map (fillv es ys) [0..<?p]"
    "map (fillv es (ys @ [e])) [Suc ?p..<n] = map (fillv es ys) [Suc ?p..<n]" using same by simp_all
  have ps: "psum (seg es) ?p = psum (fillv es ys) ?p"
    by (rule psum_cong) (simp add: length_fillv [OF assms(1)])
  have lt: "length (seg ys ?p) < length (fillv es ys ?p)"
    using assms(1) by (simp add: fillv_def seg_def)
  have new: "(fillv es ys ?p)[length (seg ys ?p) := snd e] = fillv es (ys @ [e]) ?p"
  proof -
    obtain k where k: "length (seg es ?p) - length (seg ys ?p) = Suc k"
      using lt length_fillv [OF assms(1)] by (metis Suc_diff_Suc)
    then show ?thesis by (simp add: fillv_def seg_snoc list_update_append diff_Suc)
  qed
  show "(concat (map (fillv es ys) [0..<n])) [psum (seg es) ?p + length (seg ys ?p) := snd e] =
      concat (map (fillv es (ys @ [e])) [0..<n])"
    unfolding concat_upt_split [OF assms(2)] m ps using lt new by (simp add: list_update_append)
  show "psum (seg es) ?p + length (seg ys ?p) < length (concat (map (fillv es ys) [0..<n]))"
    unfolding concat_upt_split [OF assms(2)] ps using lt by simp
qed

lemma csr_fill_seg:
  assumes "\<forall>e \<in> set es. fst (fst e) < n"
  shows "csr_fill (map (psum (seg es)) [0..<n + 1]) (replicate (length es) 0) es =
    Some (map (\<lambda>p. psum (seg es) p + length (seg es p)) [0..<n] @ [psum (seg es) n],
          concat (map (seg es) [0..<n]))"
proof -
  let ?B = "\<lambda>ys. map (\<lambda>p. psum (seg es) p + length (seg ys p)) [0..<n] @ [psum (seg es) n]"
  let ?P = "\<lambda>ys bc. bc = (?B ys, concat (map (fillv es ys) [0..<n]))"
  have "\<exists>bc. csr_fill (map (psum (seg es)) [0..<n + 1]) (replicate (length es) 0) es = Some bc \<and> ?P es bc"
    unfolding csr_fill_def
  proof (rule foldM_prefix [where P = ?P])
    have "psum (\<lambda>p. replicate (length (seg es p)) (0 :: nat)) n = length es"
      using psum_seg [OF assms] psum_cong [of "\<lambda>p. replicate (length (seg es p)) (0 :: nat)" "seg es"] by simp
    moreover have "fillv es [] = (\<lambda>p. replicate (length (seg es p)) 0)"
      by (simp add: fillv_def seg_def fun_eq_iff)
    ultimately show "?P [] (map (psum (seg es)) [0..<n + 1], replicate (length es) 0)"
      using concat_replicate_zero [of "\<lambda>p. length (seg es p)" "0 :: nat" "[0..<n]"]
      by (simp add: seg_def [of "[]"])
    fix ys e zs bc
    assume es: "es = ys @ e # zs" and bc: "?P ys bc"
    let ?p = "fst (fst e)"
    from es assms have p: "?p < n" by simp
    note f = fillv_step [OF es p]
    have b: "(?B ys)[?p := Suc (psum (seg es) ?p + length (seg ys ?p))] = ?B (ys @ [e])"
      using p by (simp add: list_update_append map_upt_update [OF p] seg_snoc del: upt_Suc)
    have nth: "?B ys ! ?p = psum (seg es) ?p + length (seg ys ?p)" using p by (simp add: nth_append)
    show "\<exists>bc'. (\<lambda>(bs, cs) e. Option.bind (index bs (fst (fst e))) (\<lambda>slot.
       Option.bind (store cs slot (snd e)) (\<lambda>cs.
       Option.bind (store bs (fst (fst e)) (slot + 1)) (\<lambda>bs. Some (bs, cs))))) bc e = Some bc' \<and>
       ?P (ys @ [e]) bc'"
      unfolding bc using p f b nth by simp
  qed
  moreover have "fillv es es = seg es" by (rule ext) (simp add: fillv_def)
  ultimately show ?thesis by simp
qed

lemma run_psum:
  assumes "p < n"
  shows "run (map (\<lambda>p. psum f p + length (f p)) [0..<n] @ [psum f n]) p = Some (psum f p, psum f p + length (f p))"
proof (cases p)
  case 0
  then show ?thesis using assms by (simp add: run_def nth_append)
next
  case (Suc q)
  then show ?thesis using assms by (simp add: run_def nth_append)
qed

lemma slice_psum:
  assumes "p < n" and "\<And>q. length (g q) = length (f q)"
  shows "slice (concat (map g [0..<n])) (psum f p) (psum f p + length (f p)) = Some (g p)"
proof -
  have "psum f p = psum g p" by (rule psum_cong) (simp add: assms(2))
  then show ?thesis unfolding concat_upt_split [OF assms(1), of g] by (simp add: slice_def assms(2))
qed

lemma sort_groups_seg:
  assumes "\<And>p. p < n \<Longrightarrow> sort_group ns by_id (f p) = Some (g p)" and len: "\<And>p. length (g p) = length (f p)"
  shows "sort_groups ns by_id (map (\<lambda>p. psum f p + length (f p)) [0..<n] @ [psum f n]) n
      (concat (map f [0..<n])) = Some (concat (map g [0..<n]))"
proof -
  let ?B = "map (\<lambda>p. psum f p + length (f p)) [0..<n] @ [psum f n]"
  let ?h = "\<lambda>ys p. if p < length ys then g p else f p"
  let ?P = "\<lambda>ys cs. cs = concat (map (?h ys) [0..<n])"
  have "\<exists>cs. sort_groups ns by_id ?B n (concat (map f [0..<n])) = Some cs \<and> ?P [0..<n] cs"
    unfolding sort_groups_def
  proof (rule foldM_prefix [where P = ?P])
    show "?P [] (concat (map f [0..<n]))" by simp
    fix ys p zs cs
    assume e: "[0..<n] = ys @ p # zs" and cs: "?P ys cs"
    note p = upt_prefixD [OF e]
    have hl: "length (?h ys q) = length (f q)" for q by (simp add: len)
    have ps: "psum f p = psum (?h ys) p" by (rule psum_cong) (simp add: len)
    have m: "map (?h (ys @ [p])) [0..<p] = map (?h ys) [0..<p]"
      "map (?h (ys @ [p])) [Suc p..<n] = map (?h ys) [Suc p..<n]" using p(1) by auto
    have "take (psum f p) cs @ g p @ drop (psum f p + length (f p)) cs =
        concat (map (?h (ys @ [p])) [0..<n])"
      unfolding cs concat_upt_split [OF p(2)] m ps using p(1) by simp
    moreover have "slice cs (psum f p) (psum f p + length (f p)) = Some (f p)"
      unfolding cs using slice_psum [OF p(2), of "?h ys" f, OF hl] p(1) by simp
    ultimately show "\<exists>cs'. Option.bind (run ?B p) (\<lambda>(start, stop).
       Option.bind (slice cs start stop) (\<lambda>grp.
       Option.bind (sort_group ns by_id grp) (\<lambda>sorted.
         Some (take start cs @ sorted @ drop stop cs)))) = Some cs' \<and> ?P (ys @ [p]) cs'"
      using run_psum [OF p(2), of f] assms(1) [OF p(2)] by simp
  qed
  moreover have "map (?h [0..<n]) [0..<n] = map g [0..<n]" by simp
  ultimately show ?thesis by (simp only: ex_simps) simp
qed

subsection \<open>Labels, sorted runs, breadth-first order\<close>

lemma label_by_id_fst:
  assumes "map snd ls = [0..<length ls]"
  shows "label_by_id ls = Some (map fst ls)"
proof -
  let ?P = "\<lambda>ys v. v = map fst ys @ replicate (length ls - length ys) ([] :: string)"
  have "\<exists>v. label_by_id ls = Some v \<and> ?P ls v"
    unfolding label_by_id_def
  proof (rule foldM_prefix [where P = ?P])
    fix ys y zs v
    assume ls: "ls = ys @ y # zs" and v: "?P ys v"
    have "[0..<length ls] = map snd ys @ snd y # map snd zs" using assms ls by simp
    from upt_prefixD(1) [OF this] have y: "snd y = length ys" by simp
    obtain k where k: "length ls - length ys = Suc k" using ls by simp
    have "v[length ys := fst y] = map fst (ys @ [y]) @ replicate (length ls - length (ys @ [y])) []"
      unfolding v using k by (simp add: list_update_append diff_Suc)
    then show "\<exists>v'. (\<lambda>v (l, i). store v i l) v y = Some v' \<and> ?P (ys @ [y]) v'"
      using v k y by (simp add: split_beta)
  qed simp
  then show ?thesis by simp
qed

lemma sort_key_zip_pairs: "sort_key fst (zip (map f xs) xs) = map (\<lambda>x. (f x, x)) (sort_key f xs)"
proof (induction xs)
  case (Cons x xs)
  have "insort_key fst (f x, x) (map (\<lambda>x. (f x, x)) ys) = map (\<lambda>x. (f x, x)) (insort_key f x ys)" for ys
    by (induction ys) auto
  with Cons show ?case by simp
qed simp

lemma sort_group_key:
  assumes "\<And>c. c \<in> set grp \<Longrightarrow> c < length ns \<and> bn_label (ns ! c) < length by_id"
  shows "sort_group ns by_id grp = Some (sort_key (\<lambda>c. by_id ! bn_label (ns ! c)) grp)"
proof -
  have "mapM (\<lambda>c. Option.bind (index ns c) (\<lambda>nd. index by_id (bn_label nd))) grp =
      Some (map (\<lambda>c. by_id ! bn_label (ns ! c)) grp)"
    by (rule mapM_Some) (use assms in auto)
  then show ?thesis by (simp add: sort_group_def sort_key_zip_pairs comp_def)
qed

definition bfs_inv :: "(nat \<Rightarrow> nat list) \<Rightarrow> nat \<Rightarrow> nat \<Rightarrow> nat list \<Rightarrow> nat list \<Rightarrow> bool" where
  "bfs_inv k n i order first \<longleftrightarrow>
     i \<le> length order \<and> distinct order \<and> set order \<subseteq> {0..<n} \<and>
     order = 0 # concat (map k (take i order)) \<and>
     first = map (\<lambda>m. 1 + length (concat (map k (take m order)))) [0..<i]"

lemma bfs_inv_step:
  assumes inv: "bfs_inv k n i order first" and i: "i < length order"
    and sub: "\<And>p. p < n \<Longrightarrow> set (k p) \<subseteq> {0<..<n} \<and> distinct (k p)"
    and disj: "\<And>p q. p \<noteq> q \<Longrightarrow> set (k p) \<inter> set (k q) = {}"
  shows "bfs_inv k n (i + 1) (order @ k (order ! i)) (first @ [length order])"
proof -
  have ord: "order = 0 # concat (map k (take i order))" and d: "distinct order"
    and bnd: "set order \<subseteq> {0..<n}"
    and fi: "first = map (\<lambda>m. 1 + length (concat (map k (take m order)))) [0..<i]"
    using inv by (simp_all add: bfs_inv_def)
  have oi: "order ! i < n" using bnd i nth_mem by fastforce
  have new: "c \<notin> set order" if c: "c \<in> set (k (order ! i))" for c
  proof
    assume "c \<in> set order"
    then have "c = 0 \<or> (\<exists>p \<in> set (take i order). c \<in> set (k p))" by (subst (asm) ord) auto
    moreover have "c \<noteq> 0" using sub [OF oi] c by auto
    ultimately obtain p where p: "p \<in> set (take i order)" "c \<in> set (k p)" by blast
    have "p \<noteq> order ! i" using p(1) d i
      by (metis distinct_take id_take_nth_drop not_distinct_conv_prefix)
    then show False using disj [of p "order ! i"] p(2) c by blast
  qed
  have tk: "take (i + 1) (order @ k (order ! i)) = take i order @ [order ! i]"
    using i by (simp add: take_Suc_conv_app_nth)
  have o1: "order @ k (order ! i) = 0 # concat (map k (take (i + 1) (order @ k (order ! i))))"
    unfolding tk by (subst ord) simp
  have o2: "distinct (order @ k (order ! i))" using d new sub [OF oi] by auto
  have o3: "set (order @ k (order ! i)) \<subseteq> {0..<n}" using bnd sub [OF oi] by auto
  have "length order = 1 + length (concat (map k (take i order)))" by (subst ord) simp
  then have o4: "first @ [length order] =
      map (\<lambda>m. 1 + length (concat (map k (take m (order @ k (order ! i)))))) [0..<i + 1]"
    using i unfolding fi by simp
  show ?thesis unfolding bfs_inv_def by (intro conjI o1 o2 o3 o4) (use i in simp)
qed

lemma bfs_loop_inv:
  assumes K: "\<And>p. p < n \<Longrightarrow> K p = Some (k p)"
    and sub: "\<And>p. p < n \<Longrightarrow> set (k p) \<subseteq> {0<..<n} \<and> distinct (k p)"
    and disj: "\<And>p q. p \<noteq> q \<Longrightarrow> set (k p) \<inter> set (k q) = {}"
    and "bfs_inv k n i order first" and "n < fuel + i"
  shows "\<exists>order' first'. bfs_loop fuel K i order first = Some (order', first') \<and>
    bfs_inv k n (length order') order' first'"
  using assms(4,5)
proof (induction fuel arbitrary: i order first)
  case 0
  then have "length order \<le> n" unfolding bfs_inv_def
    by (metis card_mono distinct_card finite_atLeastLessThan card_atLeastLessThan diff_zero)
  with 0 show ?case by (simp add: bfs_inv_def)
next
  case (Suc fuel)
  show ?case
  proof (cases "i < length order")
    case True
    then have "order ! i < n" using Suc.prems(1) nth_mem unfolding bfs_inv_def by fastforce
    with K have "K (order ! i) = Some (k (order ! i))" by blast
    with True Suc.IH [OF bfs_inv_step [OF Suc.prems(1) True sub disj]] Suc.prems(2) show ?thesis by simp
  next
    case False
    then have "i = length order" using Suc.prems(1) by (simp add: bfs_inv_def)
    with False Suc.prems show ?thesis by simp
  qed
qed

lemma bfs_complete:
  assumes "bfs_inv k n (length order) order first" and "0 < n"
    and "\<And>c. 0 < c \<Longrightarrow> c < n \<Longrightarrow> \<exists>p < c. c \<in> set (k p)"
  shows "set order = {0..<n}" and "length order = n"
proof -
  have ord: "order = 0 # concat (map k order)" using assms(1) by (simp add: bfs_inv_def)
  have "c \<in> set order" if "c < n" for c
    using that
  proof (induction c rule: less_induct)
    case (less c)
    show ?case
    proof (cases "c = 0")
      case True
      then show ?thesis by (subst ord) simp
    next
      case False
      then obtain p where "p < c" "c \<in> set (k p)" using assms(3) less.prems by blast
      moreover from this have "p \<in> set order" using less by simp
      ultimately show ?thesis by (subst ord) auto
    qed
  qed
  then show set: "set order = {0..<n}" using assms(1) by (auto simp: bfs_inv_def)
  show "length order = n" using assms(1) set distinct_card [of order] by (simp add: bfs_inv_def)
qed

lemma bfs_children:
  assumes "bfs_inv k n (length order) order first" and "m < length order" and "j < length (k (order ! m))"
  shows "first ! m + j < length order" and "order ! (first ! m + j) = k (order ! m) ! j"
proof -
  let ?c = "concat (map k (take m order))"
  have ord: "order = 0 # concat (map k order)"
    and f: "first ! m = 1 + length ?c" using assms(1,2) by (simp_all add: bfs_inv_def)
  have "concat (map k order) = ?c @ k (order ! m) @ concat (map k (drop (Suc m) order))"
    by (subst id_take_nth_drop [OF assms(2)]) simp
  then have o2: "order = 0 # ?c @ k (order ! m) @ concat (map k (drop (Suc m) order))" using ord by simp
  have "length order = 1 + length ?c + length (k (order ! m)) + length (concat (map k (drop (Suc m) order)))"
    by (rule trans [OF arg_cong [OF o2, of length]]) simp
  then show "first ! m + j < length order" using f assms(3) by linarith
  have "order ! (first ! m + j) = (0 # ?c @ k (order ! m) @ concat (map k (drop (Suc m) order))) ! (first ! m + j)"
    using o2 by metis
  then show "order ! (first ! m + j) = k (order ! m) ! j" using f assms(3) by (simp add: nth_append)
qed

lemma bfs_first:
  assumes "bfs_inv k n (length order) order first" and "m < length order"
  shows "first ! m + length (k (order ! m)) = (if m + 1 < length order then first ! (m + 1) else length order)"
proof -
  have ord: "length order = 1 + length (concat (map k order))"
    using assms(1) unfolding bfs_inv_def by (metis length_Cons plus_1_eq_Suc take_all_iff le_refl)
  have f: "first ! i = 1 + length (concat (map k (take i order)))" if "i < length order" for i
    using assms(1) that by (simp add: bfs_inv_def)
  show ?thesis
  proof (cases "m + 1 < length order")
    case True
    then show ?thesis using f assms(2) by (simp add: take_Suc_conv_app_nth)
  next
    case False
    then have "order = take m order @ [order ! m]" using assms(2)
      by (metis Suc_eq_plus1 Suc_lessI take_Suc_conv_app_nth take_all_iff le_refl)
    from arg_cong [OF this, of "\<lambda>x. length (concat (map k x))"]
    have "length (concat (map k order)) = length (concat (map k (take m order))) + length (k (order ! m))"
      by simp
    then show ?thesis using False ord f assms(2) by simp
  qed
qed

subsection \<open>The label arena and the packed words\<close>

lemma arena_eq:
  "arena L = (map (\<lambda>i. length (concat (map (\<lambda>l. l @ ''.'') (take i L)))) [0..<length L],
              concat (map (\<lambda>l. l @ ''.'') L))"
  by (induction L rule: rev_induct) (auto simp: arena_def)

lemma arena_drop:
  assumes "arena L = (offs, bytes)" and "i < length L"
  shows "length offs = length L" and "offs ! i \<le> length bytes"
    and "drop (offs ! i) bytes = (L ! i) @ CHR ''.'' # concat (map (\<lambda>l. l @ ''.'') (drop (Suc i) L))"
proof -
  have e: "offs ! i = length (concat (map (\<lambda>l. l @ ''.'') (take i L)))" "bytes = concat (map (\<lambda>l. l @ ''.'') L)"
    "length offs = length L"
    using assms by (auto simp: arena_eq simp del: length_concat)
  have b: "bytes = concat (map (\<lambda>l. l @ ''.'') (take i L)) @ (L ! i) @ CHR ''.'' #
      concat (map (\<lambda>l. l @ ''.'') (drop (Suc i) L))"
    unfolding e(2) by (subst id_take_nth_drop [OF assms(2)]) simp
  show "length offs = length L" by (fact e(3))
  show "offs ! i \<le> length bytes" unfolding e(1) b by (simp del: length_concat)
  show "drop (offs ! i) bytes = (L ! i) @ CHR ''.'' # concat (map (\<lambda>l. l @ ''.'') (drop (Suc i) L))"
    unfolding e(1) b by (simp del: length_concat)
qed

lemma length_arena: "length (snd (arena L)) = sum_list (map (\<lambda>l. length l + 1) L)"
  by (simp add: arena_eq length_concat comp_def)

lemma compare_Cons: "compare (c # l) (d # q) = (case compare c d of Equal \<Rightarrow> compare l q | r \<Rightarrow> r)"
  by (auto simp: compare_def)

lemma cmp_bytes_compare:
  assumes "CHR ''.'' \<notin> set l"
  shows "cmp_bytes ci (l @ CHR ''.'' # rest) q = Some (compare l (if ci then to_ascii_lowercase q else q))"
  using assms
proof (induction q arbitrary: l)
  case Nil
  then show ?case by (cases l) (auto simp: compare_def)
next
  case (Cons x q)
  show ?case
  proof (cases l)
    case Nil
    then show ?thesis by (auto simp: compare_def)
  next
    case l: (Cons c l')
    with Cons show ?thesis
      by (auto simp: compare_Cons split: ordering.splits)
  qed
qed

lemma CHILD_MASK_eq: "CHILD_MASK = Bit_Operations.mask 29"
  by (simp add: CHILD_MASK_def MASK_SHIFT_def mask_eq_exp_minus_1)

lemma unat_word32: "n < 2 ^ 32 \<Longrightarrow> unat (word_of_nat n :: 32 word) = n"
  by (simp add: unat_of_nat take_bit_nat_eq_self_iff)

lemma bit_word_of_nat_low:
  assumes "fc < 2 ^ 29" and "bit (word_of_nat fc :: 32 word) i"
  shows "i < 29"
proof -
  have "take_bit 29 fc = fc" using assms(1) by (simp add: take_bit_nat_eq_self_iff)
  moreover have "bit (unat (word_of_nat fc :: 32 word)) i" using assms(2) by (simp add: bit_unsigned_iff)
  then have "bit fc i" using assms(1) by (simp add: unat_word32)
  ultimately show ?thesis by (metis bit_take_bit_iff)
qed

lemma pack_low:
  assumes "fc < 2 ^ 29"
  shows "unat ((word_of_nat fc OR push_bit 29 (w :: 32 word)) AND CHILD_MASK) = fc"
proof -
  have "(word_of_nat fc OR push_bit 29 w) AND CHILD_MASK = (word_of_nat fc :: 32 word)"
    unfolding CHILD_MASK_eq
    by (rule bit_word_eqI) (use bit_word_of_nat_low [OF assms] in
        \<open>auto simp: bit_and_iff bit_or_iff bit_push_bit_iff bit_mask_iff not_le\<close>)
  then show ?thesis using assms by (simp add: unat_word32)
qed

lemma pack_high:
  assumes "fc < 2 ^ 29" and "\<And>i. bit w i \<Longrightarrow> i < 3"
  shows "drop_bit 29 (word_of_nat fc OR push_bit 29 w) = (w :: 32 word)"
  by (rule bit_word_eqI) (use assms(2) bit_word_of_nat_low [OF assms(1), of "29 + _"] in
      \<open>auto simp: bit_drop_bit_eq bit_or_iff bit_push_bit_iff\<close>)

lemma bit_node_mask:
  assumes "bit (node_mask nd) i"
  shows "i < 3"
proof -
  have "take_bit 3 (node_mask nd) = node_mask nd"
    by (cases "bn_exact nd"; cases "bn_star nd"; cases "bn_dot nd")
      (simp_all add: node_mask_def mask_defs take_bit_eq_mod)
  then show ?thesis using assms by (metis bit_take_bit_iff)
qed

definition pack_node :: "nat \<Rightarrow> nat \<Rightarrow> 'v build_node \<Rightarrow> node" where
  "pack_node off fc nd = \<lparr>nd_label = word_of_nat off,
     child_mask = word_of_nat fc OR push_bit MASK_SHIFT (ucast (node_mask nd))\<rparr>"

lemma first_child_pack: "fc < 2 ^ 29 \<Longrightarrow> first_child (pack_node off fc nd) = fc"
  by (simp add: first_child_def pack_node_def MASK_SHIFT_def pack_low)

lemma mask_pack:
  assumes "fc < 2 ^ 29"
  shows "drop_bit MASK_SHIFT (child_mask (pack_node off fc nd)) = ucast (node_mask nd)"
    and "nd_mask (pack_node off fc nd) = node_mask nd"
proof -
  have "bit (ucast (node_mask nd) :: 32 word) i \<Longrightarrow> i < 3" for i
    using bit_node_mask by (auto simp: bit_ucast_iff)
  from pack_high [OF assms this]
  show d: "drop_bit MASK_SHIFT (child_mask (pack_node off fc nd)) = ucast (node_mask nd)"
    by (simp add: pack_node_def MASK_SHIFT_def)
  show "nd_mask (pack_node off fc nd) = node_mask nd"
    unfolding nd_mask_def d by (rule bit_word_eqI) (simp add: bit_ucast_iff)
qed

subsection \<open>Emitting the nodes\<close>

abbreviation nvals :: "'v build_node list \<Rightarrow> nat list \<Rightarrow> 'v list" where
  "nvals ns olds \<equiv> concat (map (\<lambda>old. node_values (ns ! old)) olds)"

definition emitted :: "'v build_node list \<Rightarrow> nat list \<Rightarrow> nat list \<Rightarrow> nat list \<Rightarrow> nat \<Rightarrow> node list" where
  "emitted ns offs first order k =
     map (\<lambda>m. pack_node (offs ! bn_label (ns ! (order ! m))) (first ! m) (ns ! (order ! m))) [0..<k]"

definition samples :: "'v build_node list \<Rightarrow> nat list \<Rightarrow> nat \<Rightarrow> 32 word list" where
  "samples ns order k = map (\<lambda>j. word_of_nat (length (nvals ns (take (32 * j) order)))) [0..<(k + 31) div 32]"

lemma length_node_values: "length (node_values nd) \<le> 3"
  by (simp add: node_values_def split: option.splits)

lemma length_nvals: "length (nvals ns olds) \<le> 3 * length olds"
proof (induction olds)
  case (Cons old olds)
  then show ?case using length_node_values [of "ns ! old"] by simp
qed simp

lemma zip_upt_prefixD:
  assumes "zip [0..<length xs] xs = ys @ (i, x) # zs"
  shows "i = length ys" and "length ys < length xs" and "x = xs ! length ys"
proof -
  show l: "length ys < length xs" using arg_cong [OF assms, of length] by simp
  have "zip [0..<length xs] xs ! length ys = (length ys, xs ! length ys)" using l by simp
  moreover have "(ys @ (i, x) # zs) ! length ys = (i, x)" by simp
  ultimately show "i = length ys" and "x = xs ! length ys" using assms by auto
qed

lemma samples_Suc:
  "samples ns order (Suc k) = samples ns order k @
     (if k mod 32 = 0 then [word_of_nat (length (nvals ns (take k order)))] else [])"
proof (cases "k mod 32 = 0")
  case True
  then obtain j where k: "k = 32 * j" by (metis mult_div_mod_eq add.right_neutral)
  have e: "(Suc k + 31) div 32 = Suc j" "(k + 31) div 32 = j" unfolding k by simp_all
  show ?thesis unfolding samples_def e using True by (simp add: k)
next
  case False
  then have "0 < k mod 32" by simp
  moreover have "k = 32 * (k div 32) + k mod 32" and "k mod 32 < 32" by simp_all
  ultimately have "32 * Suc (k div 32) \<le> k + 31" "k + 32 < 32 * Suc (Suc (k div 32))"
    using False unfolding mult_Suc_right by linarith+
  then have "(k + 31) div 32 = Suc (k div 32)" and "(k + 32) div 32 = Suc (k div 32)"
    by (intro div_nat_eqI; simp)+
  then have e: "(Suc k + 31) div 32 = (k + 31) div 32" by simp
  show ?thesis unfolding samples_def e using False by simp
qed

lemma emit_nodes_eq:
  assumes "\<And>old. old \<in> set order \<Longrightarrow> old < length ns \<and> bn_label (ns ! old) < length offs"
    and "length first = length order" and "3 * length order < 2 ^ 32"
  shows "emit_nodes ns offs first order =
    Some (emitted ns offs first order (length order), nvals ns order, samples ns order (length order))"
proof -
  let ?P = "\<lambda>ys st. st = (emitted ns offs first order (length ys), nvals ns (take (length ys) order),
     samples ns order (length ys))"
  let ?xs = "zip [0..<length order] order"
  have "\<exists>st. emit_nodes ns offs first order = Some st \<and> ?P ?xs st"
    unfolding emit_nodes_def
  proof (rule foldM_prefix [where P = ?P])
    show "?P [] ([], [], [])" by (simp add: emitted_def samples_def)
    fix ys y zs st
    assume e: "?xs = ys @ y # zs" and st: "?P ys st"
    obtain new old where y: "y = (new, old)" by (cases y)
    note k = zip_upt_prefixD [OF e [unfolded y]]
    have old: "old < length ns" "bn_label (ns ! old) < length offs" using assms(1) k by auto
    have "length (nvals ns (take (length ys) order)) \<le> 3 * length (take (length ys) order)"
      by (rule length_nvals)
    also have "\<dots> < 2 ^ 32" using assms(3) by simp
    finally have v: "length (nvals ns (take (length ys) order)) < 2 ^ 32" .
    have tk: "take (Suc (length ys)) order = take (length ys) order @ [old]"
      using k by (simp add: take_Suc_conv_app_nth)
    have em: "emitted ns offs first order (Suc (length ys)) = emitted ns offs first order (length ys) @
        [pack_node (offs ! bn_label (ns ! old)) (first ! length ys) (ns ! old)]"
      using k by (simp add: emitted_def)
    show "\<exists>st'. (\<lambda>(out, values, base) (new, old).
       Option.bind (if new mod VALUE_BLOCK = 0
                    then map_option (\<lambda>v. base @ [word_of_nat v]) (u32_try (length values))
                    else Some base) (\<lambda>base.
       Option.bind (index ns old) (\<lambda>nd.
       Option.bind (index offs (bn_label nd)) (\<lambda>off.
       Option.bind (index first new) (\<lambda>fc.
         Some (out @ [\<lparr>nd_label = word_of_nat off,
                       child_mask = word_of_nat fc OR push_bit MASK_SHIFT (ucast (node_mask nd))\<rparr>],
               values @ node_values nd, base)))))) st y = Some st' \<and> ?P (ys @ [y]) st'"
      using old k assms(2) v unfolding st y
      by (simp add: tk em samples_Suc pack_node_def VALUE_BLOCK_def u32_try_def)
  qed
  then show ?thesis by simp
qed

lemma count_ones_small:
  "count_ones (0 :: 32 word) = 0" "count_ones (1 :: 32 word) = 1" "count_ones (2 :: 32 word) = 1"
  "count_ones (3 :: 32 word) = 2" "count_ones (4 :: 32 word) = 1" "count_ones (5 :: 32 word) = 2"
  "count_ones (6 :: 32 word) = 2" "count_ones (7 :: 32 word) = 3"
  "count_ones (0 :: 8 word) = 0" "count_ones (1 :: 8 word) = 1" "count_ones (2 :: 8 word) = 1"
  "count_ones (3 :: 8 word) = 2"
  by code_simp+

lemma count_ones_mask: "count_ones (ucast (node_mask nd) :: 32 word) = length (node_values nd)"
  by (cases "bn_exact nd"; cases "bn_star nd"; cases "bn_dot nd")
    (simp_all add: count_ones_small node_mask_def node_values_def mask_defs)

lemma slot_in_node_values:
  "if node_mask nd AND slot_test k \<noteq> 0
   then slot_skip k (node_mask nd) < length (node_values nd) \<and>
        get_slot k nd = Some (node_values nd ! slot_skip k (node_mask nd))
   else get_slot k nd = None"
  by (cases k; cases "bn_exact nd"; cases "bn_star nd"; cases "bn_dot nd")
    (simp_all add: count_ones_small node_mask_def node_values_def mask_defs)

subsection \<open>What sealing produces\<close>

definition lab :: "'v builder \<Rightarrow> nat \<Rightarrow> string" where
  "lab b c = map fst (labels b) ! bn_label (nodes b ! c)"

definition kids :: "'v builder \<Rightarrow> nat \<Rightarrow> nat list" where
  "kids b p = sort_key (lab b) (seg (edges b) p)"

definition sealed_of :: "'v builder \<Rightarrow> nat list \<Rightarrow> nat list \<Rightarrow> 'v sealed \<Rightarrow> bool" where
  "sealed_of b order first s \<longleftrightarrow>
     (let n = length (nodes b); (offs, bytes) = arena (map fst (labels b)) in
      n < 2 ^ 29 \<and> length bytes < 2 ^ 32 \<and>
      bfs_inv (kids b) n n order first \<and> length order = n \<and>
      s = \<lparr>s_nodes = emitted (nodes b) offs first order n @ [\<lparr>nd_label = 0, child_mask = word_of_nat n\<rparr>],
           s_values = nvals (nodes b) order, value_base = samples (nodes b) order n, s_labels = bytes\<rparr>)"

lemma wf_edges_less:
  assumes "wf_builder b" and "e \<in> set (edges b)"
  shows "fst (fst e) < snd e" and "snd e < length (nodes b)" and "0 < snd e"
proof -
  obtain p l c where e: "e = ((p, l), c)" by (metis prod.exhaust)
  show lt: "fst (fst e) < snd e" using wf_builderD(5) [OF assms(1)] assms(2) e by fastforce
  have "snd e \<in> set (map snd (edges b))" using assms(2) by simp
  then show "snd e < length (nodes b)" unfolding wf_builderD(4) [OF assms(1)] by simp
  show "0 < snd e" using lt by simp
qed

lemma in_seg_iff: "c \<in> set (seg es p) \<longleftrightarrow> (\<exists>l. ((p, l), c) \<in> set es)"
  by (force simp: seg_def)

lemma set_kids [simp]: "set (kids b p) = set (seg (edges b) p)"
  by (simp add: kids_def)

lemma length_kids [simp]: "length (kids b p) = length (seg (edges b) p)"
  by (simp add: kids_def)

lemma length_edges: "wf_builder b \<Longrightarrow> length (edges b) = length (nodes b) - 1"
  using arg_cong [OF wf_builderD(4), of b length] by simp

lemma distinct_seg: "wf_builder b \<Longrightarrow> distinct (seg (edges b) p)"
  unfolding seg_def by (rule distinct_map_filter) (simp add: wf_builderD(4))

lemma kids_disjoint:
  assumes "wf_builder b" and "p \<noteq> q"
  shows "set (kids b p) \<inter> set (kids b q) = {}"
proof -
  have "distinct (map snd (edges b))" by (simp add: wf_builderD(4) [OF assms(1)])
  then have "x = y" if "(x, c) \<in> set (edges b)" "(y, c) \<in> set (edges b)" for x y c
    using that inj_onD [of snd "set (edges b)" "(x, c)" "(y, c)"] by (simp add: distinct_map)
  then show ?thesis using assms(2) by (auto simp: in_seg_iff)
qed

lemma kids_cover:
  assumes "wf_builder b" and "0 < c" and "c < length (nodes b)"
  shows "\<exists>p < c. c \<in> set (kids b p)"
proof -
  have "c \<in> set (map snd (edges b))" unfolding wf_builderD(4) [OF assms(1)] using assms(2,3) by simp
  then obtain e where "e \<in> set (edges b)" "snd e = c" by auto
  then show ?thesis using wf_edges_less(1) [OF assms(1)] in_seg_iff set_kids
    by (metis prod.collapse)
qed

lemma wf_bn_label:
  assumes "wf_builder b" and "c < length (nodes b)"
  shows "bn_label (nodes b ! c) < length (labels b)"
proof (cases "c = 0")
  case True
  then show ?thesis using wf_builderD(6) [OF assms(1)] assms(2) by auto
next
  case False
  then obtain p where "c \<in> set (kids b p)" using kids_cover [OF assms(1) _ assms(2)] by blast
  then obtain l where "((p, l), c) \<in> set (edges b)" by (auto simp: in_seg_iff)
  then show ?thesis using wf_builderD(5) [OF assms(1)] by blast
qed

lemma into_sealed_of:
  assumes wf: "wf_builder b" and ne: "nodes b \<noteq> []"
    and n: "length (nodes b) < 2 ^ 29" and bytes: "sum_list (map (\<lambda>l. length (fst l) + 1) (labels b)) < 2 ^ 32"
  shows "\<exists>s order first. into_sealed b = Some s \<and> sealed_of b order first s"
proof -
  let ?n = "length (nodes b)"
  let ?es = "edges b"
  let ?f = "seg ?es"
  let ?L = "map fst (labels b)"
  let ?B = "map (\<lambda>p. psum ?f p + length (?f p)) [0..<?n] @ [psum ?f ?n]"
  have root: "ensure_root b = b" using ne by (simp add: ensure_root_def)
  have es: "\<forall>e \<in> set ?es. fst (fst e) < ?n" using wf_edges_less [OF wf] by fastforce
  have sg: "sort_group (nodes b) ?L (?f p) = Some (kids b p)" for p
    unfolding kids_def lab_def
    by (rule sort_group_key) (use wf_edges_less(2) [OF wf] wf_bn_label [OF wf] in \<open>fastforce simp: in_seg_iff\<close>)
  have K: "Option.bind (run ?B p) (\<lambda>(start, stop). slice (concat (map (kids b) [0..<?n])) start stop) =
      Some (kids b p)" if "p < ?n" for p
    using run_psum [OF that, of ?f] slice_psum [OF that, of "kids b" ?f] by simp
  have sub: "set (kids b p) \<subseteq> {0<..<?n} \<and> distinct (kids b p)" for p
    using wf_edges_less(2,3) [OF wf] distinct_seg [OF wf] by (fastforce simp: in_seg_iff kids_def)
  have "bfs_inv (kids b) ?n 0 [0] []" using ne by (simp add: bfs_inv_def)
  from bfs_loop_inv [OF K sub kids_disjoint [OF wf] this, of "?n + 1"]
  obtain order first where bfs: "bfs_loop (?n + 1) (\<lambda>p. Option.bind (run ?B p) (\<lambda>(start, stop).
        slice (concat (map (kids b) [0..<?n])) start stop)) 0 [0] [] = Some (order, first)"
    and inv: "bfs_inv (kids b) ?n (length order) order first" by auto
  have ord: "length order = ?n" "set order = {0..<?n}"
    using bfs_complete [OF inv] ne kids_cover [OF wf] by auto
  obtain offs byt where ar: "arena ?L = (offs, byt)" by (cases "arena ?L")
  have offs: "length offs = length (labels b)" using ar by (auto simp: arena_eq)
  have byt: "length byt = sum_list (map (\<lambda>l. length (fst l) + 1) (labels b))"
    using length_arena [of ?L] ar by (simp add: comp_def)
  have em: "emit_nodes (nodes b) offs first order =
      Some (emitted (nodes b) offs first order ?n, nvals (nodes b) order, samples (nodes b) order ?n)"
    using emit_nodes_eq [of order "nodes b" offs first] wf_bn_label [OF wf] ord offs inv n
    by (simp add: bfs_inv_def)
  have L: "label_by_id (labels b) = Some ?L" by (rule label_by_id_fst [OF wf_builderD(2) [OF wf]])
  have "into_sealed b = Some \<lparr>s_nodes = emitted (nodes b) offs first order ?n @ [\<lparr>nd_label = 0, child_mask = word_of_nat ?n\<rparr>],
      s_values = nvals (nodes b) order, value_base = samples (nodes b) order ?n, s_labels = byt\<rparr>"
    unfolding into_sealed_def root Let_def
    using n bytes bfs em L csr_counts_seg [OF es] csr_prefix_psum [of ?n ?f] csr_fill_seg [OF es]
      sort_groups_seg [of ?n "nodes b" ?L ?f "kids b"] sg length_edges [OF wf] ar
    by (simp add: MASK_SHIFT_def u32_try_def comp_def del: bfs_loop.simps upt_Suc)
  moreover have "sealed_of b order first \<lparr>s_nodes = emitted (nodes b) offs first order ?n @ [\<lparr>nd_label = 0, child_mask = word_of_nat ?n\<rparr>],
      s_values = nvals (nodes b) order, value_base = samples (nodes b) order ?n, s_labels = byt\<rparr>"
    unfolding sealed_of_def using inv ord(1) n bytes byt ar by (simp add: Let_def)
  ultimately show ?thesis by blast
qed

subsection \<open>Lookups in a sealed trie\<close>

lemma sealed_ofD:
  assumes "sealed_of b order first s"
  shows "length (nodes b) < 2 ^ 29" and "bfs_inv (kids b) (length (nodes b)) (length order) order first"
    and "length order = length (nodes b)"
    and "s_nodes s = emitted (nodes b) (fst (arena (map fst (labels b)))) first order (length order) @
           [\<lparr>nd_label = 0, child_mask = word_of_nat (length (nodes b))\<rparr>]"
    and "s_values s = nvals (nodes b) order" and "value_base s = samples (nodes b) order (length order)"
    and "s_labels s = snd (arena (map fst (labels b)))" and "length (s_labels s) < 2 ^ 32"
  using assms by (simp_all add: sealed_of_def Let_def split_beta)

lemma sealed_order_less: "sealed_of b order first s \<Longrightarrow> m < length order \<Longrightarrow> order ! m < length (nodes b)"
  using sealed_ofD(2) nth_mem unfolding bfs_inv_def by fastforce

lemma sealed_node:
  assumes "sealed_of b order first s" and "m < length order"
  shows "index (s_nodes s) m = Some (pack_node (fst (arena (map fst (labels b))) ! bn_label (nodes b ! (order ! m)))
      (first ! m) (nodes b ! (order ! m)))"
    and "length (s_nodes s) = length order + 1"
  using assms(2) by (simp_all add: sealed_ofD(4) [OF assms(1)] emitted_def nth_append)

lemma sealed_nth:
  assumes "sealed_of b order first s" and "m < length order"
  shows "s_nodes s ! m = pack_node (fst (arena (map fst (labels b))) ! bn_label (nodes b ! (order ! m)))
      (first ! m) (nodes b ! (order ! m))"
  using assms(2) by (simp add: sealed_ofD(4) [OF assms(1)] emitted_def nth_append)

lemma sealed_first:
  assumes "sealed_of b order first s" and "m < length order"
  shows "first ! m + length (kids b (order ! m)) =
      (if m + 1 < length order then first ! (m + 1) else length order)"
    and "first ! m + length (kids b (order ! m)) \<le> length order" and "first ! m < 2 ^ 29"
proof -
  note inv = sealed_ofD(2) [OF assms(1)]
  show e: "first ! m + length (kids b (order ! m)) =
      (if m + 1 < length order then first ! (m + 1) else length order)"
    by (rule bfs_first [OF inv assms(2)])
  have le: "first ! i \<le> length order" if "i < length order" for i
  proof -
    have "order = 0 # concat (map (kids b) (take i order)) @ concat (map (kids b) (drop i order))"
      using inv unfolding bfs_inv_def by (metis append_take_drop_id concat_append map_append order_refl take_all)
    then have "length order = 1 + length (concat (map (kids b) (take i order))) +
        length (concat (map (kids b) (drop i order)))"
      by (rule trans [OF arg_cong [of _ _ length]]) (simp del: length_concat)
    then have "1 + length (concat (map (kids b) (take i order))) \<le> length order" by linarith
    moreover have "first = map (\<lambda>m. 1 + length (concat (map (kids b) (take m order)))) [0..<length order]"
      using inv unfolding bfs_inv_def by (elim conjE)
    then have "first ! i = 1 + length (concat (map (kids b) (take i order)))" using that by simp
    ultimately show ?thesis by linarith
  qed
  show "first ! m + length (kids b (order ! m)) \<le> length order"
    unfolding e using le [of "m + 1"] by simp
  show "first ! m < 2 ^ 29"
    using le [OF assms(2)] sealed_ofD(1,3) [OF assms(1)] by linarith
qed

lemma sealed_children:
  assumes "sealed_of b order first s" and "m < length order"
  shows "children s m = Some (first ! m, map (\<lambda>j. s_nodes s ! (first ! m + j)) [0..<length (kids b (order ! m))])"
proof -
  note f = sealed_first [OF assms]
  have a: "index (s_nodes s) m = Some (pack_node (fst (arena (map fst (labels b))) ! bn_label (nodes b ! (order ! m)))
      (first ! m) (nodes b ! (order ! m)))" by (rule sealed_node(1) [OF assms])
  obtain x where x: "index (s_nodes s) (m + 1) = Some x"
    "first_child x = first ! m + length (kids b (order ! m))"
  proof (cases "m + 1 < length order")
    case True
    then show ?thesis using that sealed_node(1) [OF assms(1) True] f(1) sealed_first(3) [OF assms(1) True]
      by (simp add: first_child_pack)
  next
    case False
    then have "index (s_nodes s) (m + 1) = Some \<lparr>nd_label = 0, child_mask = word_of_nat (length (nodes b))\<rparr>"
      using assms(2) by (simp add: sealed_ofD(4) [OF assms(1)] emitted_def nth_append index_def)
    moreover have "first_child \<lparr>nd_label = 0, child_mask = word_of_nat (length (nodes b))\<rparr> = length (nodes b)"
      using pack_low [OF sealed_ofD(1) [OF assms(1)], of 0] by (simp add: first_child_def)
    ultimately show ?thesis using that f(1) False sealed_ofD(3) [OF assms(1)] by simp
  qed
  have "take (length (kids b (order ! m))) (drop (first ! m) (s_nodes s)) =
      map (\<lambda>j. s_nodes s ! (first ! m + j)) [0..<length (kids b (order ! m))]"
    using f(2) sealed_node(2) [OF assms] by (intro nth_equalityI) simp_all
  then show ?thesis
    using a x f(2,3) sealed_node(2) [OF assms] by (simp add: children_def first_child_pack slice_def)
qed

lemma child_iff:
  assumes "wf_builder b"
  shows "child b p l = Some c \<longleftrightarrow> c \<in> set (kids b p) \<and> lab b c = l"
proof -
  have keys: "map_of (labels b) l = Some i \<longleftrightarrow> i < length (labels b) \<and> map fst (labels b) ! i = l" for i
  proof -
    have sn: "snd (labels b ! j) = j" if "j < length (labels b)" for j
      using wf_builderD(2) [OF assms] that by (metis nth_map nth_upt add_0 length_map length_upt diff_zero)
    have "(l, i) \<in> set (labels b) \<longleftrightarrow> i < length (labels b) \<and> map fst (labels b) ! i = l"
    proof
      assume "(l, i) \<in> set (labels b)"
      then obtain j where "j < length (labels b)" "labels b ! j = (l, i)" by (auto simp: in_set_conv_nth)
      then show "i < length (labels b) \<and> map fst (labels b) ! i = l" using sn [of j] by simp
    next
      assume i: "i < length (labels b) \<and> map fst (labels b) ! i = l"
      then have "labels b ! i = (l, i)" using sn [of i] by (auto intro: prod_eqI)
      then show "(l, i) \<in> set (labels b)" using i nth_mem by metis
    qed
    then show ?thesis using map_of_eq_Some_iff [OF wf_builderD(1) [OF assms], of l i] by simp
  qed
  have "child b p l = Some c \<longleftrightarrow> (\<exists>i. map_of (labels b) l = Some i \<and> ((p, i), c) \<in> set (edges b))"
    using map_of_eq_Some_iff [OF wf_builderD(3) [OF assms]] by (simp add: child_def bind_eq_Some_conv)
  also have "\<dots> \<longleftrightarrow> (\<exists>i. ((p, i), c) \<in> set (edges b) \<and> lab b c = l)"
    using wf_builderD(5) [OF assms] unfolding keys lab_def by blast
  finally show ?thesis by (simp add: in_seg_iff)
qed

lemma sealed_cmp_label:
  assumes "sealed_of b order first s" and wf: "wf_builder b" and "m < length order"
  shows "cmp_label ci s (nd_label (s_nodes s ! m)) q =
    Some (compare (lab b (order ! m)) (if ci then to_ascii_lowercase q else q))"
proof -
  let ?L = "map fst (labels b)"
  let ?i = "bn_label (nodes b ! (order ! m))"
  obtain offs bytes where ar: "arena ?L = (offs, bytes)" by (cases "arena ?L")
  have i: "?i < length ?L" using wf_bn_label [OF wf sealed_order_less [OF assms(1,3)]] by simp
  note d = arena_drop [OF ar i]
  have lt: "offs ! ?i < 2 ^ 32" using d(2) sealed_ofD(7,8) [OF assms(1)] ar by simp
  have nd: "nd_label (s_nodes s ! m) = word_of_nat (offs ! ?i)"
    using sealed_node [OF assms(1,3)] ar assms(3) by (simp add: index_def pack_node_def)
  have "(?L ! ?i, snd (labels b ! ?i)) \<in> set (labels b)" using i by simp
  then have "CHR ''.'' \<notin> set (lab b (order ! m))" unfolding lab_def by (rule wf_builderD(7) [OF wf])
  then have "cmp_bytes ci (drop (offs ! ?i) bytes) q =
      Some (compare (lab b (order ! m)) (if ci then to_ascii_lowercase q else q))"
    unfolding d(3) lab_def by (rule cmp_bytes_compare)
  then show ?thesis
    using d(2) lt sealed_ofD(7) [OF assms(1)] ar unfolding cmp_label_def nd by (simp add: unat_word32)
qed

lemma compare_mono: "monotone_cmp (\<lambda>i. compare (xs ! i) q) (length xs)" if "sorted xs"
  using sorted_nth_mono [OF that] unfolding monotone_cmp_def compare_def
  by (metis (full_types) leD le_less_trans less_le_trans not_less_iff_gr_or_eq ordering.distinct(1,3,5) order.strict_trans)

lemma compare_Equal [simp]: "compare a b = Equal \<longleftrightarrow> a = b"
  by (simp add: compare_def)

lemma sealed_find_child:
  fixes ci :: bool and l :: string
  assumes seal: "sealed_of b order first s" and wf: "wf_builder b" and m: "m < length order"
  defines "q \<equiv> if ci then to_ascii_lowercase l else l"
  shows "(\<exists>c < length order. find_child ci s m l = Some (Some c) \<and> child b (order ! m) q = Some (order ! c)) \<or>
    (find_child ci s m l = Some None \<and> child b (order ! m) q = None)"
proof -
  let ?k = "kids b (order ! m)"
  let ?cs = "map (\<lambda>j. s_nodes s ! (first ! m + j)) [0..<length ?k]"
  let ?g = "\<lambda>j. compare (map (lab b) ?k ! j) q"
  note bc = bfs_children [OF sealed_ofD(2) [OF seal] m]
  have cmp: "cmp_label ci s (nd_label (?cs ! j)) l = Some (?g j)" if "j < length ?cs" for j
    using sealed_cmp_label [OF seal wf bc(1)] bc(2) that by (simp add: q_def)
  have "sorted (map (lab b) ?k)" by (simp add: kids_def)
  then have mono: "monotone_cmp ?g (length ?cs)" using compare_mono [of "map (lab b) ?k" q] by simp
  obtain r where r: "binary_search_by (\<lambda>c. cmp_label ci s (nd_label c) l) ?cs = Some r"
    and res: "case r of Inr i \<Rightarrow> i < length ?cs \<and> ?g i = Equal
      | Inl i \<Rightarrow> i \<le> length ?cs \<and> (\<forall>j < i. ?g j = Less) \<and> (\<forall>j. i \<le> j \<longrightarrow> j < length ?cs \<longrightarrow> ?g j = Greater)"
    using binary_search_by_correct [where f = "\<lambda>c. cmp_label ci s (nd_label c) l", OF cmp mono] by blast
  have fc: "find_child ci s m l = Some (case r of Inr i \<Rightarrow> Some (first ! m + i) | Inl _ \<Rightarrow> None)"
    using r sealed_children [OF seal m] by (simp add: find_child_def)
  show ?thesis
  proof (cases r)
    case (Inr i)
    then have i: "i < length ?k" using res by simp
    with Inr have "lab b (?k ! i) = q" using res by simp
    then have "child b (order ! m) q = Some (?k ! i)" using child_iff [OF wf] nth_mem i by blast
    then show ?thesis using fc Inr bc [OF i] by auto
  next
    case (Inl i)
    have "lab b (?k ! j) \<noteq> q" if "j < length ?k" for j
    proof -
      have "?g j = Less \<or> ?g j = Greater" using res Inl that by (cases "j < i") (simp_all del: nth_map length_kids)
      then show ?thesis using that by (auto simp: compare_def)
    qed
    then have "child b (order ! m) q \<noteq> Some c" for c
      unfolding child_iff [OF wf] in_set_conv_nth by blast
    then have "child b (order ! m) q = None" by (cases "child b (order ! m) q") auto
    then show ?thesis using fc Inl by simp
  qed
qed

lemma sealed_value_index:
  assumes "sealed_of b order first s" and "m < length order"
  shows "value_index False s m = Some (length (nvals (nodes b) (take m order)))"
proof -
  let ?j = "m div 32"
  let ?ns = "nodes b"
  have lt: "length (nvals ?ns (take (32 * ?j) order)) < 2 ^ 32"
  proof -
    have "length (nvals ?ns (take (32 * ?j) order)) \<le> 3 * length (take (32 * ?j) order)" by (rule length_nvals)
    also have "\<dots> \<le> 3 * length order" by simp
    also have "\<dots> < 2 ^ 32" using sealed_ofD(1,3) [OF assms(1)] by simp
    finally show ?thesis .
  qed
  have j: "?j < (length order + 31) div 32" using assms(2) by simp
  have base: "index (value_base s) ?j = Some (word_of_nat (length (nvals ?ns (take (32 * ?j) order))))"
    using j by (simp add: sealed_ofD(6) [OF assms(1)] samples_def)
  have sl: "slice (s_nodes s) (?j * VALUE_BLOCK) m = Some (map ((!) (s_nodes s)) [32 * ?j..<m])"
    unfolding slice_def using assms(2) sealed_node(2) [OF assms]
    by (auto simp: VALUE_BLOCK_def mult.commute intro!: nth_equalityI)
  have "foldl (\<lambda>idx nd. idx + count_ones (drop_bit MASK_SHIFT (child_mask nd))) (length (nvals ?ns (take (32 * ?j) order)))
      (map ((!) (s_nodes s)) [32 * ?j..<32 * ?j + d]) = length (nvals ?ns (take (32 * ?j + d) order))"
    if "32 * ?j + d \<le> m" for d
    using that
  proof (induction d)
    case (Suc d)
    have i: "32 * ?j + d < length order" using Suc.prems assms(2) by simp
    have "count_ones (drop_bit MASK_SHIFT (child_mask (s_nodes s ! (32 * ?j + d)))) =
        length (node_values (?ns ! (order ! (32 * ?j + d))))"
      unfolding sealed_nth [OF assms(1) i] mask_pack(1) [OF sealed_first(3) [OF assms(1) i]]
      by (rule count_ones_mask)
    then show ?case using Suc i by (simp add: take_Suc_conv_app_nth del: length_concat)
  qed simp
  from this [of "m - 32 * ?j"] show ?thesis
    using base sl lt by (simp add: value_index_def VALUE_BLOCK_def Let_def unat_word32 del: length_concat)
qed

lemma sealed_slot_eq:
  assumes seal: "sealed_of b order first s" and m: "m < length order"
    and zst: "zst \<Longrightarrow> \<forall>x y :: 'v. x = y"
  shows "sealed_slot zst s m k = Some (get_slot k ((nodes b :: 'v build_node list) ! (order ! m)))"
proof -
  let ?nd = "nodes b ! (order ! m)"
  let ?i = "length (nvals (nodes b) (take m order))"
  have mk: "index (s_nodes s) m = Some nd \<Longrightarrow> nd_mask nd = node_mask ?nd" for nd
    using sealed_node(1) [OF seal m] mask_pack(2) [OF sealed_first(3) [OF seal m]] by (metis option.inject)
  obtain nd where nd: "index (s_nodes s) m = Some nd" using sealed_node(1) [OF seal m] by blast
  have vals: "s_values s = nvals (nodes b) (take m order) @ node_values ?nd @ nvals (nodes b) (drop (Suc m) order)"
    unfolding sealed_ofD(5) [OF seal] by (subst id_take_nth_drop [OF m]) simp
  show ?thesis
  proof (cases "node_mask ?nd AND slot_test k = 0")
    case True
    then show ?thesis using slot_in_node_values [of ?nd k] nd mk [OF nd] by (simp add: sealed_slot_def)
  next
    case False
    then have v: "slot_skip k (node_mask ?nd) < length (node_values ?nd)"
      "get_slot k ?nd = Some (node_values ?nd ! slot_skip k (node_mask ?nd))"
      using slot_in_node_values [of ?nd k] by simp_all
    have hit: "index (s_values s) (?i + slot_skip k (node_mask ?nd)) =
        Some (node_values ?nd ! slot_skip k (node_mask ?nd))"
      using v(1) unfolding vals by (simp add: index_def nth_append del: length_concat)
    have "index (s_values s) ((if zst then 0 else ?i) + slot_skip k (node_mask ?nd)) =
        Some (node_values ?nd ! slot_skip k (node_mask ?nd))"
      using hit zst by (cases zst) (auto simp: index_def split: if_splits)
    moreover have "value_index zst s m = Some (if zst then 0 else ?i)"
      using sealed_value_index [OF seal m] by (cases zst) (simp_all add: value_index_def)
    ultimately show ?thesis using False nd mk [OF nd] v(2) by (simp add: sealed_slot_def)
  qed
qed

lemma into_sealed_root: "into_sealed (ensure_root b) = into_sealed b"
  by (simp add: into_sealed_def ensure_root_def Let_def)

lemma into_sealed_limits:
  assumes "wf_builder b" and "nodes b \<noteq> []" and "into_sealed b = Some s"
  shows "length (nodes b) < 2 ^ 29" and "sum_list (map (\<lambda>l. length (fst l) + 1) (labels b)) < 2 ^ 32"
proof -
  have root: "ensure_root b = b" using assms(2) by (simp add: ensure_root_def)
  show "length (nodes b) < 2 ^ 29"
    using assms(3) by (simp add: into_sealed_def root Let_def MASK_SHIFT_def split: if_splits)
  obtain v where "u32_try (sum_list (map (\<lambda>l. length l + 1) (map fst (labels b)))) = Some v"
    using assms(3) label_by_id_fst [OF wf_builderD(2) [OF assms(1)]]
    by (auto simp: into_sealed_def root Let_def bind_eq_Some_conv simp del: bfs_loop.simps split: if_splits)
  then show "sum_list (map (\<lambda>l. length (fst l) + 1) (labels b)) < 2 ^ 32"
    by (simp add: u32_try_def comp_def split: if_splits)
qed

lemma into_sealed_sealed_of:
  assumes "wf_builder b" and "into_sealed b = Some s"
  shows "\<exists>order first. sealed_of (ensure_root b) order first s"
proof -
  have wf: "wf_builder (ensure_root b)" by (rule wf_ensure_root [OF assms(1)])
  have s: "into_sealed (ensure_root b) = Some s" using assms(2) by (simp add: into_sealed_root)
  show ?thesis
    using into_sealed_of [OF wf _ into_sealed_limits [OF wf _ s]] s by auto
qed

subsection \<open>A sealed trie is a label tree\<close>

text \<open>The state is the sealed trie with the builder it was made from and the size of its values.\<close>

type_synonym 'v sealed_trie = "bool \<times> 'v builder \<times> 'v sealed"

definition valid_sealed :: "'v sealed_trie \<Rightarrow> bool" where
  "valid_sealed = (\<lambda>(zst, b, s). wf_builder b \<and> into_sealed b = Some s \<and> (zst \<longrightarrow> (\<forall>x y :: 'v. x = y)))"

definition located_sealed :: "'v sealed_trie \<Rightarrow> nat \<Rightarrow> string list \<Rightarrow> bool" where
  "located_sealed = (\<lambda>(zst, b, s) m p. \<exists>order first. sealed_of (ensure_root b) order first s \<and>
     m < length order \<and> walk (ensure_root b) 0 p = Some (order ! m))"

lemma located_sealed_root:
  assumes "valid_sealed t"
  shows "located_sealed t 0 []"
proof -
  obtain zst b s where t: "t = (zst, b, s)" by (metis prod.exhaust)
  then obtain order first where seal: "sealed_of (ensure_root b) order first s"
    using assms into_sealed_sealed_of by (fastforce simp: valid_sealed_def)
  have "order = 0 # concat (map (kids (ensure_root b)) (take (length order) order))"
    using sealed_ofD(2) [OF seal] unfolding bfs_inv_def by (elim conjE)
  then have "order ! 0 = 0" "0 < length order" by (metis nth_Cons_0, metis length_greater_0_conv list.discI)
  with seal t show ?thesis unfolding located_sealed_def by auto
qed

lemma located_sealed_slot:
  assumes "valid_sealed t" and "located_sealed t m p"
  shows "(\<lambda>(z, b, s). sealed_slot z s) t m k = Some ((\<lambda>(z, b, s). slots b) t p k)"
proof -
  obtain zst b s where t: "t = (zst, b, s)" by (metis prod.exhaust)
  from assms(2) t obtain order first where seal: "sealed_of (ensure_root b) order first s"
    and m: "m < length order" "walk (ensure_root b) 0 p = Some (order ! m)"
    by (auto simp: located_sealed_def)
  have "slots (ensure_root b) p k = slots b p k"
    using ensure_root_slots assms(1) t by (auto simp: valid_sealed_def)
  moreover have "slots (ensure_root b) p k = get_slot k (nodes (ensure_root b) ! (order ! m))"
    using m(2) by (simp add: slots_def)
  ultimately show ?thesis
    using sealed_slot_eq [OF seal m(1), of zst k] assms(1) t by (simp add: valid_sealed_def)
qed

lemma located_sealed_child:
  fixes ci :: bool
  assumes "valid_sealed t" and "located_sealed t m p"
  defines "q \<equiv> \<lambda>l. if ci then to_ascii_lowercase l else l"
  shows "(\<exists>c. (\<lambda>(z, b, s). find_child ci s) t m l = Some (Some c) \<and> located_sealed t c (p @ [q l])) \<or>
    (\<lambda>(z, b, s). find_child ci s) t m l = Some None \<and>
      (\<forall>r k. (\<lambda>(z, b, s). slots b) t (p @ q l # r) k = None)"
proof -
  obtain zst b s where t: "t = (zst, b, s)" by (metis prod.exhaust)
  from assms(2) t obtain order first where seal: "sealed_of (ensure_root b) order first s"
    and m: "m < length order" "walk (ensure_root b) 0 p = Some (order ! m)"
    by (auto simp: located_sealed_def)
  have wfb: "wf_builder b" using assms(1) t by (simp add: valid_sealed_def)
  have "(\<exists>c < length order. find_child ci s m l = Some (Some c) \<and>
        child (ensure_root b) (order ! m) (q l) = Some (order ! c)) \<or>
      find_child ci s m l = Some None \<and> child (ensure_root b) (order ! m) (q l) = None"
    unfolding q_def by (rule sealed_find_child [OF seal wf_ensure_root [OF wfb] m(1)])
  then show ?thesis
  proof
    assume "\<exists>c < length order. find_child ci s m l = Some (Some c) \<and>
        child (ensure_root b) (order ! m) (q l) = Some (order ! c)"
    then show ?thesis using seal m(2) unfolding t located_sealed_def by (auto simp: walk_append)
  next
    assume n: "find_child ci s m l = Some None \<and> child (ensure_root b) (order ! m) (q l) = None"
    then have "slots (ensure_root b) (p @ q l # r) k = None" for r k using slots_no_child [OF m(2)] by blast
    then show ?thesis using n unfolding t by (simp add: ensure_root_slots [OF wfb])
  qed
qed

interpretation st: label_tree valid_sealed "0 :: nat" "\<lambda>(z, b, s). find_child False s"
  "\<lambda>(z, b, s). sealed_slot z s" located_sealed "\<lambda>(z, b, s). slots b" "\<lambda>l. l"
  by unfold_locales (use located_sealed_child [where ci = False] in
    \<open>simp_all add: located_sealed_root located_sealed_slot\<close>)

interpretation st_ci: label_tree valid_sealed "0 :: nat" "\<lambda>(z, b, s). find_child True s"
  "\<lambda>(z, b, s). sealed_slot z s" located_sealed "\<lambda>(z, b, s). slots b" to_ascii_lowercase
  by unfold_locales (use located_sealed_child [where ci = True] in
    \<open>simp_all add: located_sealed_root located_sealed_slot\<close>)

end
