(* ===== verification/Domain_Trie.thy ===== *)
theory Domain_Trie
  imports Trie_Sealed
begin

section \<open>Domain trie: the public interface\<close>

text \<open>
  \<^verbatim>\<open>DomainTrie\<close> of \<^verbatim>\<open>meow-trie/src/trie.rs\<close>: pattern parsing and insertion, sealing and the three
  searches. Two arguments stand for what the type parameter and the standard library decide:
  \<open>lowercase\<close> is \<^verbatim>\<open>str::to_lowercase\<close> (full Unicode), called only when the key has an upper-case or
  a non-ASCII byte, and \<open>zst\<close> is \<^verbatim>\<open>size_of::<T>() == 0\<close>. The theorems relate a trie to the list of
  keys inserted into it, by the textual meaning of a key.
\<close>

datatype 'v trie_state = Building "'v builder" | Sealed "'v sealed"

record 'v domain_trie =
  trie_state :: "'v trie_state"
  trie_len :: nat

definition trie_new :: "'v domain_trie" where
  "trie_new = \<lparr>trie_state = Building builder_new, trie_len = 0\<rparr>"

definition insert_into_tree ::
  "'v domain_trie \<Rightarrow> string \<Rightarrow> 'v \<Rightarrow> match_kind \<Rightarrow> insert_mode \<Rightarrow> 'v domain_trie panics" where
  "insert_into_tree t base v k mode =
     (case trie_state t of
        Building b \<Rightarrow> map_option (\<lambda>b. t\<lparr>trie_state := Building b\<rparr>) (builder_insert b base v k mode)
      | Sealed s \<Rightarrow> Some t)"

definition insert_inner ::
  "(string \<Rightarrow> string) \<Rightarrow> 'v domain_trie \<Rightarrow> string \<Rightarrow> 'v \<Rightarrow> insert_mode \<Rightarrow>
   (bool \<times> 'v domain_trie) panics" where
  "insert_inner lowercase t key v mode =
     (let trimmed = trim key;
          d = (if list_ex (\<lambda>c. is_ascii_uppercase c \<or> \<not> is_ascii_byte c) trimmed
               then lowercase trimmed else trimmed) in
      if trim_end_dots d = [] then Some (False, t)
      else case strip_prefix ''+.'' d of
        Some rest \<Rightarrow>
          (let rest = trim_end_dots rest in
           if rest = [] then Some (False, t)
           else Option.bind (insert_into_tree t rest v Exact mode) (\<lambda>t.
                Option.bind (insert_into_tree t rest v Dot mode) (\<lambda>t.
                  Some (True, t\<lparr>trie_len := trie_len t + 2\<rparr>))))
      | None \<Rightarrow> (case strip_prefix ''*.'' d of
        Some rest \<Rightarrow>
          (let rest = trim_end_dots rest in
           if rest = [] then Some (False, t)
           else Option.bind (insert_into_tree t rest v Star mode) (\<lambda>t.
                  Some (True, t\<lparr>trie_len := trie_len t + 1\<rparr>)))
      | None \<Rightarrow> (case strip_prefix ''.'' d of
        Some rest \<Rightarrow>
          (let rest = trim_end_dots rest in
           if rest = [] then Some (False, t)
           else Option.bind (insert_into_tree t rest v Dot mode) (\<lambda>t.
                  Some (True, t\<lparr>trie_len := trie_len t + 1\<rparr>)))
      | None \<Rightarrow>
          Option.bind (insert_into_tree t (trim_end_dots d) v Exact mode) (\<lambda>t.
            Some (True, t\<lparr>trie_len := trie_len t + 1\<rparr>)))))"

definition trie_insert ::
  "(string \<Rightarrow> string) \<Rightarrow> 'v domain_trie \<Rightarrow> string \<Rightarrow> 'v \<Rightarrow> (bool \<times> 'v domain_trie) panics" where
  "trie_insert lowercase t key v = insert_inner lowercase t key v FirstWins"

definition insert_overwrite ::
  "(string \<Rightarrow> string) \<Rightarrow> 'v domain_trie \<Rightarrow> string \<Rightarrow> 'v \<Rightarrow> (bool \<times> 'v domain_trie) panics" where
  "insert_overwrite lowercase t key v = insert_inner lowercase t key v Overwrite"

definition seal :: "'v domain_trie \<Rightarrow> 'v domain_trie panics" where
  "seal t =
     (case trie_state t of
        Building b \<Rightarrow> map_option (\<lambda>s. t\<lparr>trie_state := Sealed s\<rparr>) (into_sealed b)
      | Sealed s \<Rightarrow> Some t)"

definition search_best :: "bool \<Rightarrow> bool \<Rightarrow> 'v domain_trie \<Rightarrow> string \<Rightarrow> 'v option panics" where
  "search_best zst ci t query =
     (let n = label_count query in
      case trie_state t of
        Building b \<Rightarrow>
          search_best_loop (\<lambda>node l. Some (if ci then child_ci b node l else child b node l))
            (builder_slot b) n 0 0 (rsplit_on CHR ''.'' query) None
      | Sealed s \<Rightarrow>
          search_best_loop (find_child ci s) (sealed_slot zst s) n 0 0 (rsplit_on CHR ''.'' query) None)"

definition search :: "bool \<Rightarrow> 'v domain_trie \<Rightarrow> string \<Rightarrow> 'v option panics" where
  "search zst t host =
     (if trie_len t = 0 then Some None
      else let trimmed = trim host; query = trim_end_dots trimmed in
        if query = [] then Some None
        else search_best zst (list_ex is_ascii_uppercase trimmed) t query)"

definition search_normalized :: "bool \<Rightarrow> 'v domain_trie \<Rightarrow> string \<Rightarrow> 'v option panics" where
  "search_normalized zst t host =
     (if trie_len t = 0 then Some None
      else let query = trim_end_dots host in
        if query = [] then Some None else search_best zst False t query)"

definition search_min_normalized ::
  "bool \<Rightarrow> ('v :: linorder) domain_trie \<Rightarrow> string \<Rightarrow> 'v option panics" where
  "search_min_normalized zst t host =
     (if trie_len t = 0 then Some None
      else let query = trim_end_dots host in
        if query = [] then Some None
        else let n = label_count query in
          case trie_state t of
            Building b \<Rightarrow>
              search_min_loop (\<le>) (\<lambda>node l. Some (child b node l)) (builder_slot b) n 0 0
                (rsplit_on CHR ''.'' query) None
          | Sealed s \<Rightarrow>
              search_min_loop (\<le>) (find_child False s) (sealed_slot zst s) n 0 0
                (rsplit_on CHR ''.'' query) None)"

definition trie_is_empty :: "'v domain_trie \<Rightarrow> bool" where
  "trie_is_empty t \<longleftrightarrow> trie_len t = 0"

subsection \<open>Well-formed tries\<close>

text \<open>
  \<open>trie_from t b\<close>: the trie is the builder \<open>b\<close> or what sealing \<open>b\<close> gives. Inserts into a sealed
  trie only bump the counter, so a sealed trie may count more than it holds.
\<close>

definition trie_from :: "'v domain_trie \<Rightarrow> 'v builder \<Rightarrow> bool" where
  "trie_from t b \<longleftrightarrow> wf_builder b \<and> (trie_len t = 0 \<longrightarrow> nodes b = []) \<and>
     (case trie_state t of
        Building b' \<Rightarrow> b' = b \<and> (nodes b = [] \<longrightarrow> trie_len t = 0)
      | Sealed s \<Rightarrow> into_sealed b = Some s)"

definition zst_ok :: "bool \<Rightarrow> 'v itself \<Rightarrow> bool" where
  "zst_ok zst (ty :: 'v itself) \<longleftrightarrow> (zst \<longrightarrow> (\<forall>x y :: 'v. x = y))"

lemma rsplit_dotfree: "\<forall>l \<in> set (rsplit_on CHR ''.'' q). CHR ''.'' \<notin> set l"
  using rsplit_on_no_sep by blast

lemma search_best_table:
  fixes t :: "'v domain_trie"
  assumes "trie_from t b" and "trie_len t \<noteq> 0" and "zst_ok zst TYPE('v)"
  shows "search_best zst ci t q =
    Some (table_best (slots b) [] (map (if ci then to_ascii_lowercase else (\<lambda>l. l)) (rsplit_on CHR ''.'' q)) None)"
proof (cases "trie_state t")
  case (Building b')
  then have v: "valid_builder b" and b': "b' = b" using assms(1,2) by (auto simp: trie_from_def valid_builder_def)
  show ?thesis
    using bt.search_best_loop_table [OF v bt.root_located [OF v] rsplit_dotfree, of "label_count q" 0]
      bt_ci.search_best_loop_table [OF v bt_ci.root_located [OF v] rsplit_dotfree, of "label_count q" 0]
    by (cases ci) (simp_all add: search_best_def Building b' label_count_rsplit)
next
  case (Sealed s)
  then have v: "valid_sealed (zst, b, s)" using assms by (auto simp: trie_from_def valid_sealed_def zst_ok_def)
  show ?thesis
    using st.search_best_loop_table [OF v st.root_located [OF v] rsplit_dotfree, of "label_count q" 0]
      st_ci.search_best_loop_table [OF v st_ci.root_located [OF v] rsplit_dotfree, of "label_count q" 0]
    by (cases ci) (simp_all add: search_best_def Sealed label_count_rsplit)
qed

lemma search_min_table:
  fixes t :: "('v :: linorder) domain_trie"
  assumes "trie_from t b" and "zst_ok zst TYPE('v)"
  shows "search_min_normalized zst t host =
    Some (if trie_len t = 0 \<or> trim_end_dots host = [] then None
          else table_min (\<le>) (slots b) [] (rsplit_on CHR ''.'' (trim_end_dots host)) None)"
proof (cases "trie_len t = 0 \<or> trim_end_dots host = []")
  case True
  then show ?thesis by (auto simp: search_min_normalized_def)
next
  case False
  then have len: "trie_len t \<noteq> 0" by simp
  show ?thesis
  proof (cases "trie_state t")
    case (Building b')
    then have v: "valid_builder b" and b': "b' = b" using assms(1) len by (auto simp: trie_from_def valid_builder_def)
    show ?thesis using False
      bt.search_min_loop_table [OF v bt.root_located [OF v] rsplit_dotfree, of "label_count (trim_end_dots host)" 0]
      by (simp add: search_min_normalized_def Building b' label_count_rsplit)
  next
    case (Sealed s)
    then have v: "valid_sealed (zst, b, s)" using assms by (auto simp: trie_from_def valid_sealed_def zst_ok_def)
    show ?thesis using False
      st.search_min_loop_table [OF v st.root_located [OF v] rsplit_dotfree, of "label_count (trim_end_dots host)" 0]
      by (simp add: search_min_normalized_def Sealed label_count_rsplit)
  qed
qed

subsection \<open>What a key means\<close>

definition normal_key :: "(string \<Rightarrow> string) \<Rightarrow> string \<Rightarrow> string" where
  "normal_key lowercase key =
     (let trimmed = trim key in
      if list_ex (\<lambda>c. is_ascii_uppercase c \<or> \<not> is_ascii_byte c) trimmed then lowercase trimmed else trimmed)"

text \<open>The slots a normalised key writes: \<^verbatim>\<open>+.\<close> two of them, a key of dots only none.\<close>

definition key_slots :: "string \<Rightarrow> (string list \<times> match_kind) list" where
  "key_slots d =
     (let (r, ks) =
        (case strip_prefix ''+.'' d of Some r \<Rightarrow> (r, [Exact, Dot])
         | None \<Rightarrow> (case strip_prefix ''*.'' d of Some r \<Rightarrow> (r, [Star])
         | None \<Rightarrow> (case strip_prefix ''.'' d of Some r \<Rightarrow> (r, [Dot])
         | None \<Rightarrow> (d, [Exact])))) in
      if trim_end_dots r = [] then [] else map (Pair (rsplit_on CHR ''.'' (trim_end_dots r))) ks)"

text \<open>The same in terms of the texts: \<open>d\<close> a normalised key, \<open>q\<close> a host without trailing dots.\<close>

definition key_matches :: "string \<Rightarrow> string \<Rightarrow> bool" where
  "key_matches d q =
     (case strip_prefix ''+.'' d of
        Some r \<Rightarrow> trim_end_dots r \<noteq> [] \<and> (q = trim_end_dots r \<or> suffix (CHR ''.'' # trim_end_dots r) q)
      | None \<Rightarrow> (case strip_prefix ''*.'' d of
        Some r \<Rightarrow> trim_end_dots r \<noteq> [] \<and> suffix (CHR ''.'' # trim_end_dots r) q \<and>
          CHR ''.'' \<notin> set (take (length q - length (trim_end_dots r) - 1) q)
      | None \<Rightarrow> (case strip_prefix ''.'' d of
        Some r \<Rightarrow> trim_end_dots r \<noteq> [] \<and> suffix (CHR ''.'' # trim_end_dots r) q
      | None \<Rightarrow> trim_end_dots d \<noteq> [] \<and> q = trim_end_dots d)))"

lemma split_on_sep: "split_on c (x @ c # r) = split_on c x @ split_on c r"
  by (induction x) (auto split: list.splits)

fun join :: "char \<Rightarrow> string list \<Rightarrow> string" where
  "join c [] = []"
| "join c [l] = l"
| "join c (l # ls) = l @ c # join c ls"

lemma join_Cons_char: "ls \<noteq> [] \<Longrightarrow> join c ((x # hd ls) # tl ls) = x # join c ls"
  by (cases ls; cases "tl ls") auto

lemma join_split: "join c (split_on c s) = s"
proof (induction s)
  case (Cons x s)
  obtain l ls where l: "split_on c s = l # ls" by (cases "split_on c s") auto
  with Cons show ?case by (cases ls) auto
qed simp

lemma join_append: "ls \<noteq> [] \<Longrightarrow> ms \<noteq> [] \<Longrightarrow> join c (ls @ ms) = join c ls @ c # join c ms"
proof (induction ls)
  case (Cons l ls)
  then show ?case by (cases ls; cases ms) auto
qed simp

lemma split_on_inject: "split_on c a = split_on c b \<longleftrightarrow> a = b"
  by (metis join_split)

lemma length_split_on: "length (split_on c x) = Suc (length (filter ((=) c) x))"
  by (induction x) (auto split: list.splits)

lemma split_on_suffix:
  "(\<exists>ls. ls \<noteq> [] \<and> split_on c q = ls @ split_on c r) \<longleftrightarrow> suffix (c # r) q"
proof
  assume "\<exists>ls. ls \<noteq> [] \<and> split_on c q = ls @ split_on c r"
  then obtain ls where "ls \<noteq> []" "split_on c q = ls @ split_on c r" by blast
  then have "join c (split_on c q) = join c ls @ c # join c (split_on c r)" using join_append by simp
  then show "suffix (c # r) q" by (auto simp: join_split suffix_def)
next
  assume "suffix (c # r) q"
  then obtain x where "q = x @ c # r" by (auto simp: suffix_def)
  then show "\<exists>ls. ls \<noteq> [] \<and> split_on c q = ls @ split_on c r" by (auto simp: split_on_sep)
qed

lemma covers_text:
  fixes r q :: string
  shows "covers (rsplit_on CHR ''.'' r) Exact (rsplit_on CHR ''.'' q) \<longleftrightarrow> q = r"
    and "covers (rsplit_on CHR ''.'' r) Dot (rsplit_on CHR ''.'' q) \<longleftrightarrow> suffix (CHR ''.'' # r) q"
    and "covers (rsplit_on CHR ''.'' r) Star (rsplit_on CHR ''.'' q) \<longleftrightarrow>
      suffix (CHR ''.'' # r) q \<and> CHR ''.'' \<notin> set (take (length q - length r - 1) q)"
proof -
  let ?s = "split_on CHR ''.''"
  have pre: "strict_prefix (rev (?s r)) (rev (?s q)) \<longleftrightarrow> suffix (CHR ''.'' # r) q"
  proof -
    have "strict_prefix (rev (?s r)) (rev (?s q)) \<longleftrightarrow> (\<exists>ls. ls \<noteq> [] \<and> ?s q = ls @ ?s r)"
      unfolding strict_prefix_def prefix_def
      by (auto simp: rev_swap) (metis rev_append rev_rev_ident rev_is_Nil_conv)+
    then show ?thesis using split_on_suffix by simp
  qed
  show "covers (rsplit_on CHR ''.'' r) Exact (rsplit_on CHR ''.'' q) \<longleftrightarrow> q = r"
    by (auto simp: rsplit_on_def split_on_inject)
  show "covers (rsplit_on CHR ''.'' r) Dot (rsplit_on CHR ''.'' q) \<longleftrightarrow> suffix (CHR ''.'' # r) q"
    using pre by (simp add: rsplit_on_def)
  have "length (?s q) = length (?s r) + 1 \<longleftrightarrow> CHR ''.'' \<notin> set (take (length q - length r - 1) q)"
    if "suffix (CHR ''.'' # r) q"
  proof -
    from that obtain x where q: "q = x @ CHR ''.'' # r" by (auto simp: suffix_def)
    have "?s q = ?s x @ ?s r" unfolding q by (rule split_on_sep)
    then show ?thesis unfolding q by (auto simp: length_split_on filter_empty_conv)
  qed
  moreover have "covers (rsplit_on CHR ''.'' r) Star (rsplit_on CHR ''.'' q) \<longleftrightarrow>
      strict_prefix (rev (?s r)) (rev (?s q)) \<and> length (?s q) = length (?s r) + 1"
    by (auto simp: rsplit_on_def strict_prefix_def)
  ultimately show "covers (rsplit_on CHR ''.'' r) Star (rsplit_on CHR ''.'' q) \<longleftrightarrow>
      suffix (CHR ''.'' # r) q \<and> CHR ''.'' \<notin> set (take (length q - length r - 1) q)"
    using pre by auto
qed

lemma key_matches_slots:
  "key_matches d q \<longleftrightarrow> (\<exists>(p, k) \<in> set (key_slots d). covers p k (rsplit_on CHR ''.'' q))"
  by (cases "strip_prefix ''+.'' d"; cases "strip_prefix ''*.'' d"; cases "strip_prefix ''.'' d")
    (simp_all add: key_matches_def key_slots_def covers_text del: covers.simps)

subsection \<open>Building a trie from a list of keys\<close>

fun insert_all ::
  "(string \<Rightarrow> string) \<Rightarrow> 'v domain_trie \<Rightarrow> (string \<times> 'v \<times> insert_mode) list \<Rightarrow> 'v domain_trie panics" where
  "insert_all lowercase t [] = Some t"
| "insert_all lowercase t ((key, v, mode) # es) =
     Option.bind (insert_inner lowercase t key v mode) (\<lambda>(ok, t). insert_all lowercase t es)"

text \<open>The table the keys denote, written without a trie.\<close>

definition put_key :: "'v table \<Rightarrow> string \<Rightarrow> 'v \<Rightarrow> insert_mode \<Rightarrow> 'v table" where
  "put_key T d v mode = (\<lambda>p k. if (p, k) \<in> set (key_slots d) then write_slot mode v (T p k) else T p k)"

fun keys_table :: "(string \<Rightarrow> string) \<Rightarrow> 'v table \<Rightarrow> (string \<times> 'v \<times> insert_mode) list \<Rightarrow> 'v table" where
  "keys_table lowercase T [] = T"
| "keys_table lowercase T ((key, v, mode) # es) =
     keys_table lowercase (put_key T (normal_key lowercase key) v mode) es"

definition no_keys :: "'v table" where
  "no_keys = (\<lambda>p k. None)"

lemma slots_builder_new [simp]: "slots builder_new = no_keys"
  by (simp add: slots_def builder_new_def no_keys_def fun_eq_iff)

lemma trie_from_new [simp]: "trie_from trie_new builder_new"
  by (simp add: trie_from_def trie_new_def) (simp add: builder_new_def)

text \<open>One insertion, by its equivalent as a loop over the slots of the key.\<close>

fun write_slots :: "'v builder \<Rightarrow> string \<Rightarrow> 'v \<Rightarrow> insert_mode \<Rightarrow> match_kind list \<Rightarrow> 'v builder panics" where
  "write_slots b base v mode [] = Some b"
| "write_slots b base v mode (k # ks) =
     Option.bind (builder_insert b base v k mode) (\<lambda>b. write_slots b base v mode ks)"

definition key_base :: "string \<Rightarrow> string \<times> match_kind list" where
  "key_base d =
     (case strip_prefix ''+.'' d of Some r \<Rightarrow> (trim_end_dots r, [Exact, Dot])
      | None \<Rightarrow> (case strip_prefix ''*.'' d of Some r \<Rightarrow> (trim_end_dots r, [Star])
      | None \<Rightarrow> (case strip_prefix ''.'' d of Some r \<Rightarrow> (trim_end_dots r, [Dot])
      | None \<Rightarrow> (trim_end_dots d, [Exact]))))"

lemma key_slots_base:
  "key_slots d = (let (r, ks) = key_base d in if r = [] then [] else map (Pair (rsplit_on CHR ''.'' r)) ks)"
  by (simp add: key_slots_def key_base_def split: option.splits)

lemma trim_end_dots_Nil_iff: "trim_end_dots d = [] \<longleftrightarrow> set d \<subseteq> {CHR ''.''}"
  by (auto simp: trim_end_dots_def dropWhile_eq_Nil_conv)

lemma key_base_dots:
  assumes "trim_end_dots d = []"
  shows "fst (key_base d) = []"
proof -
  have "set d \<subseteq> {CHR ''.''}" using assms by (simp add: trim_end_dots_Nil_iff)
  then have "\<not> prefix ''+.'' d" "\<not> prefix ''*.'' d"
    "\<forall>r. strip_prefix ''.'' d = Some r \<longrightarrow> trim_end_dots r = []"
    by (auto simp: prefix_def strip_prefix_def trim_end_dots_Nil_iff)
  then show ?thesis using assms by (auto simp: key_base_def strip_prefix_def split: option.splits)
qed

lemma insert_inner_building:
  assumes "trie_state t = Building b"
  shows "insert_inner lowercase t key v mode =
    (let (r, ks) = key_base (normal_key lowercase key) in
     if r = [] then Some (False, t)
     else map_option (\<lambda>b. (True, t\<lparr>trie_state := Building b, trie_len := trie_len t + length ks\<rparr>))
            (write_slots b r v mode ks))"
proof -
  let ?d = "normal_key lowercase key"
  have d: "(let trimmed = trim key in if list_ex (\<lambda>c. is_ascii_uppercase c \<or> \<not> is_ascii_byte c) trimmed
       then lowercase trimmed else trimmed) = ?d" by (simp add: normal_key_def)
  have two: "Option.bind (insert_into_tree t r v Exact mode) (\<lambda>t. Option.bind (insert_into_tree t r v Dot mode)
       (\<lambda>t. Some (True, t\<lparr>trie_len := trie_len t + 2\<rparr>))) =
     map_option (\<lambda>b. (True, t\<lparr>trie_state := Building b, trie_len := trie_len t + 2\<rparr>)) (write_slots b r v mode [Exact, Dot])" for r
    using assms by (cases "builder_insert b r v Exact mode") (auto simp: insert_into_tree_def map_option_case split: option.splits)
  have one: "Option.bind (insert_into_tree t r v k mode) (\<lambda>t. Some (True, t\<lparr>trie_len := trie_len t + 1\<rparr>)) =
     map_option (\<lambda>b. (True, t\<lparr>trie_state := Building b, trie_len := trie_len t + 1\<rparr>)) (write_slots b r v mode [k])" for r k
    using assms by (cases "builder_insert b r v k mode") (auto simp: insert_into_tree_def)
  show ?thesis
  proof (cases "trim_end_dots ?d = []")
    case True
    then show ?thesis using key_base_dots [OF True]
      by (simp add: insert_inner_def Let_def split_beta flip: d [unfolded Let_def])
  next
    case False
    then show ?thesis unfolding insert_inner_def Let_def d [unfolded Let_def] key_base_def
      using two one by (auto simp del: write_slots.simps split: option.splits)
  qed
qed

lemma write_slots_slots:
  assumes "wf_builder b" and "write_slots b base v mode ks = Some b'" and "distinct ks"
  shows "wf_builder b' \<and> (ks \<noteq> [] \<longrightarrow> nodes b' \<noteq> []) \<and>
    slots b' = (\<lambda>p k. if p = rsplit_on CHR ''.'' base \<and> k \<in> set ks then write_slot mode v (slots b p k) else slots b p k)"
  using assms
proof (induction ks arbitrary: b)
  case (Cons k ks)
  then obtain b1 where b1: "builder_insert b base v k mode = Some b1" "write_slots b1 base v mode ks = Some b'"
    by (auto simp: bind_eq_Some_conv)
  note s = slots_builder_insert [OF Cons.prems(1) b1(1)]
  have IH: "wf_builder b' \<and> (ks \<noteq> [] \<longrightarrow> nodes b' \<noteq> []) \<and> slots b' = (\<lambda>p k. if p = rsplit_on CHR ''.'' base \<and> k \<in> set ks
      then write_slot mode v (slots b1 p k) else slots b1 p k)"
    using Cons.IH [OF s(1) b1(2)] Cons.prems(3) by simp
  moreover have "nodes b' \<noteq> []" using IH s(2) b1(2) by (cases "ks = []") auto
  ultimately show ?case using s(3) Cons.prems(3) by (auto simp: fun_eq_iff)
qed simp

lemma insert_inner_table:
  assumes "trie_from t b" and "trie_state t = Building b" and "insert_inner lowercase t key v mode = Some (ok, t')"
  shows "\<exists>b'. trie_from t' b' \<and> trie_state t' = Building b' \<and>
    slots b' = put_key (slots b) (normal_key lowercase key) v mode \<and>
    (ok \<longleftrightarrow> key_slots (normal_key lowercase key) \<noteq> [])"
proof -
  obtain r ks where rk: "key_base (normal_key lowercase key) = (r, ks)" by (cases "key_base (normal_key lowercase key)")
  have ks: "distinct ks" "ks \<noteq> []" using rk by (auto simp: key_base_def split: option.splits)
  have wf: "wf_builder b" using assms(1) by (simp add: trie_from_def)
  have slots: "key_slots (normal_key lowercase key) = (if r = [] then [] else map (Pair (rsplit_on CHR ''.'' r)) ks)"
    by (simp add: key_slots_base rk)
  show ?thesis
  proof (cases "r = []")
    case True
    then show ?thesis using assms insert_inner_building [OF assms(2)] slots rk
      by (auto simp: put_key_def)
  next
    case False
    then obtain b' where b': "write_slots b r v mode ks = Some b'" "ok"
      "t' = t\<lparr>trie_state := Building b', trie_len := trie_len t + length ks\<rparr>"
      using assms(3) insert_inner_building [OF assms(2)] rk by auto
    show ?thesis using write_slots_slots [OF wf b'(1) ks(1)] b' ks(2) False slots
      by (auto simp: trie_from_def put_key_def fun_eq_iff)
  qed
qed

lemma insert_all_table:
  assumes "trie_from t b" and "trie_state t = Building b" and "insert_all lowercase t es = Some t'"
  shows "\<exists>b'. trie_from t' b' \<and> trie_state t' = Building b' \<and> slots b' = keys_table lowercase (slots b) es"
  using assms
proof (induction es arbitrary: t b)
  case (Cons e es)
  obtain key v mode where e: "e = (key, v, mode)" by (metis prod.exhaust)
  with Cons.prems(3) obtain ok t1 where t1: "insert_inner lowercase t key v mode = Some (ok, t1)"
    "insert_all lowercase t1 es = Some t'" by (auto simp: bind_eq_Some_conv)
  obtain b1 where b1: "trie_from t1 b1" "trie_state t1 = Building b1"
    "slots b1 = put_key (slots b) (normal_key lowercase key) v mode"
    using insert_inner_table [OF Cons.prems(1,2) t1(1)] by blast
  show ?case using Cons.IH [OF b1(1,2) t1(2)] b1(3) e by simp
qed auto

subsection \<open>How large a trie gets\<close>

definition label_bytes :: "'v builder \<Rightarrow> nat" where
  "label_bytes b = sum_list (map (\<lambda>l. length (fst l) + 1) (labels b))"

definition within :: "nat \<Rightarrow> 'v builder \<Rightarrow> bool" where
  "within N b \<longleftrightarrow> length (nodes b) \<le> N \<and> length (labels b) \<le> N \<and> label_bytes b \<le> N"

lemma within_ensure_root: "wf_builder b \<Longrightarrow> within N b \<Longrightarrow> within (N + 1) (ensure_root b)"
  by (auto simp: within_def label_bytes_def ensure_root_def wf_builder_def)

lemma within_child_or_insert:
  assumes "within N b" and "child_or_insert b p l = Some (c, b')"
  shows "within (N + length l + 1) b'"
proof -
  from assms(2) obtain i b1 where i: "intern_label b l = Some (i, b1)"
    by (auto simp: child_or_insert_def bind_eq_Some_conv)
  then have b1: "nodes b1 = nodes b" "length (labels b1) \<le> length (labels b) + 1"
    "label_bytes b1 \<le> label_bytes b + length l + 1"
    by (auto simp: intern_label_def u32_try_def update_vacant label_bytes_def split: option.splits if_splits)
  have "length (nodes b') \<le> length (nodes b1) + 1" "labels b' = labels b1"
    using assms(2) i by (auto simp: child_or_insert_def u32_try_def split: option.splits if_splits)
  with b1 assms(1) show ?thesis by (simp add: within_def label_bytes_def)
qed

lemma within_insert_walk:
  assumes "within N b" and "insert_walk b n ls = Some (m, b')"
  shows "within (N + sum_list (map (\<lambda>l. length l + 1) ls)) b'"
  using assms
proof (induction ls arbitrary: N b n)
  case (Cons l ls)
  then obtain c b1 where c: "child_or_insert b n l = Some (c, b1)" "insert_walk b1 c ls = Some (m, b')"
    by (auto simp: bind_eq_Some_conv)
  show ?case using Cons.IH [OF within_child_or_insert [OF Cons.prems(1) c(1)] c(2)] by (simp add: ac_simps)
qed simp

lemma sum_split_on: "sum_list (map (\<lambda>l. length l + 1) (split_on c s)) = length s + 1"
  by (induction s) (auto split: list.splits)

lemma sum_rsplit_on: "sum_list (map (\<lambda>l. length l + 1) (rsplit_on c s)) = length s + 1"
  unfolding rsplit_on_def rev_map [symmetric] sum_list_rev by (rule sum_split_on)

lemma label_count_le: "label_count s \<le> length s + 1"
  by (simp add: label_count_def)

lemma within_builder_insert:
  assumes "wf_builder b" and "within N b" and "N + length base + 2 < 2 ^ 29"
  shows "\<exists>b'. builder_insert b base v k mode = Some b' \<and> wf_builder b' \<and> within (N + length base + 2) b'"
proof -
  have "length (labels b) + label_count base < 2 ^ 32" "length (nodes b) + label_count base < 2 ^ 32"
    using assms(2,3) label_count_le [of base] by (auto simp: within_def)
  then obtain b' where b': "builder_insert b base v k mode = Some b'"
    using builder_insert_total [OF assms(1)] by blast
  then obtain n b1 where n: "insert_walk (ensure_root b) 0 (rsplit_on CHR ''.'' base) = Some (n, b1)"
    and "labels b' = labels b1" "length (nodes b') = length (nodes b1)"
    by (auto simp: builder_insert_def bind_eq_Some_conv split: if_splits)
  moreover have "within (N + 1 + (length base + 1)) b1"
    using within_insert_walk [OF within_ensure_root [OF assms(1,2)] n] by (simp only: sum_rsplit_on)
  ultimately have "within (N + length base + 2) b'" by (simp add: within_def label_bytes_def)
  then show ?thesis using b' slots_builder_insert(1) [OF assms(1) b'] by blast
qed

lemma within_write_slots:
  assumes "wf_builder b" and "within N b" and "N + length ks * (length base + 2) < 2 ^ 29"
  shows "\<exists>b'. write_slots b base v mode ks = Some b' \<and> wf_builder b' \<and>
    within (N + length ks * (length base + 2)) b'"
  using assms
proof (induction ks arbitrary: N b)
  case (Cons k ks)
  have "N + length base + 2 < 2 ^ 29" using Cons.prems(3) by simp
  from within_builder_insert [OF Cons.prems(1,2) this]
  obtain b1 where b1: "builder_insert b base v k mode = Some b1" "wf_builder b1" "within (N + length base + 2) b1"
    by blast
  have "N + length base + 2 + length ks * (length base + 2) < 2 ^ 29" using Cons.prems(3) by simp
  from Cons.IH [OF b1(2,3) this] b1(1) show ?case by (simp add: ac_simps)
qed simp

definition key_cost :: "string \<Rightarrow> nat" where
  "key_cost d = 2 * (length d + 2)"

lemma length_trim_end_dots: "length (trim_end_dots s) \<le> length s"
  unfolding trim_end_dots_def using length_dropWhile_le [of _ "rev s"] by simp

lemma key_base_cost:
  assumes "key_base d = (r, ks)"
  shows "length ks * (length r + 2) \<le> key_cost d"
proof -
  have drop: "length (trim_end_dots (drop n d)) \<le> length d" for n
    using length_trim_end_dots [of "drop n d"] by simp
  have "length r \<le> length d" "length ks \<le> 2"
    using assms drop length_trim_end_dots [of d]
    by (auto simp: key_base_def strip_prefix_def split: if_splits)
  then have "length ks * (length r + 2) \<le> 2 * (length d + 2)" by (intro mult_le_mono) auto
  then show ?thesis by (simp add: key_cost_def)
qed

lemma insert_all_total:
  assumes "trie_from t b" and "trie_state t = Building b" and "within N b"
    and "N + sum_list (map (\<lambda>(key, v, mode). key_cost (normal_key lowercase key)) es) < 2 ^ 29"
  shows "\<exists>t' b'. insert_all lowercase t es = Some t' \<and> trie_state t' = Building b' \<and> wf_builder b' \<and>
    within (N + sum_list (map (\<lambda>(key, v, mode). key_cost (normal_key lowercase key)) es)) b'"
  using assms
proof (induction es arbitrary: t b N)
  case Nil
  then show ?case by (intro exI [of _ t] exI [of _ b]) (simp add: trie_from_def)
next
  case (Cons e es)
  obtain key v mode where e: "e = (key, v, mode)" by (metis prod.exhaust)
  let ?d = "normal_key lowercase key"
  obtain r ks where rk: "key_base ?d = (r, ks)" by (cases "key_base ?d")
  note cost = key_base_cost [OF rk]
  have wf: "wf_builder b" using Cons.prems(1) by (simp add: trie_from_def)
  have "N + length ks * (length r + 2) < 2 ^ 29" using Cons.prems(4) cost by (simp add: e)
  from within_write_slots [OF wf Cons.prems(3) this, of v mode]
  obtain b1 where b1: "write_slots b r v mode ks = Some b1" "within (N + length ks * (length r + 2)) b1" by blast
  then obtain ok t1 where t1: "insert_inner lowercase t key v mode = Some (ok, t1)"
    "trie_state t1 = Building (if r = [] then b else b1)"
    using insert_inner_building [OF Cons.prems(2), of lowercase key v mode] rk Cons.prems(2) by (cases "r = []") auto
  obtain b2 where b2: "trie_from t1 b2" "trie_state t1 = Building b2"
    using insert_inner_table [OF Cons.prems(1,2) t1(1)] by blast
  have "within (N + key_cost ?d) b2"
    using b1(2) b2(2) t1(2) Cons.prems(3) cost by (auto simp: within_def split: if_splits)
  from Cons.IH [OF b2 this] Cons.prems(4) t1(1) show ?case by (simp add: e ac_simps)
qed

lemma into_sealed_total:
  assumes "wf_builder b" and "within N b" and "N + 1 < 2 ^ 29"
  shows "\<exists>s. into_sealed b = Some s"
proof -
  have w: "within (N + 1) (ensure_root b)" by (rule within_ensure_root [OF assms(1,2)])
  then have "length (nodes (ensure_root b)) < 2 ^ 29"
    "sum_list (map (\<lambda>l. length (fst l) + 1) (labels (ensure_root b))) < 2 ^ 32"
    using assms(3) by (auto simp: within_def label_bytes_def)
  from into_sealed_of [OF wf_ensure_root [OF assms(1)] ensure_root_nonempty this] show ?thesis
    by (auto simp: into_sealed_root)
qed

subsection \<open>Properties of the trie\<close>

lemma seal_from:
  assumes "trie_from t b" and "trie_state t = Building b" and "seal t = Some t'"
  shows "trie_from t' b" and "trie_len t' = trie_len t"
proof -
  obtain s where s: "into_sealed b = Some s" "t' = t\<lparr>trie_state := Sealed s\<rparr>"
    using assms(2,3) by (auto simp: seal_def)
  have "wf_builder b" "trie_len t = 0 \<longrightarrow> nodes b = []" using assms(1) by (simp_all add: trie_from_def)
  then show "trie_from t' b" and "trie_len t' = trie_len t" using s by (simp_all add: trie_from_def)
qed

lemma build_seal_total:
  assumes "sum_list (map (\<lambda>(key, v, mode). key_cost (normal_key lowercase key)) es) + 1 < 2 ^ 29"
  shows "\<exists>t t'. insert_all lowercase trie_new es = Some t \<and> seal t = Some t'"
proof -
  have "within 0 builder_new" by (simp add: within_def label_bytes_def builder_new_def)
  from insert_all_total [OF trie_from_new _ this, of lowercase es]
  obtain t b where t: "insert_all lowercase trie_new es = Some t" "trie_state t = Building b" "wf_builder b"
    "within (sum_list (map (\<lambda>(key, v, mode). key_cost (normal_key lowercase key)) es)) b"
    using assms by (auto simp: trie_new_def)
  from into_sealed_total [OF t(3,4) assms] t(1,2) show ?thesis by (auto simp: seal_def)
qed

lemma search_table:
  fixes t :: "'v domain_trie"
  assumes "trie_from t b" and "zst_ok zst TYPE('v)"
  shows "search_normalized zst t host = Some (if trie_len t = 0 \<or> trim_end_dots host = [] then None
      else table_best (slots b) [] (rsplit_on CHR ''.'' (trim_end_dots host)) None)"
    and "search zst t host = Some (if trie_len t = 0 \<or> trim_end_dots (trim host) = [] then None
      else table_best (slots b) []
        (map (if list_ex is_ascii_uppercase (trim host) then to_ascii_lowercase else (\<lambda>l. l))
          (rsplit_on CHR ''.'' (trim_end_dots (trim host)))) None)"
  using search_best_table [OF assms(1) _ assms(2)]
  by (auto simp: search_normalized_def search_def Let_def)

text \<open>
  C5. Sealing changes no answer: on every host, each of the three searches returns the same value
  on the sealed layout as on the builder it came from, and none of them panics (every index,
  slice and arena offset the sealed search computes is in range).
\<close>

theorem seal_preserves_searches:
  fixes t :: "('v :: linorder) domain_trie"
  assumes "insert_all lowercase trie_new es = Some t" and "seal t = Some t'" and "zst_ok zst TYPE('v)"
  shows "\<exists>a b c. search zst t host = Some a \<and> search zst t' host = Some a \<and>
    search_normalized zst t host = Some b \<and> search_normalized zst t' host = Some b \<and>
    search_min_normalized zst t host = Some c \<and> search_min_normalized zst t' host = Some c"
proof -
  obtain bu where b: "trie_from t bu" "trie_state t = Building bu"
    using insert_all_table [OF trie_from_new _ assms(1)] by (auto simp: trie_new_def)
  note s = seal_from [OF b assms(2)]
  show ?thesis
    using search_table [OF b(1) assms(3)] search_table [OF s(1) assms(3)] s(2)
      search_min_table [OF b(1) assms(3)] search_min_table [OF s(1) assms(3)] by simp
qed

theorem seal_preserves_searches_witness:
  "\<exists>t t' a b c. insert_all (\<lambda>s. s) trie_new [(''+.example.com'', 1 :: nat, FirstWins), (''*.org'', 2, Overwrite)] = Some t \<and>
     seal t = Some t' \<and> search False t ''WWW.Example.com'' = Some a \<and> search False t' ''WWW.Example.com'' = Some a \<and>
     search_normalized False t ''WWW.Example.com'' = Some b \<and> search_normalized False t' ''WWW.Example.com'' = Some b \<and>
     search_min_normalized False t ''WWW.Example.com'' = Some c \<and> search_min_normalized False t' ''WWW.Example.com'' = Some c"
proof -
  let ?es = "[(''+.example.com'', 1 :: nat, FirstWins), (''*.org'', 2, Overwrite)]"
  have "sum_list (map (\<lambda>(key, v, mode). key_cost (normal_key (\<lambda>s. s) key)) ?es) = 44" by code_simp
  then obtain t t' where t: "insert_all (\<lambda>s. s) trie_new ?es = Some t" "seal t = Some t'"
    using build_seal_total [of "\<lambda>s. s" ?es] by auto
  have "zst_ok False TYPE(nat)" by (simp add: zst_ok_def)
  from seal_preserves_searches [OF t this] t show ?thesis by blast
qed

text \<open>
  C20. Building and sealing never panic while the keys stay below the documented size limit: with
  fewer than \<open>2\<^sup>29\<close> bytes of normalised keys (a label end and two writes per key counted), every
  insertion returns and \<^verbatim>\<open>seal\<close> returns.
\<close>

theorem build_and_seal_return:
  assumes "sum_list (map (\<lambda>(key, v, mode). key_cost (normal_key lowercase key)) es) + 1 < 2 ^ 29"
  shows "\<exists>t t'. insert_all lowercase trie_new es = Some t \<and> seal t = Some t'"
  by (rule build_seal_total [OF assms])

theorem build_and_seal_return_witness:
  "\<exists>t t'. insert_all (\<lambda>s. s) trie_new [(''+.a.b'', (), FirstWins), (''...'', (), Overwrite)] = Some t \<and>
     seal t = Some t'"
  by (rule build_and_seal_return) code_simp

lemma keys_table_first:
  "keys_table lowercase T (map (\<lambda>(key, v). (key, v, FirstWins)) kvs) p k =
     or_else (T p k) (map_option snd
       (List.find (\<lambda>(key, v). (p, k) \<in> set (key_slots (normal_key lowercase key))) kvs))"
proof (induction kvs arbitrary: T)
  case (Cons kv kvs)
  obtain key v where kv: "kv = (key, v)" by (cases kv)
  show ?case unfolding kv by (simp add: Cons put_key_def or_else_def split: option.splits)
qed simp

lemma find_sorted_min:
  assumes "sorted (map snd kvs)" and "(key, w) \<in> set kvs" and "P (key, w)"
  shows "\<exists>kv. List.find P kvs = Some kv \<and> snd kv \<le> w"
  using assms
proof (induction kvs)
  case (Cons kv kvs)
  show ?case
  proof (cases "P kv")
    case True
    moreover have "snd kv \<le> w" using Cons.prems by (cases "kv = (key, w)") auto
    ultimately show ?thesis by simp
  next
    case False
    with Cons show ?thesis by auto
  qed
qed simp

lemma find_SomeD: "List.find P xs = Some x \<Longrightarrow> x \<in> set xs \<and> P x"
  by (auto simp: find_Some_iff)

lemma is_min_of_weaken:
  assumes "is_min_of r H" and "H \<subseteq> N" and "\<And>w. w \<in> N \<Longrightarrow> \<exists>v \<in> H. v \<le> w"
  shows "is_min_of r N"
proof (cases r)
  case None
  then show ?thesis using assms(1,3) by (auto simp: is_min_of_def)
next
  case (Some v)
  then have v: "v \<in> H" "\<And>u. u \<in> H \<Longrightarrow> v \<le> u" using assms(1) by (simp_all add: is_min_of_def)
  have "v \<le> w" if "w \<in> N" for w using assms(3) [OF that] v(2) order_trans by blast
  then show ?thesis using v(1) assms(2) Some by (auto simp: is_min_of_def)
qed

lemma hits_first_wins:
  assumes "sorted (map snd kvs)" and "is_min_of r (hits (keys_table lowercase no_keys
      (map (\<lambda>(key, v). (key, v, FirstWins)) kvs)) (rsplit_on CHR ''.'' q))"
  shows "is_min_of r {v. \<exists>key. (key, v) \<in> set kvs \<and> key_matches (normal_key lowercase key) q}"
proof -
  let ?T = "keys_table lowercase no_keys (map (\<lambda>(key, v). (key, v, FirstWins)) kvs)"
  let ?N = "{v. \<exists>key. (key, v) \<in> set kvs \<and> key_matches (normal_key lowercase key) q}"
  let ?in = "\<lambda>p k (key, v :: 'a). (p, k) \<in> set (key_slots (normal_key lowercase key))"
  have T: "?T p k = map_option snd (List.find (?in p k) kvs)" for p k
    by (simp add: keys_table_first no_keys_def)
  have sub: "hits ?T (rsplit_on CHR ''.'' q) \<subseteq> ?N"
  proof
    fix v
    assume "v \<in> hits ?T (rsplit_on CHR ''.'' q)"
    then obtain p k kv where f: "covers p k (rsplit_on CHR ''.'' q)" "List.find (?in p k) kvs = Some kv" "snd kv = v"
      by (auto simp: hits_def T)
    obtain key where kv: "kv = (key, v)" using f(3) by (cases kv) auto
    have "kv \<in> set kvs" "?in p k kv" using find_SomeD [OF f(2)] by simp_all
    with f(1) kv have "(key, v) \<in> set kvs \<and> key_matches (normal_key lowercase key) q"
      by (auto simp: key_matches_slots)
    then show "v \<in> ?N" by blast
  qed
  have low: "\<exists>v \<in> hits ?T (rsplit_on CHR ''.'' q). v \<le> w" if "w \<in> ?N" for w
  proof -
    from that obtain key p k where kw: "(key, w) \<in> set kvs" "(p, k) \<in> set (key_slots (normal_key lowercase key))"
      "covers p k (rsplit_on CHR ''.'' q)" by (auto simp: key_matches_slots)
    then obtain kv where kv: "List.find (?in p k) kvs = Some kv" "snd kv \<le> w"
      using find_sorted_min [OF assms(1) kw(1), of "?in p k"] by auto
    from kv(1) have "?T p k = Some (snd kv)" unfolding T by simp
    with kw(3) have "snd kv \<in> hits ?T (rsplit_on CHR ''.'' q)" unfolding hits_def by blast
    with kv(2) show ?thesis by blast
  qed
  from is_min_of_weaken [OF assms(2) sub] low show ?thesis by blast
qed

lemma trie_empty_slots: "trie_from t b \<Longrightarrow> trie_len t = 0 \<Longrightarrow> slots b = no_keys"
  by (simp add: trie_from_def slots_def no_keys_def fun_eq_iff)

lemma table_min_empty: "table_min le no_keys p ls best = best"
  by (rule table_min_none) (simp add: no_keys_def)

lemma table_best_empty: "table_best no_keys p ls best = best"
  by (rule table_best_none) (simp add: no_keys_def)

lemma search_min_first_wins:
  fixes kvs :: "(string \<times> ('v :: linorder)) list"
  assumes "insert_all lowercase trie_new (map (\<lambda>(key, v). (key, v, FirstWins)) kvs) = Some t"
    and "t' = t \<or> seal t = Some t'"
    and "sorted (map snd kvs)" and "zst_ok zst TYPE('v)" and "trim_end_dots host \<noteq> []"
  shows "\<exists>r. search_min_normalized zst t' host = Some r \<and>
    is_min_of r {v. \<exists>key. (key, v) \<in> set kvs \<and> key_matches (normal_key lowercase key) (trim_end_dots host)}"
proof -
  let ?T = "keys_table lowercase no_keys (map (\<lambda>(key, v). (key, v, FirstWins)) kvs)"
  let ?q = "rsplit_on CHR ''.'' (trim_end_dots host)"
  obtain b where b: "trie_from t b" "trie_state t = Building b" "slots b = ?T"
    using insert_all_table [OF trie_from_new _ assms(1)] by (auto simp: trie_new_def)
  have t': "trie_from t' b" using assms(2) b seal_from [OF b(1,2)] by blast
  have "search_min_normalized zst t' host = Some (table_min (\<le>) ?T [] ?q None)"
    using search_min_table [OF t' assms(4), of host] b(3) assms(5) trie_empty_slots [OF t']
    by (cases "trie_len t' = 0") (simp_all add: table_min_empty)
  moreover have "is_min_of (table_min (\<le>) ?T [] ?q None) (hits ?T ?q)"
    using table_min_correct [of None "{}" ?T "[]" ?q] by (simp add: is_min_of_def below_root)
  ultimately show ?thesis using hits_first_wins [OF assms(3)] by blast
qed

text \<open>
  C8. What the rule engine needs of the trie: when keys are inserted with ascending values,
  \<^verbatim>\<open>search_min_normalized\<close> returns the smallest value of all keys whose text matches the host
  (\<^verbatim>\<open>+.d\<close>: \<^verbatim>\<open>d\<close> and everything below; \<^verbatim>\<open>*.d\<close>: one label below; \<^verbatim>\<open>.d\<close>: anything below; \<^verbatim>\<open>d\<close>: itself),
  and nothing exactly when no key matches.
\<close>

theorem search_min_is_first_match:
  fixes kvs :: "(string \<times> ('v :: linorder)) list"
  assumes "insert_all lowercase trie_new (map (\<lambda>(key, v). (key, v, FirstWins)) kvs) = Some t"
    and "sorted (map snd kvs)" and "zst_ok zst TYPE('v)" and "trim_end_dots host \<noteq> []"
  shows "\<exists>r. search_min_normalized zst t host = Some r \<and>
    is_min_of r {v. \<exists>key. (key, v) \<in> set kvs \<and> key_matches (normal_key lowercase key) (trim_end_dots host)}"
  using search_min_first_wins [OF assms(1) _ assms(2-4)] by blast

theorem search_min_is_first_match_witness:
  "\<exists>t r. insert_all (\<lambda>s. s) trie_new (map (\<lambda>(key, v). (key, v, FirstWins)) [(''*.b.c'', 3 :: nat), (''+.c'', 5)]) = Some t \<and>
     search_min_normalized False t ''a.b.c.'' = Some r \<and>
     is_min_of r {v. \<exists>key. (key, v) \<in> set [(''*.b.c'', 3), (''+.c'', 5)] \<and> key_matches (normal_key (\<lambda>s. s) key) (trim_end_dots ''a.b.c.'')} \<and>
     key_matches (normal_key (\<lambda>s. s) ''*.b.c'') (trim_end_dots ''a.b.c.'')"
proof -
  let ?kvs = "[(''*.b.c'', 3 :: nat), (''+.c'', 5)]"
  let ?es = "map (\<lambda>(key, v). (key, v, FirstWins)) ?kvs"
  have "sum_list (map (\<lambda>(key, v, mode). key_cost (normal_key (\<lambda>s. s) key)) ?es) = 24" by code_simp
  then obtain t where t: "insert_all (\<lambda>s. s) trie_new ?es = Some t"
    using build_seal_total [of "\<lambda>s. s" ?es] by auto
  have "zst_ok False TYPE(nat)" "trim_end_dots ''a.b.c.'' \<noteq> []" "sorted (map snd ?kvs)"
    by (simp_all add: zst_ok_def trim_end_dots_def)
  moreover have "key_matches (normal_key (\<lambda>s. s) ''*.b.c'') (trim_end_dots ''a.b.c.'')" by code_simp
  ultimately show ?thesis using search_min_is_first_match [OF t] t by blast
qed

text \<open>
  C19. \<^verbatim>\<open>search_normalized\<close> returns the value of a most specific matching key: an exact key before
  every wildcard, a deeper wildcard before a shallower one, \<^verbatim>\<open>*.\<close> before \<^verbatim>\<open>.\<close> at the same depth; the
  value is the one the insertion modes leave in that slot (first or last writer).
\<close>

theorem search_is_most_specific:
  fixes es :: "(string \<times> 'v \<times> insert_mode) list"
  assumes "insert_all lowercase trie_new es = Some t" and "zst_ok zst TYPE('v)" and "trim_end_dots host \<noteq> []"
  shows "\<exists>r. search_normalized zst t host = Some r \<and>
    is_best_of r (keys_table lowercase no_keys es) (rsplit_on CHR ''.'' (trim_end_dots host))"
proof -
  obtain b where b: "trie_from t b" "slots b = keys_table lowercase no_keys es"
    using insert_all_table [OF trie_from_new _ assms(1)] by (auto simp: trie_new_def)
  have "search_normalized zst t host =
      Some (table_best (slots b) [] (rsplit_on CHR ''.'' (trim_end_dots host)) None)"
    using search_table(1) [OF b(1) assms(2), of host] assms(3) trie_empty_slots [OF b(1)]
    by (cases "trie_len t = 0") (simp_all add: table_best_empty)
  then show ?thesis using table_best_correct b(2) by metis
qed

theorem search_is_most_specific_witness:
  "\<exists>t r. insert_all (\<lambda>s. s) trie_new [(''+.c'', 5 :: nat, FirstWins), (''*.c'', 3, Overwrite)] = Some t \<and>
     search_normalized False t ''a.c'' = Some r \<and>
     is_best_of r (keys_table (\<lambda>s. s) no_keys [(''+.c'', 5 :: nat, FirstWins), (''*.c'', 3, Overwrite)])
       (rsplit_on CHR ''.'' (trim_end_dots ''a.c''))"
proof -
  let ?es = "[(''+.c'', 5 :: nat, FirstWins), (''*.c'', 3, Overwrite)]"
  have "sum_list (map (\<lambda>(key, v, mode). key_cost (normal_key (\<lambda>s. s) key)) ?es) = 20" by code_simp
  then obtain t where t: "insert_all (\<lambda>s. s) trie_new ?es = Some t"
    using build_seal_total [of "\<lambda>s. s" ?es] by auto
  have "zst_ok False TYPE(nat)" "trim_end_dots ''a.c'' \<noteq> []" by (simp_all add: zst_ok_def trim_end_dots_def)
  then show ?thesis using search_is_most_specific [OF t] t by blast
qed

end
