(* ===== verification/Geosite.thy ===== *)
theory Geosite
  imports Domain_Trie Ext_Lib Rust_Fmt "HOL-Library.AList"
begin

section \<open>The geosite database\<close>

text \<open>
  \<^verbatim>\<open>GeositeDB\<close> of \<^verbatim>\<open>meow-rules/src/geosite.rs\<close>: named buckets of domain patterns, keywords and
  regular expressions; the lookup by category text, the resolution of a category to bucket keys
  done once when a rule is compiled, and the lookup in a resolved bucket. A hash map is an
  association list. Reading the database from a file is not part of this theory.
\<close>

record geosite_db =
  categories :: "(string \<times> unit domain_trie) list"
  counts :: "(string \<times> nat) list"
  regex_compiled :: "(string \<times> string list) list"
  kw_buckets :: "(string \<times> string list) list"

definition geosite_empty :: geosite_db where
  "geosite_empty = \<lparr>categories = [], counts = [], regex_compiled = [], kw_buckets = []\<rparr>"

definition geosite_insert :: "ext_lib \<Rightarrow> geosite_db \<Rightarrow> string \<Rightarrow> string \<Rightarrow> geosite_db panics" where
  "geosite_insert E db cat domain =
     (let cat_key = to_ascii_lowercase cat;
          trie = (case map_of (categories db) cat_key of None \<Rightarrow> trie_new | Some t \<Rightarrow> t) in
      map_option (\<lambda>(inserted, trie).
          (let db = db\<lparr>categories := AList.update cat_key trie (categories db)\<rparr> in
           if inserted
           then db\<lparr>counts := AList.update cat_key
                  ((case map_of (counts db) cat_key of None \<Rightarrow> 0 | Some n \<Rightarrow> n) + 1) (counts db)\<rparr>
           else db))
        (trie_insert (to_lowercase E) trie (to_ascii_lowercase domain) ()))"

text \<open>\<^verbatim>\<open>split_category_attrs\<close>: the part before the first at-sign, and the non-empty ones after it.\<close>

definition split_category_attrs :: "string \<Rightarrow> string \<times> string list" where
  "split_category_attrs category =
     (case split_on CHR ''@'' (trim category) of
        [] \<Rightarrow> ([], [])
      | base # parts \<Rightarrow>
          (trim base, map to_ascii_lowercase (filter (\<lambda>a. a \<noteq> []) (map trim parts))))"

definition category_key :: "geosite_db \<Rightarrow> string \<Rightarrow> string option" where
  "category_key db category =
     (if \<not> list_ex is_ascii_uppercase category then Some category
      else List.find (\<lambda>key. eq_ignore_ascii_case key category)
        (map fst (categories db) @ map fst (kw_buckets db) @ map fst (regex_compiled db)))"

definition bucket_exists :: "geosite_db \<Rightarrow> string \<Rightarrow> bool" where
  "bucket_exists db key \<longleftrightarrow>
     map_of (categories db) key \<noteq> None \<or> map_of (kw_buckets db) key \<noteq> None \<or>
     map_of (regex_compiled db) key \<noteq> None"

text \<open>\<^verbatim>\<open>trie.search(domain).is_some()\<close> on a trie of units.\<close>

definition trie_hit :: "unit domain_trie \<Rightarrow> string \<Rightarrow> bool" where
  "trie_hit t domain \<longleftrightarrow> no_panic None (search True t domain) \<noteq> None"

definition lookup_resolved :: "ext_lib \<Rightarrow> geosite_db \<Rightarrow> string \<Rightarrow> string \<Rightarrow> bool" where
  "lookup_resolved E db key domain =
     (if (case map_of (categories db) key of None \<Rightarrow> False | Some trie \<Rightarrow> trie_hit trie domain) then True
      else if (case map_of (kw_buckets db) key of None \<Rightarrow> False
               | Some kws \<Rightarrow> list_ex (\<lambda>kw. contains_str kw domain) kws) then True
      else if (case map_of (regex_compiled db) key of None \<Rightarrow> False
               | Some compiled \<Rightarrow> list_ex (\<lambda>re. regex_is_match E re domain) compiled) then True
      else False)"

definition lookup_one :: "ext_lib \<Rightarrow> geosite_db \<Rightarrow> string \<Rightarrow> string \<Rightarrow> bool" where
  "lookup_one E db category domain =
     (case category_key db category of
        None \<Rightarrow> False
      | Some cat \<Rightarrow>
          if (case map_of (categories db) cat of None \<Rightarrow> False | Some trie \<Rightarrow> trie_hit trie domain) then True
          else if (case map_of (kw_buckets db) cat of None \<Rightarrow> False
                   | Some kws \<Rightarrow> list_ex (\<lambda>kw. contains_str kw domain) kws) then True
          else if (case map_of (regex_compiled db) cat of None \<Rightarrow> False
                   | Some compiled \<Rightarrow> list_ex (\<lambda>re. regex_is_match E re domain) compiled) then True
          else False)"

definition geosite_lookup :: "ext_lib \<Rightarrow> geosite_db \<Rightarrow> string \<Rightarrow> string \<Rightarrow> bool" where
  "geosite_lookup E db category domain =
     (let (base, attrs) = split_category_attrs category in
      if attrs \<noteq> [] then list_all (\<lambda>attr. lookup_one E db (base @ ''@'' @ attr) domain) attrs
      else lookup_one E db base domain)"

fun collect_options :: "'a option list \<Rightarrow> 'a list option" where
  "collect_options [] = Some []"
| "collect_options (None # xs) = None"
| "collect_options (Some x # xs) = map_option ((#) x) (collect_options xs)"

definition resolve_keys :: "geosite_db \<Rightarrow> string \<Rightarrow> string list option" where
  "resolve_keys db category =
     (let (base, attrs) = split_category_attrs category in
      if base = [] then None
      else let needed = (if attrs = [] then [base] else map (\<lambda>attr. base @ ''@'' @ attr) attrs) in
        collect_options (map (\<lambda>key.
          Option.bind (category_key db key) (\<lambda>canon. if bucket_exists db canon then Some canon else None)) needed))"

definition category_count :: "geosite_db \<Rightarrow> nat" where
  "category_count db = length (categories db)"

definition domain_count :: "geosite_db \<Rightarrow> string \<Rightarrow> nat option" where
  "domain_count db category = map_of (counts db) (to_ascii_lowercase category)"

definition from_parts ::
  "ext_lib \<Rightarrow> (string \<times> unit domain_trie) list \<Rightarrow> (string \<times> nat) list \<Rightarrow>
   (string \<times> string list) list \<Rightarrow> (string \<times> string list) list \<Rightarrow> geosite_db panics" where
  "from_parts E cats cnts regex_patterns kws =
     map_option (\<lambda>cats. \<lparr>categories = cats, counts = cnts,
         regex_compiled = map (\<lambda>(category, patterns). (category, filter (regex_new E) patterns)) regex_patterns,
         kw_buckets = kws\<rparr>)
       (collect_options (map (\<lambda>(name, t). map_option (Pair name) (seal t)) cats))"

subsection \<open>Resolving once, looking up often\<close>

text \<open>
  Buckets whose name has an empty part before the at-sign cannot be named by a rule: the resolver
  refuses them. A database without such buckets is \<open>named_buckets\<close>.
\<close>

definition named_buckets :: "geosite_db \<Rightarrow> bool" where
  "named_buckets db \<longleftrightarrow>
     list_all (\<lambda>k. k \<noteq> [] \<and> hd k \<noteq> CHR ''@'')
       (map fst (categories db) @ map fst (kw_buckets db) @ map fst (regex_compiled db))"

lemma bucket_exists_iff:
  "bucket_exists db k \<longleftrightarrow>
     k \<in> set (map fst (categories db) @ map fst (kw_buckets db) @ map fst (regex_compiled db))"
  by (auto simp: bucket_exists_def map_of_eq_None_iff)

lemma lookup_resolved_bucket: "lookup_resolved E db k d \<Longrightarrow> bucket_exists db k"
  by (auto simp: lookup_resolved_def bucket_exists_def split: if_splits option.splits)

lemma lookup_one_resolved:
  "lookup_one E db c d \<longleftrightarrow> (\<exists>k. category_key db c = Some k \<and> lookup_resolved E db k d)"
  by (cases "category_key db c") (simp_all add: lookup_one_def lookup_resolved_def)

lemma collect_options_Some:
  "collect_options xs = Some ys \<longleftrightarrow> xs = map Some ys"
  by (induction xs arbitrary: ys rule: collect_options.induct) (auto simp: map_eq_Cons_conv Cons_eq_map_conv)

lemma map_eq_list_all2: "map f xs = map Some ys \<Longrightarrow> list_all2 (\<lambda>x y. f x = Some y) xs ys"
  by (induction xs arbitrary: ys) (auto simp: Cons_eq_map_conv)

lemma collect_options_None: "collect_options xs = None \<longleftrightarrow> None \<in> set xs"
  by (induction xs rule: collect_options.induct) auto

definition needed_keys :: "string \<Rightarrow> string list" where
  "needed_keys category =
     (let (base, attrs) = split_category_attrs category in
      if attrs = [] then [base] else map (\<lambda>attr. base @ ''@'' @ attr) attrs)"

lemma geosite_lookup_needed:
  "geosite_lookup E db c d \<longleftrightarrow> list_all (\<lambda>k. lookup_one E db k d) (needed_keys c)"
  by (simp add: geosite_lookup_def needed_keys_def list.pred_map comp_def split: prod.split)

lemma resolve_keys_needed:
  "resolve_keys db c =
     (if fst (split_category_attrs c) = [] then None
      else collect_options (map (\<lambda>key. Option.bind (category_key db key)
             (\<lambda>canon. if bucket_exists db canon then Some canon else None)) (needed_keys c)))"
  by (simp add: resolve_keys_def needed_keys_def split: prod.split)

lemma resolve_keys_Some:
  assumes "resolve_keys db c = Some keys"
  shows "geosite_lookup E db c d \<longleftrightarrow> list_all (\<lambda>k. lookup_resolved E db k d) keys"
proof -
  have "map (\<lambda>key. Option.bind (category_key db key)
      (\<lambda>canon. if bucket_exists db canon then Some canon else None)) (needed_keys c) = map Some keys"
    using assms by (simp add: resolve_keys_needed collect_options_Some split: if_splits)
  then have "list_all2 (\<lambda>n k. category_key db n = Some k) (needed_keys c) keys"
    by (elim list_all2_mono [OF map_eq_list_all2]) (auto simp: bind_eq_Some_conv split: if_splits)
  then have "list_all (\<lambda>k. lookup_one E db k d) (needed_keys c) \<longleftrightarrow> list_all (\<lambda>k. lookup_resolved E db k d) keys"
    by (induction rule: list_all2_induct) (auto simp: lookup_one_resolved)
  then show ?thesis by (simp add: geosite_lookup_needed)
qed

lemma category_key_eq: "category_key db c = Some k \<Longrightarrow> to_ascii_lowercase k = to_ascii_lowercase c"
  by (auto simp: category_key_def eq_ignore_ascii_case_iff dest: find_SomeD split: if_splits)

lemma resolve_keys_None:
  assumes "resolve_keys db c = None" and "named_buckets db"
  shows "\<not> geosite_lookup E db c d"
proof (cases "fst (split_category_attrs c) = []")
  case True
  obtain n where n: "n \<in> set (needed_keys c)" "n = [] \<or> hd n = CHR ''@''"
  proof (cases "snd (split_category_attrs c)")
    case Nil
    with True show ?thesis using that [of "[]"] by (cases "split_category_attrs c") (simp add: needed_keys_def)
  next
    case (Cons a as)
    with True show ?thesis using that [of "''@'' @ a"] by (cases "split_category_attrs c") (simp add: needed_keys_def)
  qed
  have "\<not> lookup_one E db n d"
  proof
    assume "lookup_one E db n d"
    then obtain k where k: "category_key db n = Some k" "bucket_exists db k"
      using lookup_resolved_bucket by (auto simp: lookup_one_resolved)
    have "k = [] \<or> hd k = CHR ''@''"
    proof (cases k)
      case (Cons x xs)
      then obtain y ys where "n = y # ys" "lower_byte x = lower_byte y"
        using category_key_eq [OF k(1)] by (cases n) auto
      moreover have "lower_byte z = CHR ''@'' \<longleftrightarrow> z = CHR ''@''" for z
        by (rule lower_byte_eq_iff_nonletter) (simp add: byte_val_def)
      ultimately show ?thesis using n(2) Cons by (metis list.sel(1) list.distinct(1))
    qed simp
    then show False using assms(2) k(2)
      unfolding named_buckets_def bucket_exists_iff list_all_iff by blast
  qed
  then show ?thesis using n(1) by (auto simp: geosite_lookup_needed list_all_iff)
next
  case False
  then obtain n where n: "n \<in> set (needed_keys c)"
    "Option.bind (category_key db n) (\<lambda>canon. if bucket_exists db canon then Some canon else None) = None"
    using assms(1) by (auto simp: resolve_keys_needed collect_options_None)
  then have "\<not> lookup_one E db n d"
    using lookup_resolved_bucket by (auto simp: lookup_one_resolved split: if_splits)
  then show ?thesis using n(1) by (auto simp: geosite_lookup_needed list_all_iff)
qed

text \<open>
  C24. Resolving a category once and testing the host against the resolved buckets gives the same
  answer as the full lookup, for every category text and host; a category that does not resolve
  matches no host at all.
\<close>

theorem resolved_lookup_agrees:
  assumes "named_buckets db"
  shows "geosite_lookup E db category domain \<longleftrightarrow>
    (case resolve_keys db category of
       None \<Rightarrow> False
     | Some keys \<Rightarrow> list_all (\<lambda>key. lookup_resolved E db key domain) keys)"
  using resolve_keys_None [OF _ assms] resolve_keys_Some by (cases "resolve_keys db category") auto

definition demo_db :: geosite_db where
  "demo_db = \<lparr>categories = [], counts = [], regex_compiled = [],
     kw_buckets = [(''ads'', [''banner'']), (''ads@cn'', [''cn''])]\<rparr>"

theorem resolved_lookup_agrees_witness:
  "named_buckets demo_db \<and> resolve_keys demo_db ''Ads@CN'' = Some [''ads@cn''] \<and>
   (geosite_lookup demo_lib demo_db ''Ads@CN'' ''banner.cn'' \<longleftrightarrow>
      list_all (\<lambda>key. lookup_resolved demo_lib demo_db key ''banner.cn'') [''ads@cn''])"
proof -
  have "named_buckets demo_db" by code_simp
  moreover have "resolve_keys demo_db ''Ads@CN'' = Some [''ads@cn'']" by code_simp
  ultimately show ?thesis
    using resolved_lookup_agrees [of demo_db demo_lib "''Ads@CN''" "''banner.cn''"] by simp
qed

end
