(* ===== verification/Rules.thy ===== *)
theory Rules
  imports Metadata Ip_Set Geosite
begin

unbundle bit_operations_syntax

section \<open>Rules and rule sets\<close>

text \<open>
  The rules of \<^verbatim>\<open>meow-rules/src\<close> as one datatype with a constructor per implementation of the
  \<^verbatim>\<open>Rule\<close> trait of \<^verbatim>\<open>meow-common/src/rule.rs\<close>, and the three implementations of \<^verbatim>\<open>RuleSet\<close>. The
  trait methods are functions on it: the predicate itself, the enrichment demands, the
  build-time proof of deadness, and the target a match resolves to. A compiled regular expression
  is its source text, an adapter handle is its name.
\<close>

datatype rule_type =
  RtDomain | RtDomainSuffix | RtDomainKeyword | RtDomainRegex | RtGeoSite | RtGeoIp | RtSrcGeoIp
| RtIpCidr | RtSrcIpCidr | RtSrcPort | RtDstPort | RtInPort | RtDscp | RtProcessName | RtProcessPath
| RtNetwork | RtUid | RtMatch | RtRuleSet | RtAnd | RtOr | RtNot | RtDomainWildcard | RtIpSuffix
| RtSrcIpSuffix | RtIpAsn | RtSrcIpAsn | RtSubRule | RtInName | RtInType | RtInUser

fun rule_type_str :: "rule_type \<Rightarrow> string" where
  "rule_type_str RtDomain = ''DOMAIN''"
| "rule_type_str RtDomainSuffix = ''DOMAIN-SUFFIX''"
| "rule_type_str RtDomainKeyword = ''DOMAIN-KEYWORD''"
| "rule_type_str RtDomainRegex = ''DOMAIN-REGEX''"
| "rule_type_str RtGeoSite = ''GEOSITE''"
| "rule_type_str RtGeoIp = ''GEOIP''"
| "rule_type_str RtSrcGeoIp = ''SRC-GEOIP''"
| "rule_type_str RtIpCidr = ''IP-CIDR''"
| "rule_type_str RtSrcIpCidr = ''SRC-IP-CIDR''"
| "rule_type_str RtSrcPort = ''SRC-PORT''"
| "rule_type_str RtDstPort = ''DST-PORT''"
| "rule_type_str RtInPort = ''IN-PORT''"
| "rule_type_str RtDscp = ''DSCP''"
| "rule_type_str RtProcessName = ''PROCESS-NAME''"
| "rule_type_str RtProcessPath = ''PROCESS-PATH''"
| "rule_type_str RtNetwork = ''NETWORK''"
| "rule_type_str RtUid = ''UID''"
| "rule_type_str RtMatch = ''MATCH''"
| "rule_type_str RtRuleSet = ''RULE-SET''"
| "rule_type_str RtAnd = ''AND''"
| "rule_type_str RtOr = ''OR''"
| "rule_type_str RtNot = ''NOT''"
| "rule_type_str RtDomainWildcard = ''DOMAIN-WILDCARD''"
| "rule_type_str RtIpSuffix = ''IP-SUFFIX''"
| "rule_type_str RtSrcIpSuffix = ''SRC-IP-SUFFIX''"
| "rule_type_str RtIpAsn = ''IP-ASN''"
| "rule_type_str RtSrcIpAsn = ''SRC-IP-ASN''"
| "rule_type_str RtSubRule = ''SUB-RULE''"
| "rule_type_str RtInName = ''IN-NAME''"
| "rule_type_str RtInType = ''IN-TYPE''"
| "rule_type_str RtInUser = ''IN-USER''"

text \<open>The verdict on a matched target, and the registry probe that gives it.\<close>

datatype target_check = Usable | Missing | Pass

record target_probe =
  check :: "string \<Rightarrow> target_check"
  is_pass_rule :: "string \<Rightarrow> bool"

definition closure_probe :: "(string \<Rightarrow> bool) \<Rightarrow> target_probe" where
  "closure_probe f = \<lparr>check = (\<lambda>name. if f name then Usable else Missing), is_pass_rule = (\<lambda>_. False)\<rparr>"

datatype ip_family = FamilyV4 "32 word" "32 word" | FamilyV6 "128 word" "128 word"

datatype match_mode = PathGlob string | PathPrefix | PathExact

record rule_flags =
  no_resolve :: bool
  is_src :: bool

datatype rule_set_behavior = BehaviorDomain | BehaviorIpCidr | BehaviorClassical

type_synonym port_ranges = "(16 word \<times> 16 word) list"

text \<open>
  Arguments in the order of the struct fields. A shared handle that the engine compares by address
  is an \<^typ>\<open>'a arc\<close>; the address of a rule set precedes the set.
\<close>

datatype rule =
    DomainRule string string
  | DomainSuffixRule string string
  | DomainKeywordRule string string
  | DomainRegexRule string string
  | DomainWildcardRule string string string
  | IpCidrRule ip_net string string bool bool
  | IpSuffixRule string string ip_family bool bool
  | PortRule port_ranges string string bool
  | InPortRule port_ranges string string
  | DscpRule "8 word" string string
  | InTypeRule string string bool bool bool bool bool
  | InNameRule string string
  | InUserRule string string
  | UidRule "32 word" string string
  | ProcessRule string string
  | ProcessPathRule string match_mode string
  | NetworkRule network string string
  | FinalRule string
  | GeoIpRule string string bool "ip_range_set arc"
  | SrcGeoIpRule string string "ip_range_set arc"
  | IpAsnRule string string "ip_range_set arc" bool bool
  | GeoSiteRule string string string "geosite_db arc option"
  | AndRule "rule list" string string
  | OrRule "rule list" string string
  | NotRule rule string string
  | SubRuleRule string "rule list"
  | RuleSetRule string nat rule_set string rule_flags
and rule_set =
    DomainRuleSet "unit domain_trie" nat
  | IpCidrRuleSet ip_range_set nat
  | ClassicalRuleSet "rule list"

subsection \<open>Names\<close>

fun type_of_rule :: "rule \<Rightarrow> rule_type" where
  "type_of_rule (DomainRule _ _) = RtDomain"
| "type_of_rule (DomainSuffixRule _ _) = RtDomainSuffix"
| "type_of_rule (DomainKeywordRule _ _) = RtDomainKeyword"
| "type_of_rule (DomainRegexRule _ _) = RtDomainRegex"
| "type_of_rule (DomainWildcardRule _ _ _) = RtDomainWildcard"
| "type_of_rule (IpCidrRule _ _ _ src _) = (if src then RtSrcIpCidr else RtIpCidr)"
| "type_of_rule (IpSuffixRule _ _ _ src _) = (if src then RtSrcIpSuffix else RtIpSuffix)"
| "type_of_rule (PortRule _ _ _ src) = (if src then RtSrcPort else RtDstPort)"
| "type_of_rule (InPortRule _ _ _) = RtInPort"
| "type_of_rule (DscpRule _ _ _) = RtDscp"
| "type_of_rule (InTypeRule _ _ _ _ _ _ _) = RtInType"
| "type_of_rule (InNameRule _ _) = RtInName"
| "type_of_rule (InUserRule _ _) = RtInUser"
| "type_of_rule (UidRule _ _ _) = RtUid"
| "type_of_rule (ProcessRule _ _) = RtProcessName"
| "type_of_rule (ProcessPathRule _ _ _) = RtProcessPath"
| "type_of_rule (NetworkRule _ _ _) = RtNetwork"
| "type_of_rule (FinalRule _) = RtMatch"
| "type_of_rule (GeoIpRule _ _ _ _) = RtGeoIp"
| "type_of_rule (SrcGeoIpRule _ _ _) = RtSrcGeoIp"
| "type_of_rule (IpAsnRule _ _ _ src _) = (if src then RtSrcIpAsn else RtIpAsn)"
| "type_of_rule (GeoSiteRule _ _ _ _) = RtGeoSite"
| "type_of_rule (AndRule _ _ _) = RtAnd"
| "type_of_rule (OrRule _ _ _) = RtOr"
| "type_of_rule (NotRule _ _ _) = RtNot"
| "type_of_rule (SubRuleRule _ _) = RtSubRule"
| "type_of_rule (RuleSetRule _ _ _ _ _) = RtRuleSet"

fun adapter :: "rule \<Rightarrow> string" where
  "adapter (DomainRule _ a) = a"
| "adapter (DomainSuffixRule _ a) = a"
| "adapter (DomainKeywordRule _ a) = a"
| "adapter (DomainRegexRule _ a) = a"
| "adapter (DomainWildcardRule _ _ a) = a"
| "adapter (IpCidrRule _ _ a _ _) = a"
| "adapter (IpSuffixRule _ a _ _ _) = a"
| "adapter (PortRule _ _ a _) = a"
| "adapter (InPortRule _ _ a) = a"
| "adapter (DscpRule _ _ a) = a"
| "adapter (InTypeRule _ a _ _ _ _ _) = a"
| "adapter (InNameRule _ a) = a"
| "adapter (InUserRule _ a) = a"
| "adapter (UidRule _ _ a) = a"
| "adapter (ProcessRule _ a) = a"
| "adapter (ProcessPathRule _ _ a) = a"
| "adapter (NetworkRule _ _ a) = a"
| "adapter (FinalRule a) = a"
| "adapter (GeoIpRule _ a _ _) = a"
| "adapter (SrcGeoIpRule _ a _) = a"
| "adapter (IpAsnRule _ a _ _ _) = a"
| "adapter (GeoSiteRule _ _ a _) = a"
| "adapter (AndRule _ a _) = a"
| "adapter (OrRule _ a _) = a"
| "adapter (NotRule _ a _) = a"
| "adapter (SubRuleRule block_name _) = block_name"
| "adapter (RuleSetRule _ _ _ a _) = a"

fun payload :: "rule \<Rightarrow> string" where
  "payload (DomainRule domain _) = domain"
| "payload (DomainSuffixRule sfx _) = sfx"
| "payload (DomainKeywordRule kw _) = kw"
| "payload (DomainRegexRule pat _) = pat"
| "payload (DomainWildcardRule _ raw _) = raw"
| "payload (IpCidrRule _ cidr_str _ _ _) = cidr_str"
| "payload (IpSuffixRule payload_raw _ _ _ _) = payload_raw"
| "payload (PortRule _ raw _ _) = raw"
| "payload (InPortRule _ raw _) = raw"
| "payload (DscpRule _ raw _) = raw"
| "payload (InTypeRule raw _ _ _ _ _ _) = raw"
| "payload (InNameRule name _) = name"
| "payload (InUserRule username _) = username"
| "payload (UidRule _ raw _) = raw"
| "payload (ProcessRule name _) = name"
| "payload (ProcessPathRule p _ _) = p"
| "payload (NetworkRule _ raw _) = raw"
| "payload (FinalRule _) = []"
| "payload (GeoIpRule country _ _ _) = country"
| "payload (SrcGeoIpRule country _ _) = country"
| "payload (IpAsnRule raw _ _ _ _) = raw"
| "payload (GeoSiteRule _ payload_raw _ _) = payload_raw"
| "payload (AndRule _ _ p) = p"
| "payload (OrRule _ _ p) = p"
| "payload (NotRule _ _ p) = p"
| "payload (SubRuleRule block_name _) = block_name"
| "payload (RuleSetRule name _ _ _ _) = name"

subsection \<open>The predicates of the leaf rules\<close>

definition domain_matches :: "string \<Rightarrow> metadata \<Rightarrow> bool" where
  "domain_matches domain md \<longleftrightarrow> eq_ignore_ascii_case (rule_host md) domain"

definition suffix_matches :: "string \<Rightarrow> metadata \<Rightarrow> bool" where
  "suffix_matches sfx md =
     (let h = rule_host md in
      if length h = length sfx then eq_ignore_ascii_case h sfx
      else if length h > length sfx then
        (let dot_pos = length h - length sfx - 1 in
         if h ! dot_pos = CHR ''.'' \<and> eq_ignore_ascii_case (drop (dot_pos + 1) h) sfx then True else False)
      else False)"

definition keyword_matches :: "string \<Rightarrow> metadata \<Rightarrow> bool" where
  "keyword_matches needle md =
     (let h = rule_host md in
      if needle = [] then True
      else if length h < length needle then False
      else list_ex (\<lambda>w. eq_ignore_ascii_case w needle) (windows (length needle) h))"

definition regex_matches :: "ext_lib \<Rightarrow> string \<Rightarrow> metadata \<Rightarrow> bool" where
  "regex_matches E pat md = regex_is_match E pat (rule_host md)"

definition wildcard_matches :: "ext_lib \<Rightarrow> string \<Rightarrow> metadata \<Rightarrow> bool" where
  "wildcard_matches E pat md =
     (let h = rule_host md in if h = [] then False else regex_is_match E pat h)"

definition side_ip :: "bool \<Rightarrow> metadata \<Rightarrow> ip_addr option" where
  "side_ip src md = (if src then src_ip md else dst_ip md)"

definition is_some_and :: "('a \<Rightarrow> bool) \<Rightarrow> 'a option \<Rightarrow> bool" where
  "is_some_and p x = (case x of None \<Rightarrow> False | Some a \<Rightarrow> p a)"

definition cidr_matches :: "ext_lib \<Rightarrow> ip_net \<Rightarrow> bool \<Rightarrow> metadata \<Rightarrow> bool" where
  "cidr_matches E cidr src md = is_some_and (net_contains E cidr) (side_ip src md)"

fun ip_suffix_matches :: "ip_family \<Rightarrow> ip_addr \<Rightarrow> bool" where
  "ip_suffix_matches (FamilyV4 sfx msk) (V4 ip) \<longleftrightarrow> ip AND msk = sfx"
| "ip_suffix_matches (FamilyV6 sfx msk) (V6 ip) \<longleftrightarrow> ip AND msk = sfx"
| "ip_suffix_matches _ _ \<longleftrightarrow> False"

definition matches_port :: "port_ranges \<Rightarrow> 16 word \<Rightarrow> bool" where
  "matches_port ranges port \<longleftrightarrow> list_ex (\<lambda>(lo, hi). lo \<le> port \<and> port \<le> hi) ranges"

definition in_port_matches :: "port_ranges \<Rightarrow> metadata \<Rightarrow> bool" where
  "in_port_matches ranges md = (if in_port md = 0 then False else matches_port ranges (in_port md))"

definition in_type_rule_matches :: "bool \<Rightarrow> bool \<Rightarrow> bool \<Rightarrow> bool \<Rightarrow> bool \<Rightarrow> metadata \<Rightarrow> bool" where
  "in_type_rule_matches http https socks5 tproxy inner md =
     (case conn_type md of Http \<Rightarrow> http | Https \<Rightarrow> https | Socks5 \<Rightarrow> socks5 | TProxy \<Rightarrow> tproxy
      | Inner \<Rightarrow> inner | _ \<Rightarrow> False)"

definition in_name_matches :: "string \<Rightarrow> metadata \<Rightarrow> bool" where
  "in_name_matches name md \<longleftrightarrow> in_name md \<noteq> [] \<and> in_name md = name"

definition uid_rule_matches :: "platform \<Rightarrow> 32 word \<Rightarrow> metadata \<Rightarrow> bool" where
  "uid_rule_matches P u md \<longleftrightarrow> uid_info_available P \<and> uid md = Some u"

definition process_matches :: "string \<Rightarrow> metadata \<Rightarrow> bool" where
  "process_matches name md \<longleftrightarrow> eq_ignore_ascii_case (process md) name"

text \<open>
  \<^verbatim>\<open>Path::file_name\<close> on Unix: the last component, empty and single-dot components being skipped,
  unless it is the parent directory.
\<close>

definition file_name :: "string \<Rightarrow> string option" where
  "file_name path =
     (let comps = filter (\<lambda>c. c \<noteq> [] \<and> c \<noteq> ''.'') (split_on CHR ''/'' path) in
      if comps = [] \<or> last comps = ''..'' then None else Some (last comps))"

definition starts_with_slash :: "string \<Rightarrow> bool" where
  "starts_with_slash s \<longleftrightarrow> starts_with_byte CHR ''/'' s \<or> starts_with_byte (char_of (92 :: nat)) s"

definition process_path_rule_matches :: "ext_lib \<Rightarrow> string \<Rightarrow> match_mode \<Rightarrow> string \<Rightarrow> bool" where
  "process_path_rule_matches E pl mode path =
     (if path = [] then False
      else case mode of
        PathGlob re \<Rightarrow> regex_is_match E re path
      | PathPrefix \<Rightarrow>
          if path = pl then True
          else (case strip_prefix pl path of Some rest \<Rightarrow> starts_with_slash rest | None \<Rightarrow> False)
      | PathExact \<Rightarrow> (case file_name path of Some f \<Rightarrow> f | None \<Rightarrow> path) = pl)"

definition ranges_contain :: "ip_range_set arc \<Rightarrow> ip_addr \<Rightarrow> bool" where
  "ranges_contain ranges ip = no_panic False (set_contains (arc_get ranges) ip)"

definition geosite_matches :: "ext_lib \<Rightarrow> string \<Rightarrow> geosite_db arc option \<Rightarrow> metadata \<Rightarrow> bool" where
  "geosite_matches E category db md =
     (case db of
        None \<Rightarrow> False
      | Some db \<Rightarrow>
          if category = [] then False
          else let h = rule_host md in
            if h = [] then False else geosite_lookup E (arc_get db) category h)"

subsection \<open>Deadness and demands\<close>

fun never_matches :: "platform \<Rightarrow> rule \<Rightarrow> bool" where
  "never_matches P (UidRule _ _ _) \<longleftrightarrow> \<not> uid_info_available P"
| "never_matches P (ProcessRule name _) \<longleftrightarrow> \<not> process_info_available P \<and> name \<noteq> []"
| "never_matches P (ProcessPathRule _ _ _) \<longleftrightarrow> \<not> process_info_available P"
| "never_matches P (GeoIpRule _ _ _ ranges) \<longleftrightarrow> set_is_empty (arc_get ranges)"
| "never_matches P (SrcGeoIpRule _ _ ranges) \<longleftrightarrow> set_is_empty (arc_get ranges)"
| "never_matches P (IpAsnRule _ _ ranges _ _) \<longleftrightarrow> set_is_empty (arc_get ranges)"
| "never_matches P (GeoSiteRule category _ _ db) \<longleftrightarrow>
     category = [] \<or> (case db of None \<Rightarrow> True | Some db \<Rightarrow> resolve_keys (arc_get db) category = None)"
| "never_matches P (AndRule rules _ _) \<longleftrightarrow> list_ex (never_matches P) rules"
| "never_matches P (OrRule rules _ _) \<longleftrightarrow> list_all (never_matches P) rules"
| "never_matches P (SubRuleRule _ block) \<longleftrightarrow> list_all (never_matches P) block"
| "never_matches P _ \<longleftrightarrow> False"

fun should_resolve_ip :: "platform \<Rightarrow> rule \<Rightarrow> bool"
and set_should_resolve_ip :: "platform \<Rightarrow> rule_set \<Rightarrow> bool" where
  "should_resolve_ip P (IpCidrRule _ _ _ src no_res) \<longleftrightarrow> \<not> src \<and> \<not> no_res"
| "should_resolve_ip P (IpSuffixRule _ _ _ src no_res) \<longleftrightarrow> \<not> src \<and> \<not> no_res"
| "should_resolve_ip P (GeoIpRule _ _ no_res _) \<longleftrightarrow> \<not> no_res"
| "should_resolve_ip P (IpAsnRule _ _ _ src no_res) \<longleftrightarrow> \<not> src \<and> \<not> no_res"
| "should_resolve_ip P (AndRule rules _ _) \<longleftrightarrow> list_ex (\<lambda>r. \<not> never_matches P r \<and> should_resolve_ip P r) rules"
| "should_resolve_ip P (OrRule rules _ _) \<longleftrightarrow> list_ex (\<lambda>r. \<not> never_matches P r \<and> should_resolve_ip P r) rules"
| "should_resolve_ip P (NotRule r _ _) \<longleftrightarrow> \<not> never_matches P r \<and> should_resolve_ip P r"
| "should_resolve_ip P (SubRuleRule _ block) \<longleftrightarrow> list_ex (\<lambda>r. \<not> never_matches P r \<and> should_resolve_ip P r) block"
| "should_resolve_ip P (RuleSetRule _ _ s _ flags) \<longleftrightarrow>
     set_should_resolve_ip P s \<and> \<not> no_resolve flags \<and> \<not> is_src flags"
| "should_resolve_ip P _ \<longleftrightarrow> False"
| "set_should_resolve_ip P (DomainRuleSet _ _) \<longleftrightarrow> False"
| "set_should_resolve_ip P (IpCidrRuleSet _ _) \<longleftrightarrow> True"
| "set_should_resolve_ip P (ClassicalRuleSet rules) \<longleftrightarrow>
     list_ex (\<lambda>r. \<not> never_matches P r \<and> should_resolve_ip P r) rules"

fun should_find_process :: "platform \<Rightarrow> rule \<Rightarrow> bool"
and set_should_find_process :: "platform \<Rightarrow> rule_set \<Rightarrow> bool" where
  "should_find_process P (UidRule _ _ _) \<longleftrightarrow> target_linux P"
| "should_find_process P (ProcessRule _ _) \<longleftrightarrow> PROCESS_LOOKUP_SUPPORTED P"
| "should_find_process P (ProcessPathRule _ _ _) \<longleftrightarrow> PROCESS_LOOKUP_SUPPORTED P"
| "should_find_process P (AndRule rules _ _) \<longleftrightarrow> list_ex (\<lambda>r. \<not> never_matches P r \<and> should_find_process P r) rules"
| "should_find_process P (OrRule rules _ _) \<longleftrightarrow> list_ex (\<lambda>r. \<not> never_matches P r \<and> should_find_process P r) rules"
| "should_find_process P (NotRule r _ _) \<longleftrightarrow> \<not> never_matches P r \<and> should_find_process P r"
| "should_find_process P (SubRuleRule _ block) \<longleftrightarrow> list_ex (\<lambda>r. \<not> never_matches P r \<and> should_find_process P r) block"
| "should_find_process P (RuleSetRule _ _ s _ _) \<longleftrightarrow> set_should_find_process P s"
| "should_find_process P _ \<longleftrightarrow> False"
| "set_should_find_process P (DomainRuleSet _ _) \<longleftrightarrow> False"
| "set_should_find_process P (IpCidrRuleSet _ _) \<longleftrightarrow> False"
| "set_should_find_process P (ClassicalRuleSet rules) \<longleftrightarrow>
     list_ex (\<lambda>r. \<not> never_matches P r \<and> should_find_process P r) rules"

subsection \<open>Matching\<close>

fun behavior :: "rule_set \<Rightarrow> rule_set_behavior" where
  "behavior (DomainRuleSet _ _) = BehaviorDomain"
| "behavior (IpCidrRuleSet _ _) = BehaviorIpCidr"
| "behavior (ClassicalRuleSet _) = BehaviorClassical"

fun set_len :: "rule_set \<Rightarrow> nat" where
  "set_len (DomainRuleSet _ n) = n"
| "set_len (IpCidrRuleSet _ n) = n"
| "set_len (ClassicalRuleSet rules) = length rules"

fun match_metadata :: "ext_lib \<Rightarrow> platform \<Rightarrow> metadata \<Rightarrow> rule \<Rightarrow> bool"
and set_matches :: "ext_lib \<Rightarrow> platform \<Rightarrow> metadata \<Rightarrow> rule_set \<Rightarrow> bool" where
  "match_metadata E P md (DomainRule domain _) = domain_matches domain md"
| "match_metadata E P md (DomainSuffixRule sfx _) = suffix_matches sfx md"
| "match_metadata E P md (DomainKeywordRule kw _) = keyword_matches kw md"
| "match_metadata E P md (DomainRegexRule pat _) = regex_matches E pat md"
| "match_metadata E P md (DomainWildcardRule pat _ _) = wildcard_matches E pat md"
| "match_metadata E P md (IpCidrRule cidr _ _ src _) = cidr_matches E cidr src md"
| "match_metadata E P md (IpSuffixRule _ _ family src _) =
     (case side_ip src md of Some ip \<Rightarrow> ip_suffix_matches family ip | None \<Rightarrow> False)"
| "match_metadata E P md (PortRule ranges _ _ src) =
     matches_port ranges (if src then src_port md else dst_port md)"
| "match_metadata E P md (InPortRule ranges _ _) = in_port_matches ranges md"
| "match_metadata E P md (DscpRule v _ _) = (dscp md = Some v)"
| "match_metadata E P md (InTypeRule _ _ http https socks5 tproxy inner) =
     in_type_rule_matches http https socks5 tproxy inner md"
| "match_metadata E P md (InNameRule name _) = in_name_matches name md"
| "match_metadata E P md (InUserRule username _) = (in_user md = Some username)"
| "match_metadata E P md (UidRule u _ _) = uid_rule_matches P u md"
| "match_metadata E P md (ProcessRule name _) = process_matches name md"
| "match_metadata E P md (ProcessPathRule pl mode _) = process_path_rule_matches E pl mode (process_path md)"
| "match_metadata E P md (NetworkRule net _ _) = (network md = net)"
| "match_metadata E P md (FinalRule _) = True"
| "match_metadata E P md (GeoIpRule _ _ _ ranges) = is_some_and (ranges_contain ranges) (dst_ip md)"
| "match_metadata E P md (SrcGeoIpRule _ _ ranges) = is_some_and (ranges_contain ranges) (src_ip md)"
| "match_metadata E P md (IpAsnRule _ _ ranges src _) = is_some_and (ranges_contain ranges) (side_ip src md)"
| "match_metadata E P md (GeoSiteRule category _ _ db) = geosite_matches E category db md"
| "match_metadata E P md (AndRule rules _ _) = list_all (match_metadata E P md) rules"
| "match_metadata E P md (OrRule rules _ _) = list_ex (match_metadata E P md) rules"
| "match_metadata E P md (NotRule r _ _) = (\<not> match_metadata E P md r)"
| "match_metadata E P md (SubRuleRule name block) =
     (if should_resolve_ip P (SubRuleRule name block) \<and> \<not> resolved md then False
      else list_ex (match_metadata E P md) block)"
| "match_metadata E P md (RuleSetRule _ _ s _ flags) =
     (if \<not> is_src flags \<or> behavior s = BehaviorDomain then set_matches E P md s
      else set_matches E P (swap_src_dst md) s)"
| "set_matches E P md (DomainRuleSet trie _) =
     (let h = rule_host md in if h = [] then False else trie_hit trie h)"
| "set_matches E P md (IpCidrRuleSet s _) =
     is_some_and (\<lambda>ip. no_panic False (set_contains s ip)) (dst_ip md)"
| "set_matches E P md (ClassicalRuleSet rules) = list_ex (match_metadata E P md) rules"

fun matches_domain :: "ext_lib \<Rightarrow> platform \<Rightarrow> rule_set \<Rightarrow> string \<Rightarrow> bool" where
  "matches_domain E P (DomainRuleSet trie _) domain = trie_hit trie domain"
| "matches_domain E P (IpCidrRuleSet _ _) domain = False"
| "matches_domain E P (ClassicalRuleSet rules) domain =
     list_ex (match_metadata E P (default_metadata\<lparr>host := domain\<rparr>)) rules"

text \<open>
  The target of a match: the adapter of the rule, except that a SUB-RULE gives the target of the
  first inner rule that matches and is not a PASS-RULE.
\<close>

fun match_and_resolve :: "ext_lib \<Rightarrow> platform \<Rightarrow> target_probe \<Rightarrow> metadata \<Rightarrow> rule \<Rightarrow> string option"
and resolve_block :: "ext_lib \<Rightarrow> platform \<Rightarrow> target_probe \<Rightarrow> metadata \<Rightarrow> rule list \<Rightarrow> string option" where
  "match_and_resolve E P pr md (SubRuleRule name block) =
     (if should_resolve_ip P (SubRuleRule name block) \<and> \<not> resolved md then None
      else resolve_block E P pr md block)"
| "match_and_resolve E P pr md r = (if match_metadata E P md r then Some (adapter r) else None)"
| "resolve_block E P pr md [] = None"
| "resolve_block E P pr md (r # rs) =
     (case match_and_resolve E P pr md r of
        Some target \<Rightarrow>
          if target = ''PASS-RULE'' \<or> is_pass_rule pr target then resolve_block E P pr md rs
          else Some target
      | None \<Rightarrow> resolve_block E P pr md rs)"

end
