(* ===== verification/Rule_New.thy ===== *)
theory Rule_New
  imports Rules
begin

unbundle bit_operations_syntax

section \<open>Building rules\<close>

text \<open>
  The constructors (\<^verbatim>\<open>new\<close>) of the rules: each parses its payload or refuses it. Errors carry what
  the message names. \<open>wf_rule\<close> says that a rule is one its constructor returned, and the
  rest of the theory states what the leaf predicates mean.
\<close>

datatype rule_error =
    InvalidRegex string
  | InvalidWildcard string
  | InvalidCidr string
  | InvalidIpSuffix string
  | IpSuffixPrefix nat
  | InvalidPort string
  | PortOrder "16 word" "16 word"
  | EmptyPortList
  | InvalidDscp string
  | DscpTooLarge "8 word"
  | UnknownInType string
  | InvalidUid string
  | InvalidGlob string
  | UnknownNetwork string
  | LineTooLong
  | InvalidRule string
  | NeedsThreeParts string
  | NoGeoIpDatabase
  | NoAsnDatabase
  | NoCategory
  | InvalidAsn string
  | UnknownRuleType string
  | NestingTooDeep
  | ExpectedParenthesis string
  | UnbalancedParentheses
  | ExpectedAdapter
  | MissingAdapter
  | EmptyLogicPayload
  | ExpectedGroup char
  | MatchInLogicGroup
  | GroupWithoutPayload string
  | RegexWithComma
  | NotNeedsOne nat
  | MatchInRuleSet string
  | EntryWithoutPayload string
  | EntryRegexWithComma string
  | InvalidDomainPattern string

subsection \<open>Domain rules\<close>

definition domain_new :: "ext_lib \<Rightarrow> string \<Rightarrow> string \<Rightarrow> rule" where
  "domain_new E domain a = DomainRule (to_lowercase E domain) a"

definition domain_suffix_new :: "string \<Rightarrow> string \<Rightarrow> rule" where
  "domain_suffix_new sfx a = DomainSuffixRule (to_ascii_lowercase sfx) a"

definition domain_keyword_new :: "string \<Rightarrow> string \<Rightarrow> rule" where
  "domain_keyword_new kw a = DomainKeywordRule (to_ascii_lowercase kw) a"

definition domain_regex_new :: "ext_lib \<Rightarrow> string \<Rightarrow> string \<Rightarrow> rule_error + rule" where
  "domain_regex_new E pat a =
     (if regex_new E pat then Inr (DomainRegexRule pat a) else Inl (InvalidRegex pat))"

text \<open>A backslash before a star, as \<^verbatim>\<open>regex::escape\<close> writes it, and the anchored pattern.\<close>

definition escaped_star :: string where
  "escaped_star = [char_of (92 :: nat), CHR ''*'']"

definition anchored :: "string \<Rightarrow> string" where
  "anchored body = ''^(?i)'' @ body @ ''$''"

definition wildcard_regex :: "ext_lib \<Rightarrow> string \<Rightarrow> string" where
  "wildcard_regex E pat = anchored (replace_str escaped_star ''[^.]+'' (regex_escape E pat))"

definition domain_wildcard_new :: "ext_lib \<Rightarrow> string \<Rightarrow> string \<Rightarrow> rule_error + rule" where
  "domain_wildcard_new E pat a =
     (let re = wildcard_regex E pat in
      if regex_new E re then Inr (DomainWildcardRule re pat a) else Inl (InvalidWildcard pat))"

subsection \<open>Address rules\<close>

definition ip_cidr_new :: "ext_lib \<Rightarrow> string \<Rightarrow> string \<Rightarrow> bool \<Rightarrow> bool \<Rightarrow> rule_error + rule" where
  "ip_cidr_new E cidr a src no_res =
     and_then (ok_or (InvalidCidr cidr) (net_parse E cidr)) (\<lambda>parsed.
       Inr (IpCidrRule parsed cidr a src no_res))"

definition low_mask4 :: "nat \<Rightarrow> 32 word" where
  "low_mask4 p = (if p = 0 then 0 else if 32 \<le> p then - 1 else push_bit p 1 - 1)"

definition low_mask6 :: "nat \<Rightarrow> 128 word" where
  "low_mask6 p = (if p = 0 then 0 else if 128 \<le> p then - 1 else push_bit p 1 - 1)"

definition ip_suffix_new :: "ext_lib \<Rightarrow> string \<Rightarrow> string \<Rightarrow> bool \<Rightarrow> bool \<Rightarrow> rule_error + rule" where
  "ip_suffix_new E pl a src no_res =
     and_then (ok_or (InvalidIpSuffix pl) (net_parse E pl)) (\<lambda>net.
       and_then
         (case net of
            NetV4 v4 \<Rightarrow>
              let p = prefix4 v4 in
              if 32 < p then Inl (IpSuffixPrefix p)
              else let msk = low_mask4 p in Inr (FamilyV4 (addr4 v4 AND msk) msk)
          | NetV6 v6 \<Rightarrow>
              let p = prefix6 v6 in
              if 128 < p then Inl (IpSuffixPrefix p)
              else let msk = low_mask6 p in Inr (FamilyV6 (addr6 v6 AND msk) msk))
         (\<lambda>family. Inr (IpSuffixRule pl a family src no_res)))"

definition geoip_new :: "ext_lib \<Rightarrow> string \<Rightarrow> string \<Rightarrow> bool \<Rightarrow> ip_range_set arc \<Rightarrow> rule" where
  "geoip_new E country a no_res ranges = GeoIpRule (to_uppercase E country) a no_res ranges"

definition src_geoip_new :: "ext_lib \<Rightarrow> string \<Rightarrow> string \<Rightarrow> ip_range_set arc \<Rightarrow> rule" where
  "src_geoip_new E country a ranges = SrcGeoIpRule (to_uppercase E country) a ranges"

definition ip_asn_new :: "32 word \<Rightarrow> string \<Rightarrow> string \<Rightarrow> ip_range_set arc \<Rightarrow> bool \<Rightarrow> bool \<Rightarrow> rule" where
  "ip_asn_new asn raw a ranges src no_res = IpAsnRule raw a ranges src no_res"

subsection \<open>Ports\<close>

text \<open>The loop over the comma- or slash-separated parts; blank parts are skipped.\<close>

definition port_separator :: "char \<Rightarrow> bool" where
  "port_separator c \<longleftrightarrow> c = CHR '','' \<or> c = CHR ''/''"

fun port_parts :: "string list \<Rightarrow> port_ranges \<Rightarrow> rule_error + port_ranges" where
  "port_parts [] ranges = Inr ranges"
| "port_parts (part # parts) ranges =
     (let part = trim part in
      if part = [] then port_parts parts ranges
      else case split_once CHR ''-'' part of
        Some (start, stop) \<Rightarrow>
          and_then (ok_or (InvalidPort (trim start)) (parse_u16 (trim start))) (\<lambda>start.
          and_then (ok_or (InvalidPort (trim stop)) (parse_u16 (trim stop))) (\<lambda>stop.
            if stop < start then Inl (PortOrder start stop)
            else port_parts parts (ranges @ [(start, stop)])))
      | None \<Rightarrow>
          and_then (ok_or (InvalidPort part) (parse_u16 part)) (\<lambda>port.
            port_parts parts (ranges @ [(port, port)])))"

definition port_new :: "string \<Rightarrow> string \<Rightarrow> bool \<Rightarrow> rule_error + rule" where
  "port_new ports a src =
     and_then (port_parts (split_by port_separator ports) []) (\<lambda>ranges.
       if ranges = [] then Inl EmptyPortList else Inr (PortRule ranges ports a src))"

fun in_port_parts :: "string list \<Rightarrow> port_ranges \<Rightarrow> rule_error + port_ranges" where
  "in_port_parts [] ranges = Inr ranges"
| "in_port_parts (part # parts) ranges =
     (let part = trim part in
      if part = [] then in_port_parts parts ranges
      else case split_once CHR ''-'' part of
        Some (l, r) \<Rightarrow>
          and_then (ok_or (InvalidPort (trim l)) (parse_u16 (trim l))) (\<lambda>lo.
          and_then (ok_or (InvalidPort (trim r)) (parse_u16 (trim r))) (\<lambda>hi.
            if hi < lo then Inl (PortOrder lo hi)
            else in_port_parts parts (ranges @ [(lo, hi)])))
      | None \<Rightarrow>
          and_then (ok_or (InvalidPort part) (parse_u16 part)) (\<lambda>p.
            in_port_parts parts (ranges @ [(p, p)])))"

definition in_port_new :: "string \<Rightarrow> string \<Rightarrow> rule_error + rule" where
  "in_port_new ports a =
     and_then (in_port_parts (split_by port_separator ports) []) (\<lambda>ranges.
       if ranges = [] then Inl EmptyPortList else Inr (InPortRule ranges ports a))"

subsection \<open>The other leaf rules\<close>

definition dscp_new :: "string \<Rightarrow> string \<Rightarrow> rule_error + rule" where
  "dscp_new s a =
     and_then (ok_or (InvalidDscp (trim s)) (parse_u8 (trim s))) (\<lambda>v.
       if 63 < v then Inl (DscpTooLarge v) else Inr (DscpRule v s a))"

definition in_type_new :: "ext_lib \<Rightarrow> string \<Rightarrow> string \<Rightarrow> rule_error + rule" where
  "in_type_new E type_str a =
     (let upper = to_uppercase E type_str in
      if upper = ''HTTP'' then Inr (InTypeRule type_str a True True False False False)
      else if upper = ''HTTPS'' then Inr (InTypeRule type_str a False True False False False)
      else if upper = ''SOCKS5'' then Inr (InTypeRule type_str a False False True False False)
      else if upper = ''TPROXY'' then Inr (InTypeRule type_str a False False False True False)
      else if upper = ''INNER'' then Inr (InTypeRule type_str a False False False False True)
      else Inl (UnknownInType upper))"

definition in_name_new :: "string \<Rightarrow> string \<Rightarrow> rule_error + rule" where
  "in_name_new name a = Inr (InNameRule name a)"

definition in_user_new :: "string \<Rightarrow> string \<Rightarrow> rule_error + rule" where
  "in_user_new username a = Inr (InUserRule username a)"

definition uid_new :: "string \<Rightarrow> string \<Rightarrow> rule_error + rule" where
  "uid_new s a =
     and_then (ok_or (InvalidUid (trim s)) (parse_u32 (trim s))) (\<lambda>v. Inr (UidRule v s a))"

definition process_new :: "string \<Rightarrow> string \<Rightarrow> rule" where
  "process_new name a = ProcessRule name a"

definition path_glob_regex :: "ext_lib \<Rightarrow> string \<Rightarrow> string" where
  "path_glob_regex E pl =
     anchored (replace_str escaped_star (''[^/'' @ [char_of (92 :: nat), char_of (92 :: nat)] @ '']*'')
       (regex_escape E pl))"

definition process_path_new :: "ext_lib \<Rightarrow> string \<Rightarrow> string \<Rightarrow> rule_error + rule" where
  "process_path_new E pl a =
     and_then
       (if CHR ''*'' \<in> set pl then
          (let re = path_glob_regex E pl in
           if regex_new E re then Inr (PathGlob re) else Inl (InvalidGlob pl))
        else if starts_with_slash pl then Inr PathPrefix
        else Inr PathExact)
       (\<lambda>mode. Inr (ProcessPathRule pl mode a))"

definition network_new :: "ext_lib \<Rightarrow> string \<Rightarrow> string \<Rightarrow> rule_error + rule" where
  "network_new E net a =
     (let lower = to_lowercase E net in
      if lower = ''tcp'' then Inr (NetworkRule Tcp net a)
      else if lower = ''udp'' then Inr (NetworkRule Udp net a)
      else Inl (UnknownNetwork net))"

definition final_new :: "string \<Rightarrow> rule" where
  "final_new a = FinalRule a"

definition geosite_new :: "string \<Rightarrow> string \<Rightarrow> geosite_db arc option \<Rightarrow> rule" where
  "geosite_new pl a db = GeoSiteRule (to_ascii_lowercase (trim pl)) pl a db"

subsection \<open>Composite rules\<close>

definition and_new :: "rule list \<Rightarrow> string \<Rightarrow> rule" where
  "and_new rules a = AndRule rules a (join_with '' AND '' (map payload rules))"

definition or_new :: "rule list \<Rightarrow> string \<Rightarrow> rule" where
  "or_new rules a = OrRule rules a (join_with '' OR '' (map payload rules))"

definition not_new :: "rule \<Rightarrow> string \<Rightarrow> rule" where
  "not_new r a = NotRule r a (''NOT '' @ payload r)"

definition sub_rule_new :: "string \<Rightarrow> rule list \<Rightarrow> rule" where
  "sub_rule_new block_name block = SubRuleRule block_name block"

definition rule_set_rule_new :: "string \<Rightarrow> rule_set arc \<Rightarrow> string \<Rightarrow> rule_flags \<Rightarrow> rule" where
  "rule_set_rule_new name s a flags = RuleSetRule name (arc_ptr s) (arc_get s) a flags"

end
