(* ===== verification/Rule_Laws.thy ===== *)
theory Rule_Laws
  imports Rule_New
begin

unbundle bit_operations_syntax

section \<open>What rules mean\<close>

text \<open>
  Well-formedness of a rule (it is what its constructor returns on its payload), and the meaning
  of the predicates in terms of the text of the host, the bits of the address and the numbers of
  the port list; soundness of the build-time deadness test; the first-match reading of SUB-RULE.
\<close>

fun wf_rule :: "ext_lib \<Rightarrow> rule \<Rightarrow> bool"
and wf_rule_set :: "ext_lib \<Rightarrow> rule_set \<Rightarrow> bool" where
  "wf_rule E (DomainSuffixRule sfx _) \<longleftrightarrow> to_ascii_lowercase sfx = sfx"
| "wf_rule E (DomainKeywordRule kw _) \<longleftrightarrow> to_ascii_lowercase kw = kw"
| "wf_rule E (DomainRegexRule pat _) \<longleftrightarrow> regex_new E pat"
| "wf_rule E (DomainWildcardRule re raw _) \<longleftrightarrow> regex_new E re \<and> re = wildcard_regex E raw"
| "wf_rule E (IpCidrRule cidr s _ _ _) \<longleftrightarrow> net_parse E s = Some cidr"
| "wf_rule E (IpSuffixRule s a family src nr) \<longleftrightarrow> ip_suffix_new E s a src nr = Inr (IpSuffixRule s a family src nr)"
| "wf_rule E (PortRule ranges raw a src) \<longleftrightarrow> port_new raw a src = Inr (PortRule ranges raw a src)"
| "wf_rule E (InPortRule ranges raw a) \<longleftrightarrow> in_port_new raw a = Inr (InPortRule ranges raw a)"
| "wf_rule E (DscpRule v raw a) \<longleftrightarrow> dscp_new raw a = Inr (DscpRule v raw a)"
| "wf_rule E (InTypeRule raw a b1 b2 b3 b4 b5) \<longleftrightarrow> in_type_new E raw a = Inr (InTypeRule raw a b1 b2 b3 b4 b5)"
| "wf_rule E (UidRule v raw a) \<longleftrightarrow> uid_new raw a = Inr (UidRule v raw a)"
| "wf_rule E (ProcessPathRule pl mode a) \<longleftrightarrow> process_path_new E pl a = Inr (ProcessPathRule pl mode a)"
| "wf_rule E (NetworkRule net raw a) \<longleftrightarrow> network_new E raw a = Inr (NetworkRule net raw a)"
| "wf_rule E (GeoSiteRule category pl _ db) \<longleftrightarrow>
     category = to_ascii_lowercase (trim pl) \<and>
     (case db of None \<Rightarrow> True | Some db \<Rightarrow> named_buckets (arc_get db))"
| "wf_rule E (AndRule rules _ pl) \<longleftrightarrow> pl = join_with '' AND '' (map payload rules) \<and> list_all (wf_rule E) rules"
| "wf_rule E (OrRule rules _ pl) \<longleftrightarrow> pl = join_with '' OR '' (map payload rules) \<and> list_all (wf_rule E) rules"
| "wf_rule E (NotRule r _ pl) \<longleftrightarrow> pl = ''NOT '' @ payload r \<and> wf_rule E r"
| "wf_rule E (SubRuleRule _ block) \<longleftrightarrow> list_all (wf_rule E) block"
| "wf_rule E (RuleSetRule _ _ s _ _) \<longleftrightarrow> wf_rule_set E s"
| "wf_rule E _ \<longleftrightarrow> True"
| "wf_rule_set E (ClassicalRuleSet rules) \<longleftrightarrow> list_all (wf_rule E) rules"
| "wf_rule_set E _ \<longleftrightarrow> True"

subsection \<open>Domain predicates as facts about text\<close>

lemma nth_drop_suffix:
  assumes "length s < length h"
  shows "h ! (length h - length s - 1) = c \<and> drop (length h - length s - 1 + 1) h = s \<longleftrightarrow> suffix (c # s) h"
proof
  let ?i = "length h - length s - 1"
  have i: "?i < length h" using assms by simp
  show "h ! ?i = c \<and> drop (?i + 1) h = s \<Longrightarrow> suffix (c # s) h"
    using Cons_nth_drop_Suc [OF i] suffix_drop [of ?i h] by auto
  assume "suffix (c # s) h"
  then obtain x where "h = x @ c # s" by (auto simp: suffix_def)
  then show "h ! ?i = c \<and> drop (?i + 1) h = s" by simp
qed

lemma suffix_matches_text [rule_simps]:
  "suffix_matches sfx md \<longleftrightarrow>
     (let h = to_ascii_lowercase (rule_host md); s = to_ascii_lowercase sfx in
      h = s \<or> suffix (CHR ''.'' # s) h)"
proof -
  let ?h = "rule_host md"
  let ?lh = "to_ascii_lowercase ?h" and ?ls = "to_ascii_lowercase sfx"
  show ?thesis
  proof (cases "length sfx < length ?h")
    case True
    let ?i = "length ?h - length sfx - 1"
    have "?h ! ?i = CHR ''.'' \<longleftrightarrow> ?lh ! ?i = CHR ''.''"
      using True by (simp add: to_ascii_lowercase_def)
    then have "suffix_matches sfx md \<longleftrightarrow> ?lh ! ?i = CHR ''.'' \<and> drop (?i + 1) ?lh = ?ls"
      using True by (simp add: suffix_matches_def Let_def eq_ignore_ascii_case_iff to_ascii_lowercase_drop)
    also have "\<dots> \<longleftrightarrow> suffix (CHR ''.'' # ?ls) ?lh"
      using nth_drop_suffix [of ?ls ?lh "CHR ''.''"] True by simp
    finally have "suffix_matches sfx md \<longleftrightarrow> suffix (CHR ''.'' # ?ls) ?lh" .
    moreover have "?lh \<noteq> ?ls" using True by (metis length_to_ascii_lowercase less_irrefl)
    ultimately show ?thesis by (simp add: Let_def)
  next
    case False
    then have "\<not> suffix (CHR ''.'' # ?ls) ?lh" by (auto dest!: suffix_length_le)
    moreover have "?lh = ?ls \<Longrightarrow> length ?h = length sfx" by (metis length_to_ascii_lowercase)
    ultimately show ?thesis
      using False by (auto simp: suffix_matches_def Let_def eq_ignore_ascii_case_iff)
  qed
qed

lemma contains_str_sublist: "contains_str p s \<longleftrightarrow> sublist p s"
  by (induction s) (simp_all add: sublist_Cons_right)

lemma in_windows: "0 < n \<Longrightarrow> w \<in> set (windows n s) \<longleftrightarrow> length w = n \<and> (\<exists>x y. s = x @ w @ y)"
proof
  assume "0 < n" "w \<in> set (windows n s)"
  then obtain i where i: "i < length s + 1 - n" "w = take n (drop i s)" by (auto simp: windows_def)
  then have "length w = n" using \<open>0 < n\<close> by simp
  moreover have "s = take i s @ w @ drop n (drop i s)" unfolding i(2)
    by (metis append_take_drop_id)
  ultimately show "length w = n \<and> (\<exists>x y. s = x @ w @ y)" by blast
next
  assume "0 < n" "length w = n \<and> (\<exists>x y. s = x @ w @ y)"
  then obtain x y where "length w = n" "s = x @ w @ y" by blast
  then have "w = take n (drop (length x) s)" "length x < length s + 1 - n" using \<open>0 < n\<close> by simp_all
  then show "w \<in> set (windows n s)" by (auto simp: windows_def)
qed

lemma keyword_windows:
  assumes "p \<noteq> []"
  shows "list_ex (\<lambda>w. eq_ignore_ascii_case w p) (windows (length p) h) \<longleftrightarrow>
    sublist (to_ascii_lowercase p) (to_ascii_lowercase h)"
proof -
  have len: "0 < length p" using assms by simp
  have "list_ex (\<lambda>w. eq_ignore_ascii_case w p) (windows (length p) h) \<longleftrightarrow>
      (\<exists>w x y. h = x @ w @ y \<and> to_ascii_lowercase w = to_ascii_lowercase p)"
  proof -
    have "length w = length p" if "to_ascii_lowercase w = to_ascii_lowercase p" for w
      using that by (metis length_to_ascii_lowercase)
    then show ?thesis
      unfolding list_ex_iff Bex_def in_windows [OF len] eq_ignore_ascii_case_iff by blast
  qed
  also have "\<dots> \<longleftrightarrow> sublist (to_ascii_lowercase p) (to_ascii_lowercase h)"
  proof
    assume "\<exists>w x y. h = x @ w @ y \<and> to_ascii_lowercase w = to_ascii_lowercase p"
    then show "sublist (to_ascii_lowercase p) (to_ascii_lowercase h)"
      by (auto simp: sublist_def) metis
  next
    assume "sublist (to_ascii_lowercase p) (to_ascii_lowercase h)"
    then obtain x y where "to_ascii_lowercase h = x @ to_ascii_lowercase p @ y" by (auto simp: sublist_def)
    then show "\<exists>w x y. h = x @ w @ y \<and> to_ascii_lowercase w = to_ascii_lowercase p"
      unfolding to_ascii_lowercase_def by (metis map_eq_append_conv)
  qed
  finally show ?thesis .
qed

lemma keyword_matches_text [rule_simps]:
  "keyword_matches kw md \<longleftrightarrow> sublist (to_ascii_lowercase kw) (to_ascii_lowercase (rule_host md))"
proof (cases "kw = []")
  case False
  moreover have "\<not> sublist (to_ascii_lowercase kw) (to_ascii_lowercase (rule_host md))"
    if "length (rule_host md) < length kw"
    using that sublist_length_le [of "to_ascii_lowercase kw" "to_ascii_lowercase (rule_host md)"] by auto
  ultimately show ?thesis by (auto simp: keyword_matches_def Let_def keyword_windows)
qed (simp add: keyword_matches_def)

lemma domain_matches_text [rule_simps]:
  "domain_matches d md \<longleftrightarrow> to_ascii_lowercase (rule_host md) = to_ascii_lowercase d"
  by (simp add: domain_matches_def eq_ignore_ascii_case_iff)

text \<open>
  A DOMAIN-SUFFIX rule matches exactly the host equal to its payload and the hosts that end in
  a dot followed by the payload, ASCII case apart: never in the middle of a label.
\<close>

theorem domain_suffix_meaning:
  "match_metadata E P md (domain_suffix_new sfx a) \<longleftrightarrow>
     (let h = to_ascii_lowercase (rule_host md); s = to_ascii_lowercase sfx in
      h = s \<or> (\<exists>front. h = front @ ''.'' @ s))"
  by (simp add: domain_suffix_new_def suffix_matches_text suffix_def)

subsection \<open>Address suffixes\<close>

lemma low_mask4_eq: "p \<le> 32 \<Longrightarrow> low_mask4 p = Bit_Operations.mask p"
  by (auto simp: low_mask4_def mask_eq_exp_minus_1 push_bit_eq_mult intro: bit_word_eqI simp: bit_simps)

lemma low_mask6_eq: "p \<le> 128 \<Longrightarrow> low_mask6 p = Bit_Operations.mask p"
  by (auto simp: low_mask6_def mask_eq_exp_minus_1 push_bit_eq_mult intro: bit_word_eqI simp: bit_simps)

text \<open>
  An IP-SUFFIX rule that its constructor accepted matches exactly the addresses of its family
  whose lowest prefix-length bits are those of the address in the payload.
\<close>

theorem ip_suffix_meaning:
  assumes "ip_suffix_new E pl a src nr = Inr r"
  shows "match_metadata E P md r \<longleftrightarrow>
    (case (net_parse E pl, side_ip src md) of
       (Some (NetV4 n), Some (V4 ip)) \<Rightarrow> take_bit (prefix4 n) ip = take_bit (prefix4 n) (addr4 n)
     | (Some (NetV6 n), Some (V6 ip)) \<Rightarrow> take_bit (prefix6 n) ip = take_bit (prefix6 n) (addr6 n)
     | _ \<Rightarrow> False)"
proof -
  obtain net where net: "net_parse E pl = Some net"
    using assms by (auto simp: ip_suffix_new_def and_then_Inr ok_or_Inr)
  show ?thesis
  proof (cases net)
    case (NetV4 n)
    then have "prefix4 n \<le> 32"
      and r: "r = IpSuffixRule pl a (FamilyV4 (addr4 n AND low_mask4 (prefix4 n)) (low_mask4 (prefix4 n))) src nr"
      using assms net by (auto simp: ip_suffix_new_def Let_def split: if_splits)
    then show ?thesis
      by (auto simp: r net NetV4 low_mask4_eq take_bit_eq_mask split: option.split ip_addr.split)
  next
    case (NetV6 n)
    then have "prefix6 n \<le> 128"
      and r: "r = IpSuffixRule pl a (FamilyV6 (addr6 n AND low_mask6 (prefix6 n)) (low_mask6 (prefix6 n))) src nr"
      using assms net by (auto simp: ip_suffix_new_def Let_def split: if_splits)
    then show ?thesis
      by (auto simp: r net NetV6 low_mask6_eq take_bit_eq_mask split: option.split ip_addr.split)
  qed
qed

theorem ip_suffix_meaning_witness:
  "\<exists>r. ip_suffix_new demo_lib ''10.0.0.0/8'' ''DIRECT'' False False = Inr r \<and>
     match_metadata demo_lib \<lparr>PROCESS_LOOKUP_SUPPORTED = True, target_linux = True, INBOUND_PROCESS_INFO = False\<rparr>
       (default_metadata\<lparr>dst_ip := Some (V4 0x01020300)\<rparr>) r"
proof -
  have new: "ip_suffix_new demo_lib ''10.0.0.0/8'' ''DIRECT'' False False =
      Inr (IpSuffixRule ''10.0.0.0/8'' ''DIRECT'' (FamilyV4 0 255) False False)"
    by code_simp
  have parse: "net_parse demo_lib ''10.0.0.0/8'' = Some (NetV4 \<lparr>addr4 = 167772160, prefix4 = 8\<rparr>)"
    by (simp add: demo_lib_def)
  show ?thesis
    using ip_suffix_meaning [OF new, where md = "default_metadata\<lparr>dst_ip := Some (V4 0x01020300)\<rparr>"]
    by (intro exI [of _ "IpSuffixRule ''10.0.0.0/8'' ''DIRECT'' (FamilyV4 0 255) False False"])
      (simp add: new parse default_metadata_def side_ip_def)
qed

subsection \<open>Port lists\<close>

lemma in_port_parts_eq: "in_port_parts parts ranges = port_parts parts ranges"
  by (induction parts arbitrary: ranges) (simp_all add: Let_def split: option.split cong: if_cong)

lemma port_parts_prefix:
  "port_parts parts ranges = Inr rs \<Longrightarrow> \<exists>new. rs = ranges @ new \<and> (\<forall>(lo, hi) \<in> set new. lo \<le> hi)"
proof (induction parts arbitrary: ranges)
  case (Cons part parts)
  show ?case
  proof (cases "trim part = []")
    case True
    with Cons show ?thesis by (simp add: Let_def)
  next
    case False
    show ?thesis
    proof (cases "split_once CHR ''-'' (trim part)")
      case None
      then obtain v where "port_parts parts (ranges @ [(v, v)]) = Inr rs"
        using Cons.prems False by (auto simp: Let_def and_then_Inr)
      then show ?thesis using Cons.IH by fastforce
    next
      case (Some lr)
      obtain l r where lr: "split_once CHR ''-'' (trim part) = Some (l, r)" using Some by (cases lr) simp
      then obtain a b where "\<not> b < a" "port_parts parts (ranges @ [(a, b)]) = Inr rs"
        using Cons.prems False by (auto simp: Let_def and_then_Inr split: if_splits)
      then show ?thesis using Cons.IH by fastforce
    qed
  qed
qed simp

subsection \<open>Deadness\<close>

lemma empty_set_contains: "set_is_empty s \<Longrightarrow> set_contains s ip = Some False"
  by (cases ip) (simp_all add: set_is_empty_def iv_is_empty_def set_contains_def contains_v4_def contains_v6_def
      iv_contains_def partition_point_def binary_search_by_def)

lemma is_some_and_iff: "is_some_and p x \<longleftrightarrow> (\<exists>a. x = Some a \<and> p a)"
  by (simp add: is_some_and_def split: option.split)

lemma never_matches_no_match:
  assumes "never_matches P r" and "wf_rule E r" and "metadata_on P md"
  shows "\<not> match_metadata E P md r"
  using assms
proof (induction P r rule: never_matches.induct)
  case (1 P)
  then show ?case by (simp add: uid_rule_matches_def)
next
  case (2 P name)
  then show ?case by (auto simp: metadata_on_def process_matches_def eq_ignore_ascii_case_def)
next
  case (3 P)
  then show ?case by (simp add: metadata_on_def process_path_rule_matches_def)
next
  case (7 P category pl a db)
  then show ?case
    using resolve_keys_None by (auto simp: geosite_matches_def Let_def split: option.splits if_splits)
next
  case (8 P rules)
  then show ?case by (auto simp: list_ex_iff list_all_iff)
next
  case (9 P rules)
  then show ?case by (auto simp: list_ex_iff list_all_iff)
next
  case (10 P name block)
  then show ?case by (auto simp: list_ex_iff list_all_iff)
qed (simp_all add: is_some_and_iff ranges_contain_def empty_set_contains)

lemma match_and_resolve_static:
  "type_of_rule r \<noteq> RtSubRule \<Longrightarrow>
   match_and_resolve E P pr md r = (if match_metadata E P md r then Some (adapter r) else None)"
  by (cases r) simp_all

lemma type_SubRule: "type_of_rule r = RtSubRule \<longleftrightarrow> (\<exists>name block. r = SubRuleRule name block)"
  by (cases r) simp_all

lemma never_matches_no_target:
  assumes "never_matches P r" and "wf_rule E r" and "metadata_on P md"
  shows "match_and_resolve E P pr md r = None"
  using assms(1,2)
proof (induction r rule: measure_induct_rule [where f = size])
  case (less r)
  show ?case
  proof (cases "type_of_rule r = RtSubRule")
    case True
    then obtain name block where r: "r = SubRuleRule name block" by (auto simp: type_SubRule)
    have "resolve_block E P pr md rs = None" if "set rs \<subseteq> set block" for rs
      using that
    proof (induction rs)
      case (Cons x rs)
      then have x: "x \<in> set block" by simp
      then have "size x < size r" by (simp add: r size_list_estimation less_Suc_eq_le size_list_estimation')
      then have "match_and_resolve E P pr md x = None"
        using less x by (auto simp: r list_all_iff)
      with Cons show ?case by simp
    qed simp
    then show ?thesis by (simp add: r)
  next
    case False
    then show ?thesis
      using never_matches_no_match [OF less.prems assms(3)] by (simp add: match_and_resolve_static)
  qed
qed

text \<open>
  C22. The build-time deadness test is sound: a rule for which \<^verbatim>\<open>never_matches\<close> answers true matches no
  connection the platform can produce, and resolves to no target.
\<close>

theorem never_matches_sound:
  assumes "never_matches P r" and "wf_rule E r" and "metadata_on P md"
  shows "\<not> match_metadata E P md r \<and> match_and_resolve E P pr md r = None"
  using never_matches_no_match [OF assms] never_matches_no_target [OF assms] by simp

definition demo_platform :: platform where
  "demo_platform = \<lparr>PROCESS_LOOKUP_SUPPORTED = True, target_linux = False, INBOUND_PROCESS_INFO = False\<rparr>"

definition demo_probe :: target_probe where
  "demo_probe = closure_probe (\<lambda>_. True)"

theorem never_matches_sound_witness:
  "\<not> match_metadata demo_lib demo_platform (default_metadata\<lparr>uid := Some 1000\<rparr>)
       (and_new [UidRule 1000 ''1000'' ''A'', DomainRule ''a.com'' ''A''] ''A'') \<and>
   match_and_resolve demo_lib demo_platform demo_probe (default_metadata\<lparr>uid := Some 1000\<rparr>)
       (and_new [UidRule 1000 ''1000'' ''A'', DomainRule ''a.com'' ''A''] ''A'') = None"
  by (rule never_matches_sound; code_simp)

subsection \<open>SUB-RULE blocks\<close>

definition passes_over :: "target_probe \<Rightarrow> string option \<Rightarrow> bool" where
  "passes_over pr t \<longleftrightarrow> (case t of None \<Rightarrow> True | Some n \<Rightarrow> n = ''PASS-RULE'' \<or> is_pass_rule pr n)"

lemma resolve_block_first:
  "resolve_block E P pr md block = Some t \<longleftrightarrow>
     (\<exists>i < length block. match_and_resolve E P pr md (block ! i) = Some t \<and> \<not> passes_over pr (Some t) \<and>
        (\<forall>j < i. passes_over pr (match_and_resolve E P pr md (block ! j))))"
proof (induction block)
  case (Cons r rs)
  let ?m = "match_and_resolve E P pr md"
  show ?case
  proof (cases "passes_over pr (?m r)")
    case True
    then have "resolve_block E P pr md (r # rs) = resolve_block E P pr md rs"
      by (auto simp: passes_over_def split: option.splits)
    then have "resolve_block E P pr md (r # rs) = Some t \<longleftrightarrow>
        (\<exists>i < length rs. ?m (rs ! i) = Some t \<and> \<not> passes_over pr (Some t) \<and>
           (\<forall>j < i. passes_over pr (?m (rs ! j))))"
      using Cons by (simp only:)
    also have "\<dots> \<longleftrightarrow> (\<exists>i < length (r # rs). ?m ((r # rs) ! i) = Some t \<and> \<not> passes_over pr (Some t) \<and>
           (\<forall>j < i. passes_over pr (?m ((r # rs) ! j))))"
      using True by (auto simp: Ex_less_Suc2 All_less_Suc2)
    finally show ?thesis .
  next
    case False
    then obtain n where "?m r = Some n" "resolve_block E P pr md (r # rs) = Some n"
      by (auto simp: passes_over_def split: option.splits)
    with False show ?thesis by (auto simp: Ex_less_Suc2 All_less_Suc2)
  qed
qed simp

text \<open>
  C23. A SUB-RULE gives the target of the first inner rule that matches and is not passed over
  (\<^verbatim>\<open>PASS-RULE\<close> or an adapter of that type); while an inner rule needs the destination address and
  it is not resolved, the whole block gives nothing.
\<close>

theorem sub_rule_first_match:
  "match_and_resolve E P pr md (sub_rule_new name block) = Some t \<longleftrightarrow>
     (should_resolve_ip P (sub_rule_new name block) \<longrightarrow> resolved md) \<and>
     (\<exists>i < length block. match_and_resolve E P pr md (block ! i) = Some t \<and>
        t \<noteq> ''PASS-RULE'' \<and> \<not> is_pass_rule pr t \<and>
        (\<forall>j < i. case match_and_resolve E P pr md (block ! j) of
           None \<Rightarrow> True | Some n \<Rightarrow> n = ''PASS-RULE'' \<or> is_pass_rule pr n))"
  by (auto simp: sub_rule_new_def resolve_block_first passes_over_def)

theorem sub_rule_first_match_witness:
  "match_and_resolve demo_lib demo_platform demo_probe (default_metadata\<lparr>host := ''a.com''\<rparr>)
     (sub_rule_new ''blk'' [DomainRule ''a.com'' ''PASS-RULE'', DomainRule ''b.com'' ''B'', FinalRule ''C'']) = Some ''C''"
  unfolding sub_rule_first_match by (intro conjI exI [of _ 2]; code_simp)

end
