(* ===== verification/Geo_Index.thy ===== *)
theory Geo_Index
  imports Ip_Set "HOL-Library.AList"
begin

section \<open>Country and ASN indexes\<close>

text \<open>
  \<^verbatim>\<open>country_index.rs\<close> and \<^verbatim>\<open>asn_index.rs\<close> of \<^verbatim>\<open>meow-rules/src\<close>: one walk over the networks of a
  MaxMind database sorts them into range sets, by packed country code or by number, for the codes
  the rules name. The database reader is not part of the repository: its iterator is the argument
  \<open>items\<close>, one entry per network with the offset of its record, the decoded field and the address
  range. The bucket of a record is remembered by offset.
\<close>

record 'k mmdb_item =
  item_offset :: "nat option"
  item_field :: "'k option"
  item_net :: "(ip_addr \<times> nat) option"

subsection \<open>Packed country codes\<close>

definition NUL :: char where
  "NUL = char_of (0 :: nat)"

definition from_str_upper :: "string \<Rightarrow> string" where
  "from_str_upper s =
     (let n = min (length s) 8 in map upper_byte (take n s) @ replicate (8 - n) NUL)"

text \<open>\<open>utf8\<close> is the check of \<^verbatim>\<open>str::from_utf8\<close>.\<close>

definition key_as_str :: "(string \<Rightarrow> bool) \<Rightarrow> string \<Rightarrow> string" where
  "key_as_str utf8 key = (let k = takeWhile (\<lambda>b. b \<noteq> NUL) key in if utf8 k then k else [])"

subsection \<open>The walk\<close>

fun position :: "('a \<Rightarrow> bool) \<Rightarrow> 'a list \<Rightarrow> nat option" where
  "position p [] = None"
| "position p (x # xs) = (if p x then Some 0 else map_option Suc (position p xs))"

definition add_network :: "ext_lib \<Rightarrow> ip_range_set_builder \<Rightarrow> ip_addr \<Rightarrow> nat \<Rightarrow> ip_range_set_builder" where
  "add_network E bucket ip p =
     (case ip of
        V4 a \<Rightarrow> (case net_new4 E a p of Some n \<Rightarrow> add_v4 E bucket n | None \<Rightarrow> bucket)
      | V6 a \<Rightarrow> (case net_new6 E a p of Some n \<Rightarrow> add_v6 E bucket n | None \<Rightarrow> bucket))"

text \<open>One iteration: \<open>find_bucket\<close> is the lookup of the decoded field among the allowed keys.\<close>

definition walk_item ::
  "ext_lib \<Rightarrow> ('k \<Rightarrow> nat option) \<Rightarrow> (nat \<times> nat option) list \<times> ip_range_set_builder list \<Rightarrow>
   'k mmdb_item option \<Rightarrow> (nat \<times> nat option) list \<times> ip_range_set_builder list" where
  "walk_item E find_bucket st res =
     (let (cache, buckets) = st in
      case res of
        None \<Rightarrow> (cache, buckets)
      | Some item \<Rightarrow> (case item_offset item of
        None \<Rightarrow> (cache, buckets)
      | Some off \<Rightarrow>
          (let (idx, cache) =
             (case map_of cache off of
                Some cached \<Rightarrow> (cached, cache)
              | None \<Rightarrow>
                  (let found = (case item_field item of Some k \<Rightarrow> find_bucket k | None \<Rightarrow> None)
                   in (found, AList.update off found cache))) in
           case idx of
             None \<Rightarrow> (cache, buckets)
           | Some i \<Rightarrow> (case item_net item of
               None \<Rightarrow> (cache, buckets)
             | Some (ip, p) \<Rightarrow> (cache, buckets[i := add_network E (buckets ! i) ip p])))))"

definition walk_items ::
  "ext_lib \<Rightarrow> ('k \<Rightarrow> nat option) \<Rightarrow> nat \<Rightarrow> 'k mmdb_item option list \<Rightarrow> ip_range_set_builder list" where
  "walk_items E find_bucket n items =
     snd (foldl (walk_item E find_bucket) ([], replicate n set_builder_new) items)"

definition builder_is_empty :: "ip_range_set_builder \<Rightarrow> bool" where
  "builder_is_empty b \<longleftrightarrow> pend_v4 b = [] \<and> pend_v6 b = []"

fun collect_buckets ::
  "('k \<Rightarrow> 'n) \<Rightarrow> nat \<Rightarrow> ('k \<times> ip_range_set_builder) list \<Rightarrow> ('n \<times> ip_range_set arc) list \<Rightarrow>
   ('n \<times> ip_range_set arc) list" where
  "collect_buckets name ptr [] m = m"
| "collect_buckets name ptr ((key, bucket) # bs) m =
     (if builder_is_empty bucket then collect_buckets name ptr bs m
      else collect_buckets name (Suc ptr) bs (AList.update (name key) (ptr, set_build bucket) m))"

definition empty_range_set :: ip_range_set where
  "empty_range_set = \<lparr>set_v4 = \<lparr>starts = [], ends = []\<rparr>, set_v6 = \<lparr>starts = [], ends = []\<rparr>\<rparr>"

text \<open>
  \<open>ptr\<close> is the first address of the shared sets the build allocates; address 0 stands for the
  fresh empty set of an unknown code.
\<close>

definition country_index_build ::
  "ext_lib \<Rightarrow> (string \<Rightarrow> bool) \<Rightarrow> nat \<Rightarrow> string list \<Rightarrow> string mmdb_item option list \<Rightarrow>
   string + (string \<times> ip_range_set arc) list" where
  "country_index_build E utf8 ptr allowed items =
     (if allowed = [] then Inr []
      else let allowed_keys = map from_str_upper allowed in
        if 65535 < length allowed_keys then Inl ''GeoIP allowlist''
        else let buckets = walk_items E (\<lambda>iso. position (\<lambda>k. k = from_str_upper iso) allowed_keys)
                   (length allowed_keys) items in
          Inr (collect_buckets (key_as_str utf8) ptr (zip allowed_keys buckets) []))"

definition country_ranges_for :: "(string \<times> ip_range_set arc) list \<Rightarrow> string \<Rightarrow> ip_range_set arc" where
  "country_ranges_for by_country country =
     (case map_of by_country (to_ascii_uppercase country) of Some s \<Rightarrow> s | None \<Rightarrow> (0, empty_range_set))"

definition country_count :: "(string \<times> ip_range_set arc) list \<Rightarrow> nat" where
  "country_count by_country = length by_country"

definition asn_index_build ::
  "ext_lib \<Rightarrow> nat \<Rightarrow> 32 word list \<Rightarrow> 32 word mmdb_item option list \<Rightarrow>
   string + (32 word \<times> ip_range_set arc) list" where
  "asn_index_build E ptr allowed items =
     (if allowed = [] then Inr []
      else if 65535 < length allowed then Inl ''ASN allowlist''
      else let buckets = walk_items E (\<lambda>asn. position (\<lambda>k. k = asn) allowed) (length allowed) items in
        Inr (collect_buckets (\<lambda>asn. asn) ptr (zip allowed buckets) []))"

definition asn_ranges_for :: "(32 word \<times> ip_range_set arc) list \<Rightarrow> 32 word \<Rightarrow> ip_range_set arc" where
  "asn_ranges_for by_asn asn = (case map_of by_asn asn of Some s \<Rightarrow> s | None \<Rightarrow> (0, empty_range_set))"

definition asn_count :: "(32 word \<times> ip_range_set arc) list \<Rightarrow> nat" where
  "asn_count by_asn = length by_asn"

subsection \<open>What the walk collects\<close>

text \<open>
  Documented behaviour the walk relies on: the records of one offset decode to one field, and
  \<^verbatim>\<open>Ipv4Net::new\<close> keeps the address and the prefix length it is given.
\<close>

definition same_records :: "(nat \<Rightarrow> 'k option) \<Rightarrow> 'k mmdb_item option list \<Rightarrow> bool" where
  "same_records rec items \<longleftrightarrow>
     (\<forall>item off. Some item \<in> set items \<longrightarrow> item_offset item = Some off \<longrightarrow> item_field item = rec off)"

text \<open>The network of an item, when the item has a record and its prefix length is valid.\<close>

definition item_ip_net :: "ext_lib \<Rightarrow> 'k mmdb_item \<Rightarrow> ip_net option" where
  "item_ip_net E item =
     (if item_offset item = None then None
      else case item_net item of
        None \<Rightarrow> None
      | Some (V4 a, p) \<Rightarrow> map_option NetV4 (net_new4 E a p)
      | Some (V6 a, p) \<Rightarrow> map_option NetV6 (net_new6 E a p))"

definition item_bucket :: "('k \<Rightarrow> nat option) \<Rightarrow> 'k mmdb_item \<Rightarrow> nat option" where
  "item_bucket find_bucket item = (case item_field item of Some k \<Rightarrow> find_bucket k | None \<Rightarrow> None)"

fun bucket_nets :: "ext_lib \<Rightarrow> ('k \<Rightarrow> nat option) \<Rightarrow> nat \<Rightarrow> 'k mmdb_item option list \<Rightarrow> ip_net list" where
  "bucket_nets E fb i [] = []"
| "bucket_nets E fb i (None # items) = bucket_nets E fb i items"
| "bucket_nets E fb i (Some item # items) =
     (case item_ip_net E item of
        Some n \<Rightarrow> if item_bucket fb item = Some i then n # bucket_nets E fb i items else bucket_nets E fb i items
      | None \<Rightarrow> bucket_nets E fb i items)"

lemma set_bucket_nets:
  "n \<in> set (bucket_nets E fb i items) \<longleftrightarrow>
     (\<exists>item. Some item \<in> set items \<and> item_ip_net E item = Some n \<and> item_bucket fb item = Some i)"
  by (induction E fb i items rule: bucket_nets.induct) (auto split: option.splits)

lemma bucket_nets_contain:
  "(\<exists>n \<in> set (bucket_nets E fb i items). Q n) \<longleftrightarrow>
     (\<exists>item n. Some item \<in> set items \<and> (\<exists>k. item_field item = Some k \<and> fb k = Some i) \<and>
        item_ip_net E item = Some n \<and> Q n)"
proof -
  have "item_bucket fb item = Some i \<longleftrightarrow> (\<exists>k. item_field item = Some k \<and> fb k = Some i)" for item
    by (auto simp: item_bucket_def split: option.split)
  then show ?thesis by (simp add: Bex_def set_bucket_nets) blast
qed

definition cache_ok :: "('k \<Rightarrow> nat option) \<Rightarrow> (nat \<Rightarrow> 'k option) \<Rightarrow> (nat \<times> nat option) list \<Rightarrow> bool" where
  "cache_ok fb rec cache \<longleftrightarrow>
     (\<forall>off x. map_of cache off = Some x \<longrightarrow> x = (case rec off of Some k \<Rightarrow> fb k | None \<Rightarrow> None))"

lemma add_network_nets:
  "add_network E b ip p =
     (case (case (ip, p) of (V4 a, p) \<Rightarrow> map_option NetV4 (net_new4 E a p) | (V6 a, p) \<Rightarrow> map_option NetV6 (net_new6 E a p)) of
        Some n \<Rightarrow> set_add E b n | None \<Rightarrow> b)"
  by (cases ip) (simp_all add: add_network_def set_add_def split: option.split)

text \<open>One iteration in closed form: the cache stays sound and one bucket gains the network.\<close>

lemma walk_item_step:
  assumes "cache_ok fb rec cache" and "\<And>off. item_offset item = Some off \<Longrightarrow> item_field item = rec off"
  shows "\<exists>cache'. cache_ok fb rec cache' \<and>
    walk_item E fb (cache, buckets) (Some item) =
      (cache', case (item_ip_net E item, item_bucket fb item) of
         (Some n, Some i) \<Rightarrow> buckets[i := set_add E (buckets ! i) n]
       | _ \<Rightarrow> buckets)"
proof (cases "item_offset item")
  case None
  then show ?thesis using assms(1) by (auto simp: walk_item_def item_ip_net_def)
next
  case (Some off)
  define found where "found = item_bucket fb item"
  have fnd: "found = (case rec off of Some k \<Rightarrow> fb k | None \<Rightarrow> None)"
    using assms(2) [OF Some] by (simp add: found_def item_bucket_def)
  define cache' where "cache' = (if map_of cache off = None then AList.update off found cache else cache)"
  have ok: "cache_ok fb rec cache'"
    using assms(1) fnd by (auto simp: cache_ok_def cache'_def update_conv' fun_upd_def)
  have look: "(case map_of cache off of Some cached \<Rightarrow> (cached, cache)
      | None \<Rightarrow> (let found = (case item_field item of Some k \<Rightarrow> fb k | None \<Rightarrow> None) in
           (found, AList.update off found cache))) = (found, cache')"
    using assms(1) fnd
    by (auto simp: cache_ok_def cache'_def found_def item_bucket_def Let_def split: option.split)
  show ?thesis
  proof (intro exI conjI)
    show "cache_ok fb rec cache'" by (rule ok)
    show "walk_item E fb (cache, buckets) (Some item) =
      (cache', case (item_ip_net E item, item_bucket fb item) of
         (Some n, Some i) \<Rightarrow> buckets[i := set_add E (buckets ! i) n]
       | _ \<Rightarrow> buckets)"
      unfolding walk_item_def prod.case option.case Some Let_def
      using look unfolding Let_def
      by (simp add: found_def [symmetric] item_ip_net_def Some add_network_nets split: option.split ip_addr.split)
  qed
qed

lemma walk_items_fold:
  assumes "same_records rec items" and "cache_ok fb rec cache" and "\<And>k i. fb k = Some i \<Longrightarrow> i < length buckets"
  shows "snd (foldl (walk_item E fb) (cache, buckets) items) =
    map (\<lambda>i. foldl (set_add E) (buckets ! i) (bucket_nets E fb i items)) [0..<length buckets]"
  using assms
proof (induction items arbitrary: cache buckets)
  case Nil
  then show ?case by (simp add: map_nth)
next
  case (Cons res items)
  have rest: "same_records rec items" using Cons.prems(1) by (auto simp: same_records_def)
  show ?case
  proof (cases res)
    case None
    then have "walk_item E fb (cache, buckets) res = (cache, buckets)" by (simp add: walk_item_def)
    then show ?thesis using Cons.IH [OF rest Cons.prems(2,3)] None by simp
  next
    case (Some item)
    have same: "item_field item = rec off" if "item_offset item = Some off" for off
      using Cons.prems(1) that Some unfolding same_records_def by (metis list.set_intros(1))
    obtain cache' where c: "cache_ok fb rec cache'" and step: "walk_item E fb (cache, buckets) (Some item) =
      (cache', case (item_ip_net E item, item_bucket fb item) of
         (Some n, Some i) \<Rightarrow> buckets[i := set_add E (buckets ! i) n]
       | _ \<Rightarrow> buckets)"
      using walk_item_step [OF Cons.prems(2) same, of E buckets] by blast
    show ?thesis
    proof (cases "item_ip_net E item = None \<or> item_bucket fb item = None")
      case True
      then have "walk_item E fb (cache, buckets) (Some item) = (cache', buckets)"
        using step by (auto split: option.splits)
      then show ?thesis using Cons.IH [OF rest c Cons.prems(3)] Some True by (auto split: option.splits)
    next
      case False
      then obtain n i where ni: "item_ip_net E item = Some n" "item_bucket fb item = Some i" by auto
      then have "i < length buckets" using Cons.prems(3) by (auto simp: item_bucket_def split: option.splits)
      have s: "walk_item E fb (cache, buckets) (Some item) = (cache', buckets[i := set_add E (buckets ! i) n])"
        using step ni by simp
      have "snd (foldl (walk_item E fb) (cache, buckets) (res # items)) =
          map (\<lambda>j. foldl (set_add E) (buckets[i := set_add E (buckets ! i) n] ! j) (bucket_nets E fb j items))
            [0..<length buckets]"
        using Cons.IH [OF rest c, of "buckets[i := set_add E (buckets ! i) n]"] Cons.prems(3) Some s by simp
      also have "\<dots> = map (\<lambda>j. foldl (set_add E) (buckets ! j) (bucket_nets E fb j (res # items))) [0..<length buckets]"
        using ni Some \<open>i < length buckets\<close> by (auto simp: nth_list_update)
      finally show ?thesis .
    qed
  qed
qed

lemma position_Some: "position p xs = Some i \<Longrightarrow> i < length xs \<and> p (xs ! i) \<and> (\<forall>j < i. \<not> p (xs ! j))"
  by (induction xs arbitrary: i) (auto split: if_splits simp: nth_Cons' All_less_Suc2)

lemma position_None: "position p xs = None \<longleftrightarrow> (\<forall>x \<in> set xs. \<not> p x)"
  by (induction xs) auto

lemma walk_items_buckets:
  assumes "same_records rec items" and "\<And>k i. fb k = Some i \<Longrightarrow> i < n"
  shows "walk_items E fb n items =
    map (\<lambda>i. foldl (set_add E) set_builder_new (bucket_nets E fb i items)) [0..<n]"
  using walk_items_fold [OF assms(1), of fb "[]" "replicate n set_builder_new" E] assms(2)
  by (simp add: walk_items_def cache_ok_def)

lemma set_build_empty: "builder_is_empty b \<Longrightarrow> set_build b = empty_range_set"
  by (simp add: builder_is_empty_def set_build_def empty_range_set_def from_unsorted_def)

text \<open>Collecting: the last non-empty bucket of a name, or what the map held before.\<close>

lemma collect_buckets_lookup:
  "map_option snd (map_of (collect_buckets name ptr bs m) nm) =
     (case filter (\<lambda>(k, b). name k = nm \<and> \<not> builder_is_empty b) bs of
        [] \<Rightarrow> map_option snd (map_of m nm)
      | xs \<Rightarrow> Some (set_build (snd (last xs))))"
proof (induction name ptr bs m rule: collect_buckets.induct)
  case (2 name ptr key bucket bs m)
  then show ?case
    by (cases "builder_is_empty bucket"; cases "name key = nm")
      (auto simp: update_conv' split: list.splits)
qed simp

lemma collect_buckets_only:
  assumes "\<And>k b. (k, b) \<in> set bs \<Longrightarrow> name k = nm \<Longrightarrow> \<not> builder_is_empty b \<Longrightarrow> set_build b = s"
    and "\<And>k b. (k, b) \<in> set bs \<Longrightarrow> name k = nm \<Longrightarrow> s = empty_range_set \<or> (\<exists>k b. (k, b) \<in> set bs \<and> name k = nm \<and> \<not> builder_is_empty b)"
    and "\<exists>k b. (k, b) \<in> set bs \<and> name k = nm"
  shows "snd (case map_of (collect_buckets name ptr bs []) nm of Some s \<Rightarrow> s | None \<Rightarrow> (0, empty_range_set)) = s"
proof -
  let ?xs = "filter (\<lambda>(k, b). name k = nm \<and> \<not> builder_is_empty b) bs"
  have look: "map_option snd (map_of (collect_buckets name ptr bs []) nm) =
      (if ?xs = [] then None else Some (set_build (snd (last ?xs))))"
    unfolding collect_buckets_lookup by (simp split: list.split)
  show ?thesis
  proof (cases "?xs = []")
    case True
    then have "map_of (collect_buckets name ptr bs []) nm = None" using look by simp
    moreover have "s = empty_range_set" using assms(2,3) True by (auto simp: filter_empty_conv)
    ultimately show ?thesis by simp
  next
    case False
    then have mem: "last ?xs \<in> set ?xs" by (rule last_in_set)
    obtain k b where kb: "last ?xs = (k, b)" by (cases "last ?xs")
    have "(k, b) \<in> set bs \<and> name k = nm \<and> \<not> builder_is_empty b" using mem unfolding kb by simp
    then have "set_build (snd (last ?xs)) = s" using assms(1) unfolding kb by auto
    then show ?thesis using look False by (auto split: option.split)
  qed
qed

lemma index_lookup:
  fixes f :: "'k \<Rightarrow> 'a" and keys :: "'a list"
  defines "fb \<equiv> \<lambda>x. position (\<lambda>k. k = f x) keys"
  assumes "same_records rec items" and kk: "kk \<in> set keys" and name: "\<And>k. k \<in> set keys \<Longrightarrow> name k = nm \<longleftrightarrow> k = kk"
  obtains i where "\<And>x. fb x = Some i \<longleftrightarrow> f x = kk"
    and "snd (case map_of (collect_buckets name ptr (zip keys (walk_items E fb (length keys) items)) []) nm of
           Some s \<Rightarrow> s | None \<Rightarrow> (0, empty_range_set)) = from_nets E (bucket_nets E fb i items)"
proof -
  obtain i where i: "position (\<lambda>k. k = kk) keys = Some i"
    using kk position_None [of "\<lambda>k. k = kk" keys] by fastforce
  note pos = position_Some [OF i]
  have fb_i: "fb x = Some i \<longleftrightarrow> f x = kk" for x
    using i pos position_Some [of "\<lambda>k. k = f x" keys i] by (auto simp: fb_def)
  have bound: "j < length keys" if "fb x = Some j" for x j
    using that position_Some by (auto simp: fb_def)
  let ?b = "\<lambda>j. foldl (set_add E) set_builder_new (bucket_nets E fb j items)"
  have buckets: "walk_items E fb (length keys) items = map ?b [0..<length keys]"
    by (rule walk_items_buckets [OF assms(2) bound])
  have mem: "(k, b) \<in> set (zip keys (map ?b [0..<length keys])) \<longleftrightarrow> (\<exists>j < length keys. k = keys ! j \<and> b = ?b j)" for k b
    by (auto simp: set_zip)
  have other: "builder_is_empty (?b j)" if "j < length keys" "keys ! j = kk" "j \<noteq> i" for j
  proof -
    have "i < j" using pos that by (metis linorder_neqE_nat)
    then have "fb x \<noteq> Some j" for x
      using that pos position_Some [of "\<lambda>k. k = f x" keys j] by (auto simp: fb_def)
    then have "n \<notin> set (bucket_nets E fb j items)" for n
      by (auto simp: set_bucket_nets item_bucket_def split: option.splits)
    then have "bucket_nets E fb j items = []" by (metis list.set_intros(1) neq_Nil_conv)
    then show ?thesis by (simp add: builder_is_empty_def set_builder_new_def)
  qed
  have "snd (case map_of (collect_buckets name ptr (zip keys (map ?b [0..<length keys])) []) nm of
           Some s \<Rightarrow> s | None \<Rightarrow> (0, empty_range_set)) = set_build (?b i)"
  proof (rule collect_buckets_only)
    show "set_build b = set_build (?b i)"
      if h: "(k, b) \<in> set (zip keys (map ?b [0..<length keys]))" "name k = nm" "\<not> builder_is_empty b" for k b
    proof -
      obtain j where j: "j < length keys" "k = keys ! j" "b = ?b j" using h(1) unfolding mem by (elim exE conjE)
      then have "keys ! j = kk" using name [of k] h(2) by auto
      then have "j = i" using other j h(3) by blast
      then show ?thesis using j by simp
    qed
    show "\<exists>k b. (k, b) \<in> set (zip keys (map ?b [0..<length keys])) \<and> name k = nm"
      using pos name [OF kk] mem by blast
    show "set_build (?b i) = empty_range_set \<or>
        (\<exists>k b. (k, b) \<in> set (zip keys (map ?b [0..<length keys])) \<and> name k = nm \<and> \<not> builder_is_empty b)"
      using set_build_empty [of "?b i"] pos name [OF kk] mem by blast
  qed
  then show ?thesis using that [of i] fb_i buckets by (simp add: from_nets_def)
qed

text \<open>
  The ASN index is exact: for an allowed number, the set the index returns contains an address
  if and only if some network of the database carries that number and contains the address.
\<close>

theorem asn_index_exact:
  assumes "ipnet_ok E" and "same_records rec items" and "asn \<in> set allowed"
    and "asn_index_build E ptr allowed items = Inr idx"
  shows "set_contains (arc_get (asn_ranges_for idx asn)) ip =
    Some (\<exists>item n. Some item \<in> set items \<and> item_field item = Some asn \<and> item_ip_net E item = Some n \<and> net_contains E n ip)"
proof -
  let ?fb = "\<lambda>x. position (\<lambda>k. k = x) allowed"
  obtain i where i: "\<And>x. ?fb x = Some i \<longleftrightarrow> x = asn"
    and s: "snd (case map_of (collect_buckets (\<lambda>a. a) ptr (zip allowed (walk_items E ?fb (length allowed) items)) []) asn of
           Some s \<Rightarrow> s | None \<Rightarrow> (0, empty_range_set)) = from_nets E (bucket_nets E ?fb i items)"
    by (rule index_lookup [OF assms(2,3), where f = "\<lambda>x. x" and name = "\<lambda>a. a" and nm = asn and E = E and ptr = ptr]) blast+
  have "idx = collect_buckets (\<lambda>a. a) ptr (zip allowed (walk_items E ?fb (length allowed) items)) []"
    using assms(3,4) by (auto simp: asn_index_build_def Let_def split: if_splits)
  then have "arc_get (asn_ranges_for idx asn) = from_nets E (bucket_nets E ?fb i items)"
    using s by (simp add: asn_ranges_for_def)
  then show ?thesis
    by (simp add: set_contains_from_nets [OF assms(1)] bucket_nets_contain i)
qed

text \<open>Codes as rules and allowlists write them: ASCII, at most eight bytes, no NUL.\<close>

definition country_code :: "string \<Rightarrow> bool" where
  "country_code c \<longleftrightarrow> length c \<le> 8 \<and> is_ascii c \<and> NUL \<notin> set c"

lemma upper_byte_NUL: "upper_byte c = NUL \<longleftrightarrow> c = NUL"
proof -
  have "byte_val (upper_byte c) = 0 \<longleftrightarrow> byte_val c = 0"
    by (auto simp: upper_byte_def is_ascii_lowercase_def)
  moreover have "byte_val NUL = 0" by (simp add: NUL_def)
  ultimately show ?thesis by (metis byte_val_inject)
qed

lemma is_ascii_upper: "is_ascii s \<Longrightarrow> is_ascii (to_ascii_uppercase s)"
  by (auto simp: is_ascii_def to_ascii_uppercase_def list_all_iff is_ascii_byte_def upper_byte_def is_ascii_lowercase_def)

lemma key_as_str_code:
  assumes "country_code c" and "\<And>s. is_ascii s \<Longrightarrow> utf8 s"
  shows "key_as_str utf8 (from_str_upper c) = to_ascii_uppercase c"
proof -
  have "takeWhile (\<lambda>b. b \<noteq> NUL) (to_ascii_uppercase c @ replicate n NUL) = to_ascii_uppercase c" for n
    using assms(1) by (subst takeWhile_append2)
      (auto simp: to_ascii_uppercase_def country_code_def upper_byte_NUL takeWhile_replicate)
  then show ?thesis
    using assms is_ascii_upper [of c]
    by (simp add: key_as_str_def from_str_upper_def Let_def country_code_def to_ascii_uppercase_def [symmetric] min_def)
qed

lemma from_str_upper_eq:
  assumes "country_code c" and "country_code d"
  shows "from_str_upper c = from_str_upper d \<longleftrightarrow> to_ascii_uppercase c = to_ascii_uppercase d"
proof
  assume "from_str_upper c = from_str_upper d"
  then show "to_ascii_uppercase c = to_ascii_uppercase d"
    using key_as_str_code [OF assms(1), of "\<lambda>_. True"] key_as_str_code [OF assms(2), of "\<lambda>_. True"] by simp
next
  assume eq: "to_ascii_uppercase c = to_ascii_uppercase d"
  then have "length c = length d" by (metis to_ascii_uppercase_def length_map)
  then show "from_str_upper c = from_str_upper d"
    using eq assms by (simp add: from_str_upper_def Let_def to_ascii_uppercase_def country_code_def)
qed

lemma upper_lower_byte: "upper_byte a = upper_byte b \<longleftrightarrow> lower_byte a = lower_byte b"
proof -
  have u: "byte_val (upper_byte x) = (if is_ascii_lowercase x then byte_val x - 32 else byte_val x)" for x
    by (auto simp: upper_byte_def is_ascii_lowercase_def intro!: byte_val_char_of)
  have "byte_val (upper_byte a) = byte_val (upper_byte b) \<longleftrightarrow> byte_val (lower_byte a) = byte_val (lower_byte b)"
    by (auto simp: u byte_val_lower_byte is_ascii_lowercase_def is_ascii_uppercase_def eq_diff_iff split: if_splits)
  then show ?thesis by simp
qed

lemma eq_upper_lower: "to_ascii_uppercase s = to_ascii_uppercase t \<longleftrightarrow> eq_ignore_ascii_case s t"
  unfolding eq_ignore_ascii_case_iff to_ascii_uppercase_def to_ascii_lowercase_def
  by (induction s arbitrary: t) (auto simp: Cons_eq_map_conv upper_lower_byte)

text \<open>
  C25. The country index is exact: for an allowed country code, the set the index returns contains
  an address if and only if some network of the database carries that code, letter case apart, and
  contains the address. Remembering the bucket of a record by its offset loses and adds nothing.
\<close>

theorem country_index_exact:
  assumes "ipnet_ok E" and "\<And>s. is_ascii s \<Longrightarrow> utf8 s" and "same_records rec items"
    and "list_all country_code allowed" and "c \<in> set allowed"
    and "\<forall>item iso. Some item \<in> set items \<longrightarrow> item_field item = Some iso \<longrightarrow> country_code iso"
    and "country_index_build E utf8 ptr allowed items = Inr idx"
  shows "set_contains (arc_get (country_ranges_for idx c)) ip =
    Some (\<exists>item iso n. Some item \<in> set items \<and> item_field item = Some iso \<and> eq_ignore_ascii_case iso c \<and>
      item_ip_net E item = Some n \<and> net_contains E n ip)"
proof -
  let ?keys = "map from_str_upper allowed"
  let ?fb = "\<lambda>iso. position (\<lambda>k. k = from_str_upper iso) ?keys"
  let ?cc = "to_ascii_uppercase c"
  have c: "country_code c" using assms(4,5) by (simp add: list_all_iff)
  have name: "key_as_str utf8 k = ?cc \<longleftrightarrow> k = from_str_upper c" if "k \<in> set ?keys" for k
  proof -
    obtain d where d: "k = from_str_upper d" "country_code d" using \<open>k \<in> set ?keys\<close> assms(4) by (auto simp: list_all_iff)
    then show ?thesis using key_as_str_code [OF d(2) assms(2)] from_str_upper_eq [OF d(2) c] by simp
  qed
  have mem: "from_str_upper c \<in> set ?keys" using assms(5) by simp
  obtain i where i: "\<And>x. ?fb x = Some i \<longleftrightarrow> from_str_upper x = from_str_upper c"
    and s: "snd (case map_of (collect_buckets (key_as_str utf8) ptr (zip ?keys (walk_items E ?fb (length ?keys) items)) []) ?cc of
           Some s \<Rightarrow> s | None \<Rightarrow> (0, empty_range_set)) = from_nets E (bucket_nets E ?fb i items)"
    by (rule index_lookup [OF assms(3) mem name, where f = from_str_upper and E = E and ptr = ptr]) blast+
  have "idx = collect_buckets (key_as_str utf8) ptr (zip ?keys (walk_items E ?fb (length ?keys) items)) []"
    using assms(5,7) by (auto simp: country_index_build_def Let_def split: if_splits)
  then have idx: "arc_get (country_ranges_for idx c) = from_nets E (bucket_nets E ?fb i items)"
    using s by (simp add: country_ranges_for_def)
  have iso: "from_str_upper iso = from_str_upper c \<longleftrightarrow> eq_ignore_ascii_case iso c" if "country_code iso" for iso
    using from_str_upper_eq [OF that c] by (simp add: eq_upper_lower)
  show ?thesis
    unfolding idx set_contains_from_nets [OF assms(1)] bucket_nets_contain i using assms(6) iso by blast
qed

definition demo_items :: "string mmdb_item option list" where
  "demo_items = [Some \<lparr>item_offset = Some 7, item_field = Some ''cn'', item_net = Some (V4 167772160, 8)\<rparr>, None,
     Some \<lparr>item_offset = Some 7, item_field = Some ''cn'', item_net = Some (V4 3232235520, 16)\<rparr>]"

definition demo_asn_items :: "32 word mmdb_item option list" where
  "demo_asn_items = [Some \<lparr>item_offset = Some 1, item_field = Some 13335, item_net = Some (V4 167772160, 8)\<rparr>]"

theorem asn_index_exact_witness:
  "\<exists>idx. asn_index_build demo_lib 1 [13335] demo_asn_items = Inr idx \<and>
     set_contains (arc_get (asn_ranges_for idx 13335)) (V4 167772161) =
       Some (\<exists>item n. Some item \<in> set demo_asn_items \<and> item_field item = Some 13335 \<and>
         item_ip_net demo_lib item = Some n \<and> net_contains demo_lib n (V4 167772161))"
proof -
  have "\<exists>idx. asn_index_build demo_lib 1 [13335] demo_asn_items = Inr idx"
    by (simp add: asn_index_build_def Let_def)
  then obtain idx where idx: "asn_index_build demo_lib 1 [13335] demo_asn_items = Inr idx" by blast
  have "same_records (\<lambda>off. Some 13335) demo_asn_items" by (auto simp: same_records_def demo_asn_items_def)
  from asn_index_exact [OF demo_lib_ok(1) this _ idx] idx show ?thesis by auto
qed

theorem country_index_exact_witness:
  "\<exists>idx. country_index_build demo_lib is_ascii 1 [''CN''] demo_items = Inr idx \<and>
     set_contains (arc_get (country_ranges_for idx ''CN'')) (V4 167772161) =
       Some (\<exists>item iso n. Some item \<in> set demo_items \<and> item_field item = Some iso \<and> eq_ignore_ascii_case iso ''CN'' \<and>
         item_ip_net demo_lib item = Some n \<and> net_contains demo_lib n (V4 167772161))"
proof -
  have "\<exists>idx. country_index_build demo_lib is_ascii 1 [''CN''] demo_items = Inr idx"
    by (simp add: country_index_build_def Let_def)
  then obtain idx where idx: "country_index_build demo_lib is_ascii 1 [''CN''] demo_items = Inr idx" by blast
  have rec: "same_records (\<lambda>off. Some ''cn'') demo_items" by (auto simp: same_records_def demo_items_def)
  have "country_code ''cn''" "list_all country_code [''CN'']" by code_simp+
  then have "\<forall>item iso. Some item \<in> set demo_items \<longrightarrow> item_field item = Some iso \<longrightarrow> country_code iso"
    by (auto simp: demo_items_def)
  from country_index_exact [OF demo_lib_ok(1) _ rec _ _ this idx] \<open>list_all country_code [''CN'']\<close> idx
  show ?thesis by auto
qed

end
