(* ===== verification/Rust_Trim.thy ===== *)
theory Rust_Trim
  imports Prelude
begin

section \<open>Facts on trimming\<close>

text \<open>
  \<^verbatim>\<open>str::trim\<close> removes white-space code points one at a time. The byte sequences of the code points
  are prefix-free in both directions, so the result does not depend on where a run of white space
  is cut; from this, trimming is idempotent and ignores white space added in front.
\<close>

definition prefix_free :: "string list \<Rightarrow> bool" where
  "prefix_free ws \<longleftrightarrow>
     list_all (\<lambda>w. w \<noteq> []) ws \<and> list_all (\<lambda>w. list_all (\<lambda>v. prefix w v \<longrightarrow> w = v) ws) ws"

lemma white_space_prefix_free: "prefix_free white_space" "prefix_free (map rev white_space)"
  by code_simp+

inductive runs :: "string list \<Rightarrow> string \<Rightarrow> bool" for ws where
  runs_Nil: "runs ws []"
| runs_Cons: "w \<in> set ws \<Longrightarrow> runs ws r \<Longrightarrow> runs ws (w @ r)"

lemma runs_append: "runs ws a \<Longrightarrow> runs ws b \<Longrightarrow> runs ws (a @ b)"
  by (induction rule: runs.induct) (auto intro: runs.intros)

lemma find_prefix_Some:
  "List.find (\<lambda>w. w \<noteq> [] \<and> prefix w s) ws = Some w \<Longrightarrow> w \<in> set ws \<and> w \<noteq> [] \<and> prefix w s"
  by (auto simp: find_Some_iff)

lemma strip_all_split: "\<exists>pre. s = pre @ strip_all ws s \<and> runs ws pre"
proof (induction ws s rule: strip_all.induct)
  case (1 ws s)
  show ?case
  proof (cases "List.find (\<lambda>w. w \<noteq> [] \<and> prefix w s) ws")
    case None
    then show ?thesis by (subst strip_all.simps) (auto intro: runs_Nil)
  next
    case (Some w)
    note w = find_prefix_Some [OF Some]
    from 1 [OF Some] obtain pre where pre: "drop (length w) s = pre @ strip_all ws (drop (length w) s)" "runs ws pre"
      by blast
    have "s = w @ drop (length w) s" using w by (auto simp: prefix_def)
    then have "s = (w @ pre) @ strip_all ws (drop (length w) s)" using pre(1) by simp
    moreover have "strip_all ws s = strip_all ws (drop (length w) s)" using Some by (subst strip_all.simps) simp
    ultimately show ?thesis using runs_Cons w pre(2) by metis
  qed
qed

lemma strip_all_done: "w \<in> set ws \<Longrightarrow> w \<noteq> [] \<Longrightarrow> \<not> prefix w (strip_all ws s)"
proof (induction ws s rule: strip_all.induct)
  case (1 ws s)
  show ?case
  proof (cases "List.find (\<lambda>w. w \<noteq> [] \<and> prefix w s) ws")
    case None
    then have "strip_all ws s = s" by (subst strip_all.simps) simp
    then show ?thesis using "1.prems" None by (auto simp: find_None_iff)
  next
    case (Some v)
    then show ?thesis using 1 by (subst strip_all.simps) simp
  qed
qed

lemma strip_all_id: "(\<And>w. w \<in> set ws \<Longrightarrow> w \<noteq> [] \<Longrightarrow> \<not> prefix w s) \<Longrightarrow> strip_all ws s = s"
proof -
  assume "\<And>w. w \<in> set ws \<Longrightarrow> w \<noteq> [] \<Longrightarrow> \<not> prefix w s"
  then have "List.find (\<lambda>w. w \<noteq> [] \<and> prefix w s) ws = None" by (auto simp: find_None_iff)
  then show ?thesis by (subst strip_all.simps) simp
qed

lemma strip_all_runs:
  assumes "prefix_free ws" and "runs ws pre"
  shows "strip_all ws (pre @ s) = strip_all ws s"
  using assms(2)
proof (induction rule: runs.induct)
  case (runs_Cons w r)
  have w: "w \<noteq> []" using assms(1) runs_Cons(1) by (auto simp: prefix_free_def list_all_iff)
  obtain v where v: "List.find (\<lambda>v. v \<noteq> [] \<and> prefix v (w @ r @ s)) ws = Some v"
    using w runs_Cons(1) by (cases "List.find (\<lambda>v. v \<noteq> [] \<and> prefix v (w @ r @ s)) ws") (auto simp: find_None_iff)
  note vv = find_prefix_Some [OF v]
  have "prefix w (w @ r @ s)" by simp
  with vv have "prefix v w \<or> prefix w v" by (metis prefix_same_cases)
  then have "v = w" using assms(1) vv runs_Cons(1) by (auto simp: prefix_free_def list_all_iff)
  then have "strip_all ws (w @ r @ s) = strip_all ws (r @ s)"
    using v by (subst strip_all.simps) simp
  then show ?case using runs_Cons.IH by simp
qed simp

lemma trim_start_runs: "runs white_space pre \<Longrightarrow> trim_start (pre @ s) = trim_start s"
  by (simp add: trim_start_def strip_all_runs [OF white_space_prefix_free(1)])

lemma trim_end_runs: "runs (map rev white_space) (rev post) \<Longrightarrow> trim_end (s @ post) = trim_end s"
  by (simp add: trim_end_def strip_all_runs [OF white_space_prefix_free(2)])

lemma trim_end_split: "\<exists>post. s = trim_end s @ post \<and> runs (map rev white_space) (rev post)"
proof -
  obtain pre where "rev s = pre @ strip_all (map rev white_space) (rev s)" "runs (map rev white_space) pre"
    using strip_all_split by blast
  then have "s = trim_end s @ rev pre" by (metis rev_append rev_rev_ident trim_end_def)
  then show ?thesis using \<open>runs (map rev white_space) pre\<close> by (metis rev_rev_ident)
qed

lemma trim_start_split: "\<exists>pre. s = pre @ trim_start s \<and> runs white_space pre"
  unfolding trim_start_def by (rule strip_all_split)

lemma white_space_nonempty: "w \<in> set white_space \<Longrightarrow> w \<noteq> []"
  using white_space_prefix_free(1) by (auto simp: prefix_free_def list_all_iff)

lemma no_trailing_id: "(\<And>w. w \<in> set white_space \<Longrightarrow> \<not> suffix w s) \<Longrightarrow> trim_end s = s"
proof -
  assume h: "\<And>w. w \<in> set white_space \<Longrightarrow> \<not> suffix w s"
  have "strip_all (map rev white_space) (rev s) = rev s"
    by (rule strip_all_id) (use h in \<open>auto simp: suffix_to_prefix\<close>)
  then show "trim_end s = s" by (simp add: trim_end_def)
qed

lemma trim_end_no_trailing: "w \<in> set white_space \<Longrightarrow> \<not> suffix w (trim_end s)"
  using strip_all_done [of "rev w" "map rev white_space" "rev s"] white_space_nonempty [of w]
  by (auto simp: trim_end_def suffix_to_prefix)

lemma trim_idem [simp]: "trim (trim s) = trim s"
proof -
  obtain pre where pre: "trim_end s = pre @ trim s" unfolding trim_def using trim_start_split by blast
  have "\<not> suffix w (trim s)" if "w \<in> set white_space" for w
    using trim_end_no_trailing [OF that, of s] unfolding pre by (auto simp: suffix_def)
  then have "trim_end (trim s) = trim s" by (rule no_trailing_id)
  moreover have "trim_start (trim s) = trim s"
    unfolding trim_def trim_start_def by (rule strip_all_id) (simp add: strip_all_done)
  ultimately show ?thesis by (simp add: trim_def [of "trim s"])
qed

text \<open>Commas and other printing ASCII bytes are no part of white space.\<close>

definition printing :: "char \<Rightarrow> bool" where
  "printing c \<longleftrightarrow> 33 \<le> byte_val c \<and> byte_val c < 127"

lemma white_space_not_printing: "w \<in> set white_space \<Longrightarrow> c \<in> set w \<Longrightarrow> \<not> printing c"
proof -
  have "list_all (list_all (\<lambda>c. \<not> printing c)) white_space" by code_simp
  then show "w \<in> set white_space \<Longrightarrow> c \<in> set w \<Longrightarrow> \<not> printing c" by (auto simp: list_all_iff)
qed

lemma runs_not_printing: "runs white_space r \<Longrightarrow> c \<in> set r \<Longrightarrow> \<not> printing c"
  by (induction rule: runs.induct) (auto dest: white_space_not_printing)

lemma runs_rev_not_printing: "runs (map rev white_space) r \<Longrightarrow> c \<in> set r \<Longrightarrow> \<not> printing c"
  by (induction rule: runs.induct) (auto dest: white_space_not_printing)

lemma trim_id_printing:
  assumes "s \<noteq> []" and "printing (hd s)" and "printing (last s)"
  shows "trim s = s"
proof -
  have "\<not> suffix w s" if "w \<in> set white_space" for w
    using white_space_nonempty [OF that] white_space_not_printing [OF that, of "last w"] assms
    by (auto simp: suffix_def)
  then have "trim_end s = s" by (rule no_trailing_id)
  moreover have "trim_start s = s"
    unfolding trim_start_def
  proof (rule strip_all_id)
    fix w assume "w \<in> set white_space" "w \<noteq> []"
    then show "\<not> prefix w s"
      using white_space_not_printing [of w "hd w"] assms by (auto simp: prefix_def)
  qed
  ultimately show ?thesis by (simp add: trim_def)
qed

text \<open>White space in front of a text whose trimmed form ends in a printing byte does not matter.\<close>

lemma trim_runs_front:
  assumes "runs white_space pre" and "trim f \<noteq> []" and "printing (last (trim f))"
  shows "trim (pre @ f) = trim f"
proof -
  obtain post where post: "f = trim_end f @ post" "runs (map rev white_space) (rev post)" using trim_end_split by blast
  obtain q where q: "trim_end f = q @ trim f" unfolding trim_def using trim_start_split by blast
  have "\<not> suffix w (pre @ trim_end f)" if "w \<in> set white_space" for w
    using white_space_nonempty [OF that] white_space_not_printing [OF that, of "last w"] assms(2,3) q
    by (auto simp: suffix_def) (metis append_is_Nil_conv last_appendR last_in_set)
  then have "trim_end (pre @ trim_end f) = pre @ trim_end f" by (rule no_trailing_id)
  then have "trim_end (pre @ f) = pre @ trim_end f"
    using trim_end_runs [OF post(2), of "pre @ trim_end f"] post(1) by (metis append.assoc)
  then show ?thesis using trim_start_runs [OF assms(1), of "trim_end f"] by (simp add: trim_def)
qed

lemma trim_no_white_space:
  assumes "w \<in> set white_space"
  shows "\<not> prefix w (trim s)" and "\<not> suffix w (trim s)"
proof -
  show "\<not> prefix w (trim s)"
    using assms white_space_nonempty unfolding trim_def trim_start_def by (intro strip_all_done) auto
  obtain pre where "trim_end s = pre @ trim s" unfolding trim_def using trim_start_split by blast
  then show "\<not> suffix w (trim s)" using trim_end_no_trailing [OF assms, of s] by (auto simp: suffix_def)
qed

lemma trim_idI:
  assumes "\<And>w. w \<in> set white_space \<Longrightarrow> \<not> prefix w s \<and> \<not> suffix w s"
  shows "trim s = s"
proof -
  have "trim_end s = s" using assms by (intro no_trailing_id) blast
  moreover have "trim_start s = s" unfolding trim_start_def by (rule strip_all_id) (use assms in blast)
  ultimately show ?thesis by (simp add: trim_def)
qed

text \<open>Printing bytes in front of a trimmed text keep it trimmed.\<close>

lemma trim_printing_front:
  assumes "list_all printing x" and "x \<noteq> []" and "trim d = d"
  shows "trim (x @ d) = x @ d"
proof (rule trim_idI, intro conjI notI)
  fix w
  assume w: "w \<in> set white_space"
  note ne = white_space_nonempty [OF w]
  {
    assume "prefix w (x @ d)"
    then have "hd w = hd x" using ne assms(2) by (cases w; cases x) auto
    then show False
      using white_space_not_printing [OF w hd_in_set [OF ne]] assms(1) hd_in_set [OF assms(2)]
      by (simp add: list_all_iff)
  next
    assume s: "suffix w (x @ d)"
    then have "suffix w d \<or> (\<exists>z. w = z @ d \<and> suffix z x)" by (simp only: suffix_append)
    moreover have n: "\<not> suffix w d" using trim_no_white_space(2) [OF w, of d] unfolding assms(3) .
    ultimately obtain z where z: "w = z @ d" "suffix z x" by blast
    have "z \<noteq> []" using n z(1) by (metis append_Nil suffix_order.order_refl)
    then have "hd z \<in> set z" by (rule hd_in_set)
    then have "hd z \<in> set x" "hd z \<in> set w" using set_mono_suffix [OF z(2)] unfolding z(1) by (blast, simp)
    then show False using white_space_not_printing [OF w] assms(1) unfolding list_all_iff by blast
  }
qed

end
