(* ===== verification/Rule_Parser.thy ===== *)
theory Rule_Parser
  imports Rule_Laws Geo_Index Rust_Trim
begin

section \<open>Parsing rule lines\<close>

text \<open>
  \<^verbatim>\<open>meow-rules/src/parser.rs\<close>: a rule line to a rule or an error. Logic rules carry parenthesised
  groups that are parsed again, at most 64 levels deep, from lines of at most 64 KiB. The theorems
  state what the parser guarantees about the rule it returns.
\<close>

record parser_context =
  ctx_geoip :: "(string \<times> ip_range_set arc) list option"
  ctx_asn :: "(32 word \<times> ip_range_set arc) list option"
  ctx_geosite :: "geosite_db arc option"

definition context_empty :: parser_context where
  "context_empty = \<lparr>ctx_geoip = None, ctx_asn = None, ctx_geosite = None\<rparr>"

definition MAX_LOGIC_DEPTH :: nat where
  "MAX_LOGIC_DEPTH = 64"

definition MAX_RULE_LINE_LEN :: nat where
  "MAX_RULE_LINE_LEN = 64 * 1024"

subsection \<open>Pieces of a line\<close>

definition split_once_trimmed :: "string \<Rightarrow> char \<Rightarrow> (string \<times> string) option" where
  "split_once_trimmed s sep = map_option (\<lambda>(l, r). (trim l, trim_start r)) (split_once sep s)"

definition parse_asn_payload :: "string \<Rightarrow> rule_error + 32 word" where
  "parse_asn_payload pl = ok_or (InvalidAsn (trim pl)) (parse_u32 (trim pl))"

definition parse_rule_flags :: "string option \<Rightarrow> rule_flags" where
  "parse_rule_flags extra =
     (let flags =
        (case extra of
           None \<Rightarrow> \<lparr>no_resolve = False, is_src = False\<rparr>
         | Some extra \<Rightarrow>
             foldl (\<lambda>flags flag.
                 if eq_ignore_ascii_case flag ''no-resolve'' then flags\<lparr>no_resolve := True\<rparr>
                 else if eq_ignore_ascii_case flag ''src'' then flags\<lparr>is_src := True\<rparr>
                 else flags)
               \<lparr>no_resolve = False, is_src = False\<rparr> (map trim (split_on CHR '','' extra)))
      in flags\<lparr>no_resolve := no_resolve flags \<or> is_src flags\<rparr>)"

definition is_logic_type :: "string \<Rightarrow> bool" where
  "is_logic_type upper \<longleftrightarrow> upper = ''AND'' \<or> upper = ''OR'' \<or> upper = ''NOT''"

definition LOGIC_PLACEHOLDER :: string where
  "LOGIC_PLACEHOLDER = ''LOGIC-INNER-PLACEHOLDER''"

definition splice_fields :: "string \<Rightarrow> string \<Rightarrow> string" where
  "splice_fields placeholder entry =
     (case splitn 3 CHR '','' entry of
        [ty, pl] \<Rightarrow> trim ty @ '','' @ trim pl @ '','' @ placeholder
      | [ty, pl, rest] \<Rightarrow> trim ty @ '','' @ trim pl @ '','' @ placeholder @ '','' @ trim rest
      | _ \<Rightarrow> entry)"

definition splice_adapter :: "string \<Rightarrow> string \<Rightarrow> string" where
  "splice_adapter placeholder entry =
     (case split_once CHR '','' entry of
        Some (ty, _) \<Rightarrow>
          if is_logic_type (to_ascii_uppercase (trim ty)) then entry @ '','' @ placeholder
          else splice_fields placeholder entry
      | None \<Rightarrow> splice_fields placeholder entry)"

definition splice_inner_adapter :: "string \<Rightarrow> string" where
  "splice_inner_adapter entry = splice_adapter LOGIC_PLACEHOLDER entry"

text \<open>Index of the parenthesis that brings the nesting depth back to zero.\<close>

fun close_at :: "int \<Rightarrow> string \<Rightarrow> nat option" where
  "close_at depth [] = None"
| "close_at depth (c # cs) =
     (if c = CHR ''('' then map_option Suc (close_at (depth + 1) cs)
      else if c = CHR '')'' then
        (if depth - 1 = 0 then Some 0 else map_option Suc (close_at (depth - 1) cs))
      else map_option Suc (close_at depth cs))"

lemma close_at_less: "close_at d s = Some n \<Longrightarrow> n < length s"
  by (induction d s arbitrary: n rule: close_at.induct) (auto split: if_splits)

function split_logic_groups :: "string \<Rightarrow> rule_error + string list" where
  "split_logic_groups inner =
     (case dropWhile (\<lambda>c. c = CHR '' '' \<or> c = CHR '','') inner of
        [] \<Rightarrow> Inr []
      | c # cs \<Rightarrow>
          if c \<noteq> CHR ''('' then Inl (ExpectedGroup c)
          else (case close_at 1 cs of
              None \<Rightarrow> Inl UnbalancedParentheses
            | Some n \<Rightarrow> and_then (split_logic_groups (drop (n + 1) cs)) (\<lambda>gs. Inr (take n cs # gs))))"
  by pat_completeness auto
termination
proof (relation "measure length")
  fix inner :: string and c cs n
  assume "dropWhile (\<lambda>c. c = CHR '' '' \<or> c = CHR '','') inner = c # cs"
  then have "length (c # cs) \<le> length inner" by (metis length_dropWhile_le)
  then show "(drop (n + 1) cs, inner) \<in> measure length" by simp
qed simp

declare split_logic_groups.simps [simp del]

subsection \<open>Logic rules\<close>

text \<open>
  The checks on one group, with the errors for MATCH, a missing payload and a regular expression
  with a comma, and the loop that parses the groups with \<open>parse\<close>.
\<close>

definition check_fields :: "rule_error \<Rightarrow> rule_error \<Rightarrow> rule_error \<Rightarrow> string \<Rightarrow> rule_error + unit" where
  "check_fields match_err payload_err regex_err g =
     (let fields = splitn 3 CHR '','' g;
          first = (case fields of f # _ \<Rightarrow> trim f | [] \<Rightarrow> []) in
      if first = ''MATCH'' then Inl match_err
      else if (case fields of _ # f # _ \<Rightarrow> trim f | _ \<Rightarrow> []) = [] then Inl payload_err
      else if first = ''DOMAIN-REGEX'' \<and> 2 < length fields then Inl regex_err
      else Inr ())"

definition check_group :: "string \<Rightarrow> rule_error + unit" where
  "check_group g = check_fields MatchInLogicGroup (GroupWithoutPayload g) RegexWithComma g"

fun parse_groups :: "(string \<Rightarrow> rule_error + rule) \<Rightarrow> string list \<Rightarrow> rule list \<Rightarrow> rule_error + rule list" where
  "parse_groups parse [] inner_rules = Inr inner_rules"
| "parse_groups parse (g # groups) inner_rules =
     and_then (check_group g) (\<lambda>_.
     and_then (parse (splice_inner_adapter (trim g))) (\<lambda>r.
       parse_groups parse groups (inner_rules @ [r])))"

definition parse_logic_rule :: "(string \<Rightarrow> rule_error + rule) \<Rightarrow> string \<Rightarrow> string \<Rightarrow> rule_error + rule" where
  "parse_logic_rule parse ty rest =
     (let rest = trim_start rest in
      if \<not> starts_with_byte CHR ''('' rest then Inl (ExpectedParenthesis rest)
      else and_then (ok_or UnbalancedParentheses (close_at 0 rest)) (\<lambda>close.
        let inner = take (close - 1) (drop 1 rest);
            tail = trim_start (drop (close + 1) rest) in
        and_then (ok_or ExpectedAdapter (strip_prefix '','' tail)) (\<lambda>fields.
          let a = trim (last (split_on CHR '','' fields)) in
          if a = [] then Inl MissingAdapter
          else and_then (split_logic_groups inner) (\<lambda>groups.
            if groups = [] then Inl EmptyLogicPayload
            else and_then (parse_groups parse groups []) (\<lambda>inner_rules.
              if ty = ''AND'' then Inr (and_new inner_rules a)
              else if ty = ''OR'' then Inr (or_new inner_rules a)
              else case inner_rules of
                [r] \<Rightarrow> Inr (not_new r a)
              | _ \<Rightarrow> Inl (NotNeedsOne (length inner_rules)))))))"

subsection \<open>All other rules\<close>

definition parse_plain_rule :: "ext_lib \<Rightarrow> parser_context \<Rightarrow> string \<Rightarrow> rule_error + rule" where
  "parse_plain_rule E ctx line =
     (let parts = splitn 4 CHR '','' line in
      if length parts < 2 then Inl (InvalidRule line)
      else let ty = trim (parts ! 0) in
        if ty = ''MATCH'' then Inr (final_new (trim (parts ! 1)))
        else if length parts < 3 then Inl (NeedsThreeParts line)
        else let pl = trim (parts ! 1);
                 a = trim (parts ! 2);
                 extra = (if 3 < length parts then Some (trim (parts ! 3)) else None);
                 flags = parse_rule_flags extra in
          if ty = ''DOMAIN'' then Inr (domain_new E pl a)
          else if ty = ''DOMAIN-SUFFIX'' then Inr (domain_suffix_new pl a)
          else if ty = ''DOMAIN-KEYWORD'' then Inr (domain_keyword_new pl a)
          else if ty = ''DOMAIN-REGEX'' then domain_regex_new E pl a
          else if ty = ''IP-CIDR'' \<or> ty = ''IP-CIDR6'' then ip_cidr_new E pl a (is_src flags) (no_resolve flags)
          else if ty = ''SRC-IP-CIDR'' then ip_cidr_new E pl a True True
          else if ty = ''SRC-PORT'' then port_new pl a True
          else if ty = ''DST-PORT'' then port_new pl a False
          else if ty = ''NETWORK'' then network_new E pl a
          else if ty = ''PROCESS-NAME'' then Inr (process_new pl a)
          else if ty = ''GEOIP'' then
            and_then (ok_or NoGeoIpDatabase (ctx_geoip ctx)) (\<lambda>idx.
              let ranges = country_ranges_for idx pl in
              if is_src flags then Inr (src_geoip_new E pl a ranges)
              else Inr (geoip_new E pl a (no_resolve flags) ranges))
          else if ty = ''SRC-GEOIP'' then
            and_then (ok_or NoGeoIpDatabase (ctx_geoip ctx)) (\<lambda>idx.
              Inr (src_geoip_new E pl a (country_ranges_for idx pl)))
          else if ty = ''GEOSITE'' then
            (let category = trim (hd (split_on CHR ''@'' pl)) in
             if category = [] then Inl NoCategory else Inr (geosite_new pl a (ctx_geosite ctx)))
          else if ty = ''IN-PORT'' then in_port_new pl a
          else if ty = ''IN-NAME'' then in_name_new pl a
          else if ty = ''IN-TYPE'' then in_type_new E pl a
          else if ty = ''IN-USER'' then in_user_new pl a
          else if ty = ''DSCP'' then dscp_new pl a
          else if ty = ''UID'' then uid_new pl a
          else if ty = ''PROCESS-PATH'' then process_path_new E pl a
          else if ty = ''DOMAIN-WILDCARD'' then domain_wildcard_new E pl a
          else if ty = ''IP-SUFFIX'' then ip_suffix_new E pl a (is_src flags) (no_resolve flags)
          else if ty = ''SRC-IP-SUFFIX'' then ip_suffix_new E pl a True True
          else if ty = ''IP-ASN'' then
            and_then (ok_or NoAsnDatabase (ctx_asn ctx)) (\<lambda>idx.
            and_then (parse_asn_payload pl) (\<lambda>asn.
              Inr (ip_asn_new asn pl a (asn_ranges_for idx asn) (is_src flags) (no_resolve flags))))
          else if ty = ''SRC-IP-ASN'' then
            and_then (ok_or NoAsnDatabase (ctx_asn ctx)) (\<lambda>idx.
            and_then (parse_asn_payload pl) (\<lambda>asn.
              Inr (ip_asn_new asn pl a (asn_ranges_for idx asn) True True)))
          else Inl (UnknownRuleType ty))"

function parse_rule_depth :: "ext_lib \<Rightarrow> parser_context \<Rightarrow> string \<Rightarrow> nat \<Rightarrow> rule_error + rule" where
  "parse_rule_depth E ctx line logic_depth =
     (if MAX_RULE_LINE_LEN < length line then Inl LineTooLong
      else case split_once_trimmed line CHR '','' of
        Some (ty, rest) \<Rightarrow>
          (let upper = to_ascii_uppercase ty in
           if is_logic_type upper then
             (if MAX_LOGIC_DEPTH \<le> logic_depth then Inl NestingTooDeep
              else parse_logic_rule (\<lambda>g. parse_rule_depth E ctx g (logic_depth + 1)) upper rest)
           else parse_plain_rule E ctx line)
      | None \<Rightarrow> parse_plain_rule E ctx line)"
  by pat_completeness auto
termination
  by (relation "measure (\<lambda>(E, ctx, line, d). MAX_LOGIC_DEPTH - d)") auto

declare parse_rule_depth.simps [simp del]

definition parse_rule :: "ext_lib \<Rightarrow> parser_context \<Rightarrow> string \<Rightarrow> rule_error + rule" where
  "parse_rule E ctx line = parse_rule_depth E ctx line 0"

subsection \<open>Constructors return well-formed rules\<close>

definition context_ok :: "parser_context \<Rightarrow> bool" where
  "context_ok ctx \<longleftrightarrow> (case ctx_geosite ctx of None \<Rightarrow> True | Some db \<Rightarrow> named_buckets (arc_get db))"

lemma wf_domain_regex_new: "domain_regex_new E p a = Inr r \<Longrightarrow> wf_rule E r"
  by (auto simp: domain_regex_new_def split: if_splits)

lemma wf_domain_wildcard_new: "domain_wildcard_new E p a = Inr r \<Longrightarrow> wf_rule E r"
  by (auto simp: domain_wildcard_new_def Let_def split: if_splits)

lemma wf_ip_cidr_new: "ip_cidr_new E p a s n = Inr r \<Longrightarrow> wf_rule E r"
  by (auto simp: ip_cidr_new_def and_then_Inr ok_or_Inr)

lemma wf_ip_suffix_new: "ip_suffix_new E p a s n = Inr r \<Longrightarrow> wf_rule E r"
proof -
  assume h: "ip_suffix_new E p a s n = Inr r"
  then obtain family where "r = IpSuffixRule p a family s n" by (auto simp: ip_suffix_new_def and_then_Inr)
  then show ?thesis using h by simp
qed

lemma wf_port_new: "port_new p a s = Inr r \<Longrightarrow> wf_rule E r"
proof -
  assume h: "port_new p a s = Inr r"
  then obtain ranges where "r = PortRule ranges p a s" by (auto simp: port_new_def and_then_Inr split: if_splits)
  then show ?thesis using h by simp
qed

lemma wf_in_port_new: "in_port_new p a = Inr r \<Longrightarrow> wf_rule E r"
proof -
  assume h: "in_port_new p a = Inr r"
  then obtain ranges where "r = InPortRule ranges p a" by (auto simp: in_port_new_def and_then_Inr split: if_splits)
  then show ?thesis using h by simp
qed

lemma wf_dscp_new: "dscp_new p a = Inr r \<Longrightarrow> wf_rule E r"
proof -
  assume h: "dscp_new p a = Inr r"
  then obtain v where "r = DscpRule v p a" by (auto simp: dscp_new_def and_then_Inr split: if_splits)
  then show ?thesis using h by simp
qed

lemma wf_uid_new: "uid_new p a = Inr r \<Longrightarrow> wf_rule E r"
proof -
  assume h: "uid_new p a = Inr r"
  then obtain v where "r = UidRule v p a" by (auto simp: uid_new_def and_then_Inr)
  then show ?thesis using h by simp
qed

lemma wf_in_type_new: "in_type_new E p a = Inr r \<Longrightarrow> wf_rule E r"
  by (auto simp: in_type_new_def Let_def split: if_splits)

lemma wf_process_path_new: "process_path_new E p a = Inr r \<Longrightarrow> wf_rule E r"
proof -
  assume h: "process_path_new E p a = Inr r"
  then obtain mode where "r = ProcessPathRule p mode a" by (auto simp: process_path_new_def and_then_Inr)
  then show ?thesis using h by simp
qed

lemma wf_network_new: "network_new E p a = Inr r \<Longrightarrow> wf_rule E r"
proof -
  assume h: "network_new E p a = Inr r"
  then obtain n where "r = NetworkRule n p a" by (auto simp: network_new_def Let_def split: if_splits)
  then show ?thesis using h by simp
qed

lemma wf_infallible_new:
  "wf_rule E (domain_new E p a)" "wf_rule E (domain_suffix_new p a)" "wf_rule E (domain_keyword_new p a)"
  "wf_rule E (process_new p a)" "wf_rule E (final_new a)" "wf_rule E (geoip_new E p a n s)"
  "wf_rule E (src_geoip_new E p a s)" "wf_rule E (ip_asn_new k p a s b n)"
  "context_ok ctx \<Longrightarrow> wf_rule E (geosite_new p a (ctx_geosite ctx))"
  "in_name_new p a = Inr r \<Longrightarrow> wf_rule E r" "in_user_new p a = Inr r \<Longrightarrow> wf_rule E r"
  by (auto simp: domain_new_def domain_suffix_new_def domain_keyword_new_def process_new_def final_new_def
      geoip_new_def src_geoip_new_def ip_asn_new_def geosite_new_def context_ok_def in_name_new_def in_user_new_def)

lemmas new_wf = wf_domain_regex_new wf_domain_wildcard_new wf_ip_cidr_new wf_ip_suffix_new wf_port_new
  wf_in_port_new wf_dscp_new wf_uid_new wf_in_type_new wf_process_path_new wf_network_new wf_infallible_new

lemma if_Inr:
  assumes "(if c then x else y) = Inr r" and "c \<Longrightarrow> x = Inr r \<Longrightarrow> Q" and "\<not> c \<Longrightarrow> y = Inr r \<Longrightarrow> Q"
  shows Q
  using assms by (simp split: if_splits)

lemma parse_plain_wf:
  assumes "parse_plain_rule E ctx line = Inr r" and "context_ok ctx"
  shows "wf_rule E r"
  using assms(1) unfolding parse_plain_rule_def Let_def
  by (elim if_Inr) (auto simp: and_then_Inr split: if_splits intro: new_wf assms(2))

subsection \<open>What the parser guarantees\<close>

lemma parse_groups_all:
  assumes "parse_groups parse gs acc = Inr rs" and "list_all Q acc"
    and "\<And>g r. check_group g = Inr () \<Longrightarrow> parse (splice_inner_adapter (trim g)) = Inr r \<Longrightarrow> Q r"
  shows "list_all Q rs"
  using assms(1,2)
proof (induction gs arbitrary: acc)
  case (Cons g gs)
  then obtain r where "check_group g = Inr ()" "parse (splice_inner_adapter (trim g)) = Inr r"
    "parse_groups parse gs (acc @ [r]) = Inr rs"
    by (auto simp: and_then_Inr)
  then show ?case using Cons.IH [of "acc @ [r]"] Cons.prems(2) assms(3) by simp
qed simp

lemma parse_logic_shape:
  assumes "parse_logic_rule parse ty rest = Inr r"
    and "\<And>g x. check_group g = Inr () \<Longrightarrow> parse (splice_inner_adapter (trim g)) = Inr x \<Longrightarrow> Q x"
  obtains (And) rs a where "r = and_new rs a" "list_all Q rs" "a \<noteq> []"
    | (Or) rs a where "r = or_new rs a" "list_all Q rs" "a \<noteq> []"
    | (Not) x a where "r = not_new x a" "Q x" "a \<noteq> []"
proof -
  obtain groups rs a where "parse_groups parse groups [] = Inr rs" and a: "a \<noteq> []"
    and r: "r = and_new rs a \<or> r = or_new rs a \<or> (\<exists>x. rs = [x] \<and> r = not_new x a)"
    using assms(1)
    by (auto simp: parse_logic_rule_def Let_def and_then_Inr split: if_splits list.splits)
  then have "list_all Q rs" using parse_groups_all [of parse groups "[]" rs Q] assms(2) by simp
  then show ?thesis using r a And Or Not by fastforce
qed

lemma parse_rule_depth_cases:
  assumes "parse_rule_depth E ctx line d = Inr r"
  obtains (Plain) "parse_plain_rule E ctx line = Inr r" "length line \<le> MAX_RULE_LINE_LEN"
        "\<And>ty rest. split_once_trimmed line CHR '','' = Some (ty, rest) \<Longrightarrow> \<not> is_logic_type (to_ascii_uppercase ty)"
    | (Logic) ty rest where "d < MAX_LOGIC_DEPTH" "length line \<le> MAX_RULE_LINE_LEN"
        "parse_logic_rule (\<lambda>g. parse_rule_depth E ctx g (d + 1)) ty rest = Inr r"
  using assms
  by (auto simp: parse_rule_depth.simps [of E ctx line d] Let_def not_less not_le split: if_splits option.splits)

text \<open>Induction over what a successful parse returns.\<close>

definition parsed_leg :: "ext_lib \<Rightarrow> parser_context \<Rightarrow> nat \<Rightarrow> rule \<Rightarrow> bool" where
  "parsed_leg E ctx d x \<longleftrightarrow>
     (\<exists>g. check_group g = Inr () \<and> parse_rule_depth E ctx (splice_inner_adapter (trim g)) d = Inr x)"

lemma parse_rule_induct [consumes 1, case_names Plain And Or Not]:
  assumes "parse_rule_depth E ctx line d = Inr r"
    and plain: "\<And>line d r. parse_plain_rule E ctx line = Inr r \<Longrightarrow> Q d r"
    and conj: "\<And>rs a d. d < MAX_LOGIC_DEPTH \<Longrightarrow> list_all (Q (d + 1)) rs \<Longrightarrow> list_all (parsed_leg E ctx (d + 1)) rs \<Longrightarrow> Q d (and_new rs a)"
    and disj: "\<And>rs a d. d < MAX_LOGIC_DEPTH \<Longrightarrow> list_all (Q (d + 1)) rs \<Longrightarrow> list_all (parsed_leg E ctx (d + 1)) rs \<Longrightarrow> Q d (or_new rs a)"
    and neg: "\<And>x a d. d < MAX_LOGIC_DEPTH \<Longrightarrow> Q (d + 1) x \<Longrightarrow> parsed_leg E ctx (d + 1) x \<Longrightarrow> Q d (not_new x a)"
  shows "Q d r"
  using assms(1)
proof (induction "MAX_LOGIC_DEPTH - d" arbitrary: line d r rule: less_induct)
  case less
  from less.prems show ?case
  proof (cases rule: parse_rule_depth_cases)
    case Plain
    then show ?thesis by (intro plain)
  next
    case (Logic ty rest)
    have "MAX_LOGIC_DEPTH - (d + 1) < MAX_LOGIC_DEPTH - d" using Logic(1) by simp
    note IH = less.hyps [OF this]
    have leg: "Q (d + 1) x \<and> parsed_leg E ctx (d + 1) x"
      if "check_group g = Inr ()" "parse_rule_depth E ctx (splice_inner_adapter (trim g)) (d + 1) = Inr x" for g x
      using IH [OF that(2)] that by (auto simp: parsed_leg_def)
    show ?thesis
      by (rule parse_logic_shape [OF Logic(3) leg])
        (auto intro!: conj disj neg Logic(1) simp: list_all_iff)
  qed
qed



text \<open>How deep logic rules nest.\<close>

fun logic_nesting :: "rule \<Rightarrow> nat" where
  "logic_nesting (AndRule rules _ _) = Suc (Max (insert 0 (set (map logic_nesting rules))))"
| "logic_nesting (OrRule rules _ _) = Suc (Max (insert 0 (set (map logic_nesting rules))))"
| "logic_nesting (NotRule r _ _) = Suc (logic_nesting r)"
| "logic_nesting _ = 0"

lemma deepest_bound:
  assumes "k \<le> m" and "\<And>x. x \<in> set rs \<Longrightarrow> logic_nesting x + k \<le> m"
  shows "Max (insert 0 (set (map logic_nesting rs))) + k \<le> m"
proof -
  have "Max (insert 0 (set (map logic_nesting rs))) \<in> insert 0 (set (map logic_nesting rs))"
    by (rule Max_in) auto
  then show ?thesis using assms by auto
qed

lemma parse_plain_leaf:
  assumes "parse_plain_rule E ctx line = Inr r"
  shows "logic_nesting r = 0"
  using assms unfolding parse_plain_rule_def Let_def
  by (elim if_Inr)
    (auto simp: and_then_Inr domain_new_def domain_suffix_new_def domain_keyword_new_def process_new_def final_new_def
      geoip_new_def src_geoip_new_def ip_asn_new_def geosite_new_def in_name_new_def in_user_new_def
      domain_regex_new_def domain_wildcard_new_def ip_cidr_new_def ip_suffix_new_def port_new_def in_port_new_def
      dscp_new_def uid_new_def in_type_new_def process_path_new_def network_new_def Let_def split: if_splits)

text \<open>
  C27. Parsing is bounded: a line longer than 64 KiB is refused, and a rule the parser returns never
  nests AND, OR and NOT more than 64 levels deep, so neither parsing nor matching it can recurse
  further.
\<close>

theorem parse_rule_bounded:
  assumes "parse_rule E ctx line = Inr r"
  shows "length line \<le> 65536 \<and> logic_nesting r \<le> 64"
proof -
  have depth: "d \<le> MAX_LOGIC_DEPTH \<longrightarrow> logic_nesting r + d \<le> MAX_LOGIC_DEPTH"
    if "parse_rule_depth E ctx line d = Inr r" for line d r
    using that
  proof (induction rule: parse_rule_induct)
    case (Plain line d r)
    then show ?case using parse_plain_leaf by simp
  next
    case (And rs a d)
    then have "Max (insert 0 (set (map logic_nesting rs))) + (d + 1) \<le> MAX_LOGIC_DEPTH"
      by (intro deepest_bound) (auto simp: list_all_iff)
    then show ?case by (simp add: and_new_def)
  next
    case (Or rs a d)
    then have "Max (insert 0 (set (map logic_nesting rs))) + (d + 1) \<le> MAX_LOGIC_DEPTH"
      by (intro deepest_bound) (auto simp: list_all_iff)
    then show ?case by (simp add: or_new_def)
  qed (simp add: not_new_def)
  have "length line \<le> MAX_RULE_LINE_LEN"
    using assms unfolding parse_rule_def by (cases rule: parse_rule_depth_cases)
  then show ?thesis
    using depth [of line 0 r] assms by (simp add: parse_rule_def MAX_LOGIC_DEPTH_def MAX_RULE_LINE_LEN_def)
qed

theorem parse_rule_bounded_witness:
  "length ''NOT,((DOMAIN,a.com)),P'' \<le> 65536 \<and> logic_nesting (not_new (DomainRule ''a.com'' LOGIC_PLACEHOLDER) ''P'') \<le> 64"
  by (rule parse_rule_bounded [of demo_lib context_empty]) code_simp

subsection \<open>No leg matches everything\<close>

lemma split_once_Some: "split_once c s = Some (l, r) \<longleftrightarrow> s = l @ c # r \<and> c \<notin> set l"
proof (induction s arbitrary: l)
  case (Cons x s)
  then show ?case by (cases l) auto
qed simp

lemma split_once_front: "c \<notin> set pre \<Longrightarrow> split_once c (pre @ s) = map_option (\<lambda>(l, r). (pre @ l, r)) (split_once c s)"
  by (induction pre) (auto simp: option.map_comp comp_def split_beta' option.map_ident)

lemma split_once_back: "c \<notin> set post \<Longrightarrow> split_once c (s @ post) = map_option (\<lambda>(l, r). (l, r @ post)) (split_once c s)"
proof (induction s)
  case Nil
  then show ?case by (induction post) auto
qed (auto simp: option.map_comp comp_def split_beta)

lemma split_once_None: "split_once c s = None \<Longrightarrow> c \<notin> set s"
  by (induction s) (auto split: if_splits)

lemma set_trim: "set (trim s) \<subseteq> set s"
proof -
  obtain post where "s = trim_end s @ post" using trim_end_split by blast
  moreover obtain pre where "trim_end s = pre @ trim s" unfolding trim_def using trim_start_split by blast
  ultimately show ?thesis by (metis Un_upper1 Un_upper2 order_trans set_append)
qed

lemma comma_printing: "printing CHR '',''" by code_simp

definition first_field :: "string \<Rightarrow> string" where
  "first_field r = (case split_once CHR '','' r of None \<Rightarrow> r | Some (a, _) \<Rightarrow> a)"

lemma check_fields_Inr:
  assumes "check_fields e1 e2 e3 g = Inr ()"
  obtains l r where "split_once CHR '','' g = Some (l, r)" "trim l \<noteq> ''MATCH''" "trim (first_field r) \<noteq> []"
  using assms
  by (auto simp: check_fields_def first_field_def Let_def eval_nat_numeral split: option.splits prod.splits if_splits)

text \<open>Trimming a checked entry keeps its first two fields.\<close>

lemma checked_trimmed:
  assumes "check_fields e1 e2 e3 g = Inr ()"
  obtains l r where "split_once CHR '','' (trim g) = Some (l, r)" "trim l \<noteq> ''MATCH''" "trim (first_field r) \<noteq> []"
proof -
  obtain l r where lr: "split_once CHR '','' g = Some (l, r)" "trim l \<noteq> ''MATCH''" "trim (first_field r) \<noteq> []"
    using assms by (rule check_fields_Inr)
  obtain post where post: "g = trim_end g @ post" "runs (map rev white_space) (rev post)" using trim_end_split by blast
  obtain pre where pre: "trim_end g = pre @ trim g" "runs white_space pre" unfolding trim_def using trim_start_split by blast
  have npre: "CHR '','' \<notin> set pre" using runs_not_printing [OF pre(2)] comma_printing by blast
  have npost: "CHR '','' \<notin> set post" using runs_rev_not_printing [OF post(2)] comma_printing by auto
  have "g = pre @ trim g @ post" using post(1) pre(1) by simp
  then have "split_once CHR '','' (pre @ trim g @ post) = Some (l, r)" using lr(1) by simp
  then obtain l' r' where l'r': "split_once CHR '','' (trim g) = Some (l', r')" "l = pre @ l'" "r = r' @ post"
    by (auto simp: split_once_front [OF npre] split_once_back [OF npost])
  have "trim l' \<noteq> ''MATCH''"
  proof
    assume h: "trim l' = ''MATCH''"
    have "printing (last ''MATCH'')" by code_simp
    then have "trim l = ''MATCH''" using trim_runs_front [OF pre(2), of l'] h l'r'(2) by simp
    then show False using lr(2) by simp
  qed
  moreover have "trim (first_field r') \<noteq> []"
  proof (cases "split_once CHR '','' r'")
    case None
    then have "first_field r = r' @ post" by (simp add: first_field_def l'r'(3) split_once_back [OF npost])
    then show ?thesis using lr(3) None trim_end_runs [OF post(2), of r'] by (simp add: first_field_def trim_def)
  next
    case (Some ab)
    then have "first_field r = first_field r'"
      by (cases ab) (simp add: first_field_def l'r'(3) split_once_back [OF npost])
    then show ?thesis using lr(3) by simp
  qed
  ultimately show ?thesis using that l'r'(1) by blast
qed

fun no_match_all :: "rule \<Rightarrow> bool" where
  "no_match_all (FinalRule _) \<longleftrightarrow> False"
| "no_match_all (DomainSuffixRule sfx _) \<longleftrightarrow> sfx \<noteq> []"
| "no_match_all (DomainKeywordRule kw _) \<longleftrightarrow> kw \<noteq> []"
| "no_match_all (AndRule rules _ _) \<longleftrightarrow> list_all no_match_all rules"
| "no_match_all (OrRule rules _ _) \<longleftrightarrow> list_all no_match_all rules"
| "no_match_all (NotRule r _ _) \<longleftrightarrow> no_match_all r"
| "no_match_all _ \<longleftrightarrow> True"

definition legs :: "rule \<Rightarrow> rule list" where
  "legs r = (case r of AndRule rules _ _ \<Rightarrow> rules | OrRule rules _ _ \<Rightarrow> rules | NotRule x _ _ \<Rightarrow> [x] | _ \<Rightarrow> [])"

lemma parse_plain_narrow:
  assumes "parse_plain_rule E ctx line = Inr r"
    and "splitn 4 CHR '','' line = ty # pl # fs" "trim ty \<noteq> ''MATCH''" "trim pl \<noteq> []"
  shows "no_match_all r \<and> legs r = []"
  using assms unfolding parse_plain_rule_def Let_def
  by (elim if_Inr)
    (auto simp: and_then_Inr domain_new_def domain_suffix_new_def domain_keyword_new_def process_new_def final_new_def
      geoip_new_def src_geoip_new_def ip_asn_new_def geosite_new_def in_name_new_def in_user_new_def
      domain_regex_new_def domain_wildcard_new_def ip_cidr_new_def ip_suffix_new_def port_new_def in_port_new_def
      dscp_new_def uid_new_def in_type_new_def process_path_new_def network_new_def Let_def legs_def split: if_splits)

lemma splitn4_two: "CHR '','' \<notin> set a \<Longrightarrow> CHR '','' \<notin> set b \<Longrightarrow>
  \<exists>fs. splitn 4 CHR '','' (a @ CHR '','' # b @ CHR '','' # c) = a # b # fs"
proof -
  assume "CHR '','' \<notin> set a" "CHR '','' \<notin> set b"
  then have "split_once CHR '','' (a @ CHR '','' # b @ CHR '','' # c) = Some (a, b @ CHR '','' # c)"
    "split_once CHR '','' (b @ CHR '','' # c) = Some (b, c)"
    by (simp_all add: split_once_Some)
  then show ?thesis by (simp add: eval_nat_numeral)
qed

text \<open>A checked entry that is no logic rule parses to a rule that is not trivially true.\<close>

lemma spliced_plain_narrow:
  assumes "check_fields e1 e2 e3 g = Inr ()" and "parse_plain_rule E ctx (splice_adapter ph (trim g)) = Inr r"
    and "\<And>ty rest. split_once_trimmed (splice_adapter ph (trim g)) CHR '','' = Some (ty, rest) \<Longrightarrow>
      \<not> is_logic_type (to_ascii_uppercase ty)"
  shows "no_match_all r \<and> legs r = []"
proof -
  obtain l r' where lr: "split_once CHR '','' (trim g) = Some (l, r')" "trim l \<noteq> ''MATCH''" "trim (first_field r') \<noteq> []"
    using assms(1) by (rule checked_trimmed)
  have l: "CHR '','' \<notin> set (trim l)" using lr(1) set_trim by (auto simp: split_once_Some)
  have nl: "\<not> is_logic_type (to_ascii_uppercase (trim l))"
  proof
    assume h: "is_logic_type (to_ascii_uppercase (trim l))"
    then have "splice_adapter ph (trim g) = trim g @ CHR '','' # ph" by (simp add: splice_adapter_def lr(1))
    then have "split_once CHR '','' (splice_adapter ph (trim g)) = Some (l, r' @ CHR '','' # ph)"
      using lr(1) by (auto simp: split_once_Some)
    then show False using assms(3) h by (auto simp: split_once_trimmed_def)
  qed
  have fields: "splice_adapter ph (trim g) = splice_fields ph (trim g)" using nl lr(1) by (simp add: splice_adapter_def)
  obtain c where "splice_fields ph (trim g) = trim l @ CHR '','' # trim (first_field r') @ CHR '','' # c"
    using lr(1)
    by (cases "split_once CHR '','' r'") (auto simp: splice_fields_def first_field_def eval_nat_numeral)
  moreover have "CHR '','' \<notin> set (first_field r')"
    by (cases "split_once CHR '','' r'") (auto simp: first_field_def split_once_Some dest: split_once_None)
  then have "CHR '','' \<notin> set (trim (first_field r'))" using set_trim by blast
  ultimately obtain fs where "splitn 4 CHR '','' (splice_adapter ph (trim g)) = trim l # trim (first_field r') # fs"
    using splitn4_two l fields by metis
  then show ?thesis using parse_plain_narrow [OF assms(2)] lr by simp
qed

lemma leg_narrow:
  assumes "check_fields e1 e2 e3 g = Inr ()" and "parse_rule_depth E ctx (splice_adapter ph (trim g)) d = Inr r"
    and "list_all no_match_all (legs r)"
  shows "no_match_all r"
  using assms(2)
proof (cases rule: parse_rule_depth_cases)
  case Plain
  then show ?thesis using spliced_plain_narrow [OF assms(1)] by blast
next
  case (Logic ty rest)
  show ?thesis
    by (rule parse_logic_shape [OF Logic(3), of "\<lambda>_. True"])
      (use assms(3) in \<open>auto simp: legs_def and_new_def or_new_def not_new_def\<close>)
qed

lemma parsed_leg_narrow: "parsed_leg E ctx d x \<Longrightarrow> list_all no_match_all (legs x) \<Longrightarrow> no_match_all x"
  unfolding parsed_leg_def check_group_def splice_inner_adapter_def using leg_narrow by blast

lemma parsed_legs_narrow:
  assumes "parse_rule_depth E ctx line d = Inr r"
  shows "list_all no_match_all (legs r)"
  using assms
proof (induction rule: parse_rule_induct)
  case (Plain line d r)
  then have "logic_nesting r = 0" by (rule parse_plain_leaf)
  then show ?case by (cases r) (auto simp: legs_def)
next
  case (And rs a d)
  then have "list_all no_match_all rs"
    by (auto simp: list_all_iff intro!: parsed_leg_narrow)
  then show ?case by (simp add: and_new_def legs_def)
next
  case (Or rs a d)
  then have "list_all no_match_all rs"
    by (auto simp: list_all_iff intro!: parsed_leg_narrow)
  then show ?case by (simp add: or_new_def legs_def)
next
  case (Not x a d)
  then have "no_match_all x"
    by (auto intro!: parsed_leg_narrow)
  then show ?case by (simp add: not_new_def legs_def)
qed

text \<open>
  C28. No leg of a parsed AND, OR or NOT rule, at any depth, is a MATCH rule or a keyword or suffix
  rule with an empty payload: a logic rule cannot be made true by a leg that matches everything.
\<close>

theorem parse_rule_no_match_all:
  assumes "parse_rule E ctx line = Inr r"
  shows "list_all no_match_all (legs r)"
  using assms unfolding parse_rule_def by (rule parsed_legs_narrow)

theorem parse_rule_no_match_all_witness:
  "list_all no_match_all (legs (not_new (DomainRule ''a.com'' LOGIC_PLACEHOLDER) ''P''))"
  by (rule parse_rule_no_match_all [of demo_lib context_empty "''NOT,((DOMAIN,a.com)),P''"]) code_simp

end
