(* ===== verification/Rule_Set.thy ===== *)
theory Rule_Set
  imports Rule_Parser
begin

section \<open>Rule sets\<close>

text \<open>
  \<^verbatim>\<open>meow-rules/src/rule_set.rs\<close>: the builders of the three kinds of rule set, each with a lenient push
  that skips a malformed entry and a checked push that reports it, and the two ways to build a set
  from a list of entries. The theorems state what a built set matches in terms of its entries, and
  that the checked build returns the same set or the error of a malformed entry.
\<close>

datatype rule_set_format = FormatYaml | FormatText | FormatMrs

definition behavior_from_str :: "string \<Rightarrow> string + rule_set_behavior" where
  "behavior_from_str s =
     (let l = to_ascii_lowercase s in
      if l = ''domain'' then Inr BehaviorDomain
      else if l = ''ipcidr'' \<or> l = ''ip-cidr'' then Inr BehaviorIpCidr
      else if l = ''classical'' then Inr BehaviorClassical
      else Inl l)"

fun behavior_to_string :: "rule_set_behavior \<Rightarrow> string" where
  "behavior_to_string BehaviorDomain = ''Domain''"
| "behavior_to_string BehaviorIpCidr = ''IPCIDR''"
| "behavior_to_string BehaviorClassical = ''Classical''"

definition format_from_str :: "string \<Rightarrow> string + rule_set_format" where
  "format_from_str s =
     (let l = to_ascii_lowercase s in
      if l = ''yaml'' then Inr FormatYaml
      else if l = ''text'' then Inr FormatText
      else if l = ''mrs'' then Inr FormatMrs
      else Inl l)"

subsection \<open>Domain sets\<close>

record domain_set_builder =
  ds_trie :: "unit domain_trie"
  ds_count :: nat

definition domain_builder_new :: domain_set_builder where
  "domain_builder_new = \<lparr>ds_trie = trie_new, ds_count = 0\<rparr>"

definition domain_push_checked ::
  "ext_lib \<Rightarrow> domain_set_builder \<Rightarrow> string \<Rightarrow> ((rule_error + unit) \<times> domain_set_builder) panics" where
  "domain_push_checked E b entry =
     (let entry = trim entry in
      if entry = [] then Some (Inr (), b)
      else map_option (\<lambda>(inserted, t).
          if inserted then (Inr (), b\<lparr>ds_trie := t, ds_count := ds_count b + 1\<rparr>)
          else (Inl (InvalidDomainPattern entry), b\<lparr>ds_trie := t\<rparr>))
        (trie_insert (to_lowercase E) (ds_trie b) entry ()))"

definition domain_push :: "ext_lib \<Rightarrow> domain_set_builder \<Rightarrow> string \<Rightarrow> domain_set_builder panics" where
  "domain_push E b entry = map_option snd (domain_push_checked E b entry)"

definition domain_build :: "domain_set_builder \<Rightarrow> rule_set panics" where
  "domain_build b = map_option (\<lambda>t. DomainRuleSet t (ds_count b)) (seal (ds_trie b))"

subsection \<open>IP sets\<close>

record ip_set_builder =
  is_set :: ip_range_set_builder
  is_count :: nat

definition ip_builder_new :: ip_set_builder where
  "ip_builder_new = \<lparr>is_set = set_builder_new, is_count = 0\<rparr>"

definition push_net :: "ext_lib \<Rightarrow> ip_set_builder \<Rightarrow> ip_net \<Rightarrow> ip_set_builder" where
  "push_net E b net = b\<lparr>is_set := set_add E (is_set b) net, is_count := is_count b + 1\<rparr>"

definition ip_push_checked :: "ext_lib \<Rightarrow> ip_set_builder \<Rightarrow> string \<Rightarrow> ((rule_error + unit) \<times> ip_set_builder) panics" where
  "ip_push_checked E b entry =
     (let entry = trim entry in
      if entry = [] then Some (Inr (), b)
      else case net_parse E entry of
        Some net \<Rightarrow> Some (Inr (), push_net E b net)
      | None \<Rightarrow> Some (Inl (InvalidCidr entry), b))"

definition ip_push :: "ext_lib \<Rightarrow> ip_set_builder \<Rightarrow> string \<Rightarrow> ip_set_builder panics" where
  "ip_push E b entry = map_option snd (ip_push_checked E b entry)"

definition ip_build :: "ip_set_builder \<Rightarrow> rule_set panics" where
  "ip_build b = Some (IpCidrRuleSet (set_build (is_set b)) (is_count b))"

subsection \<open>Classical sets\<close>

definition splice_placeholder_adapter :: "string \<Rightarrow> string" where
  "splice_placeholder_adapter entry = splice_adapter ''RULE-SET-PLACEHOLDER'' entry"

definition check_entry :: "string \<Rightarrow> rule_error + unit" where
  "check_entry entry = check_fields (MatchInRuleSet entry) (EntryWithoutPayload entry) (EntryRegexWithComma entry) entry"

definition classical_push_checked ::
  "ext_lib \<Rightarrow> parser_context \<Rightarrow> rule list \<Rightarrow> string \<Rightarrow> ((rule_error + unit) \<times> rule list) panics" where
  "classical_push_checked E ctx rules entry =
     (let entry = trim entry in
      if entry = [] then Some (Inr (), rules)
      else case check_entry entry of
        Inl e \<Rightarrow> Some (Inl e, rules)
      | Inr _ \<Rightarrow> (case parse_rule E ctx (splice_placeholder_adapter entry) of
          Inr r \<Rightarrow> Some (Inr (), rules @ [r])
        | Inl e \<Rightarrow> Some (Inl e, rules)))"

definition classical_push :: "ext_lib \<Rightarrow> parser_context \<Rightarrow> rule list \<Rightarrow> string \<Rightarrow> rule list panics" where
  "classical_push E ctx rules entry = map_option snd (classical_push_checked E ctx rules entry)"

definition classical_build :: "rule list \<Rightarrow> rule_set panics" where
  "classical_build rules = Some (ClassicalRuleSet rules)"

subsection \<open>Building from a list of entries\<close>

text \<open>The loops of the lenient and of the checked builds.\<close>

fun push_each :: "('b \<Rightarrow> string \<Rightarrow> 'b panics) \<Rightarrow> 'b \<Rightarrow> string list \<Rightarrow> 'b panics" where
  "push_each push b [] = Some b"
| "push_each push b (e # es) = Option.bind (push b e) (\<lambda>b. push_each push b es)"

fun push_each_checked ::
  "('b \<Rightarrow> string \<Rightarrow> ((rule_error + unit) \<times> 'b) panics) \<Rightarrow> 'b \<Rightarrow> string list \<Rightarrow> (rule_error + 'b) panics" where
  "push_each_checked push b [] = Some (Inr b)"
| "push_each_checked push b (e # es) =
     Option.bind (push b e) (\<lambda>(res, b). case res of Inl err \<Rightarrow> Some (Inl err) | Inr _ \<Rightarrow> push_each_checked push b es)"

definition domain_from_entries :: "ext_lib \<Rightarrow> string list \<Rightarrow> rule_set panics" where
  "domain_from_entries E entries = Option.bind (push_each (domain_push E) domain_builder_new entries) domain_build"

definition ip_from_entries :: "ext_lib \<Rightarrow> string list \<Rightarrow> rule_set panics" where
  "ip_from_entries E entries = Option.bind (push_each (ip_push E) ip_builder_new entries) ip_build"

definition classical_from_entries :: "ext_lib \<Rightarrow> parser_context \<Rightarrow> string list \<Rightarrow> rule_set panics" where
  "classical_from_entries E ctx entries = Option.bind (push_each (classical_push E ctx) [] entries) classical_build"

definition build_rule_set ::
  "ext_lib \<Rightarrow> rule_set_behavior \<Rightarrow> string list \<Rightarrow> parser_context \<Rightarrow> rule_set panics" where
  "build_rule_set E beh entries ctx =
     (case beh of
        BehaviorDomain \<Rightarrow> domain_from_entries E entries
      | BehaviorIpCidr \<Rightarrow> ip_from_entries E entries
      | BehaviorClassical \<Rightarrow> classical_from_entries E ctx entries)"

definition build_checked :: "('b \<Rightarrow> rule_set panics) \<Rightarrow> (rule_error + 'b) panics \<Rightarrow> (rule_error + rule_set) panics" where
  "build_checked build pushed =
     Option.bind pushed (\<lambda>res. case res of Inl e \<Rightarrow> Some (Inl e) | Inr b \<Rightarrow> map_option Inr (build b))"

definition build_rule_set_checked ::
  "ext_lib \<Rightarrow> rule_set_behavior \<Rightarrow> string list \<Rightarrow> parser_context \<Rightarrow> (rule_error + rule_set) panics" where
  "build_rule_set_checked E beh entries ctx =
     (case beh of
        BehaviorDomain \<Rightarrow> build_checked domain_build (push_each_checked (domain_push_checked E) domain_builder_new entries)
      | BehaviorIpCidr \<Rightarrow> build_checked ip_build (push_each_checked (ip_push_checked E) ip_builder_new entries)
      | BehaviorClassical \<Rightarrow> build_checked classical_build (push_each_checked (classical_push_checked E ctx) [] entries))"

subsection \<open>The lenient and the checked build\<close>

text \<open>
  What the two loops rely on: a builder whose lenient push is the checked one with its error
  dropped.
\<close>

locale entry_builder =
  fixes push_checked :: "'b \<Rightarrow> string \<Rightarrow> ((rule_error + unit) \<times> 'b) panics"
    and push :: "'b \<Rightarrow> string \<Rightarrow> 'b panics"
  assumes push_lenient: "push b e = map_option snd (push_checked b e)"
begin

lemma checked_then_lenient:
  "push_each_checked push_checked b es = Some (Inr b') \<Longrightarrow> push_each push b es = Some b'"
proof (induction es arbitrary: b)
  case (Cons e es)
  then obtain res b1 where p: "push_checked b e = Some (res, b1)"
    and r: "(case res of Inl err \<Rightarrow> Some (Inl err) | Inr _ \<Rightarrow> push_each_checked push_checked b1 es) = Some (Inr b')"
    by (auto simp: bind_eq_Some_conv)
  then have "push_each_checked push_checked b1 es = Some (Inr b')" by (cases res) simp_all
  then show ?case using Cons.IH push_lenient p by simp
qed simp

text \<open>The error is the one of the first entry that the builder refuses.\<close>

lemma checked_error:
  "push_each_checked push_checked b es = Some (Inl err) \<Longrightarrow>
   \<exists>pre e post b1 b2. es = pre @ e # post \<and> push_each_checked push_checked b pre = Some (Inr b1) \<and>
     push_checked b1 e = Some (Inl err, b2)"
proof (induction es arbitrary: b)
  case (Cons e es)
  then obtain res b1 where p: "push_checked b e = Some (res, b1)"
    and r: "(case res of Inl err \<Rightarrow> Some (Inl err) | Inr _ \<Rightarrow> push_each_checked push_checked b1 es) = Some (Inl err)"
    by (auto simp: bind_eq_Some_conv)
  show ?case
  proof (cases res)
    case (Inl x)
    then have "e # es = [] @ e # es \<and> push_each_checked push_checked b [] = Some (Inr b) \<and> push_checked b e = Some (Inl err, b1)"
      using p r by simp
    then show ?thesis by blast
  next
    case (Inr u)
    with r have "push_each_checked push_checked b1 es = Some (Inl err)" by simp
    then obtain pre x post c1 c2 where "es = pre @ x # post" "push_each_checked push_checked b1 pre = Some (Inr c1)"
      "push_checked c1 x = Some (Inl err, c2)" using Cons.IH by blast
    then have "e # es = (e # pre) @ x # post \<and> push_each_checked push_checked b (e # pre) = Some (Inr c1) \<and>
      push_checked c1 x = Some (Inl err, c2)" using p Inr by simp
    then show ?thesis by blast
  qed
qed simp

end

interpretation dsb: entry_builder "domain_push_checked E" "domain_push E" for E
  by unfold_locales (simp add: domain_push_def)

interpretation isb: entry_builder "ip_push_checked E" "ip_push E" for E
  by unfold_locales (simp add: ip_push_def)

interpretation csb: entry_builder "classical_push_checked E ctx" "classical_push E ctx" for E ctx
  by unfold_locales (simp add: classical_push_def)

lemma build_checked_Inr:
  "build_checked build pushed = Some (Inr s) \<longleftrightarrow> (\<exists>b. pushed = Some (Inr b) \<and> build b = Some s)"
proof (cases pushed)
  case (Some res)
  then show ?thesis by (cases res) (auto simp: build_checked_def)
qed (simp add: build_checked_def)



subsection \<open>What a domain set matches\<close>

text \<open>The entries as insertions: a blank entry is skipped.\<close>

definition domain_inserts :: "string list \<Rightarrow> (string \<times> unit \<times> insert_mode) list" where
  "domain_inserts entries = map (\<lambda>e. (trim e, (), FirstWins)) (filter (\<lambda>e. trim e \<noteq> []) entries)"

lemma domain_push_insert:
  "domain_push E b e = (if trim e = [] then Some b
     else map_option (\<lambda>(inserted, t). b\<lparr>ds_trie := t, ds_count := ds_count b + (if inserted then 1 else 0)\<rparr>)
       (trie_insert (to_lowercase E) (ds_trie b) (trim e) ()))"
  by (auto simp: domain_push_def domain_push_checked_def Let_def option.map_comp comp_def split_beta
      intro!: option.map_cong)

lemma push_each_inserts:
  "map_option ds_trie (push_each (domain_push E) b es) = insert_all (to_lowercase E) (ds_trie b) (domain_inserts es)"
proof (induction es arbitrary: b)
  case (Cons e es)
  show ?case
  proof (cases "trim e = []")
    case True
    then show ?thesis using Cons.IH by (simp add: domain_push_insert domain_inserts_def)
  next
    case False
    show ?thesis
    proof (cases "trie_insert (to_lowercase E) (ds_trie b) (trim e) ()")
      case None
      then show ?thesis using False by (simp add: domain_push_insert domain_inserts_def trie_insert_def)
    next
      case (Some it)
      obtain ok t where it: "it = (ok, t)" by (cases it)
      show ?thesis
        using Cons.IH [of "b\<lparr>ds_trie := t, ds_count := ds_count b + (if ok then 1 else 0)\<rparr>"] False Some it
        by (simp add: domain_push_insert domain_inserts_def trie_insert_def)
    qed
  qed
qed (simp add: domain_inserts_def)

lemma rsplit_map_lower: "rsplit_on CHR ''.'' (to_ascii_lowercase s) = map to_ascii_lowercase (rsplit_on CHR ''.'' s)"
  by (simp add: rsplit_on_def split_on_map_lower rev_map)

lemma no_upper_lower_id: "\<not> list_ex is_ascii_uppercase s \<Longrightarrow> to_ascii_lowercase s = s"
  by (auto simp: to_ascii_lowercase_def list_ex_iff intro!: map_idI lower_byte_id)

lemma set_trim_end_dots: "set (trim_end_dots s) \<subseteq> set s"
  unfolding trim_end_dots_def using set_dropWhileD by fastforce

lemma sorted_units: "sorted (us :: unit list)"
  by (induction us) simp_all

text \<open>A trie of units that denotes the table of the keys: a host is found when some key matches its lower-case form.\<close>

lemma table_hit_keys:
  assumes "trie_from t b" and "slots b = keys_table lowercase no_keys (map (\<lambda>k. (k, (), FirstWins)) ks)"
  shows "trie_hit t h \<longleftrightarrow> trim_end_dots (trim h) \<noteq> [] \<and>
    (\<exists>k \<in> set ks. key_matches (normal_key lowercase k) (to_ascii_lowercase (trim_end_dots (trim h))))"
proof -
  let ?kvs = "map (\<lambda>k. (k, ())) ks"
  let ?T = "keys_table lowercase no_keys (map (\<lambda>(key, v). (key, v, FirstWins)) ?kvs)"
  let ?q = "to_ascii_lowercase (trim_end_dots (trim h))"
  have b: "slots b = ?T" using assms(2) by (simp add: comp_def)
  have z: "zst_ok True TYPE(unit)" by (simp add: zst_ok_def)
  have labels: "map (if list_ex is_ascii_uppercase (trim h) then to_ascii_lowercase else (\<lambda>l. l))
      (rsplit_on CHR ''.'' (trim_end_dots (trim h))) = rsplit_on CHR ''.'' ?q"
  proof (cases "list_ex is_ascii_uppercase (trim h)")
    case False
    then have "\<not> list_ex is_ascii_uppercase (trim_end_dots (trim h))"
      using set_trim_end_dots by (fastforce simp: list_ex_iff)
    then show ?thesis using False by (simp add: no_upper_lower_id)
  qed (simp add: rsplit_map_lower)
  let ?best = "table_best ?T [] (rsplit_on CHR ''.'' ?q) None"
  have "is_best_of ?best ?T (rsplit_on CHR ''.'' ?q)" by (rule table_best_correct)
  then have best: "?best = None \<longleftrightarrow> hits ?T (rsplit_on CHR ''.'' ?q) = {}"
    by (cases ?best) (auto simp: is_best_of_def hits_def)
  then have "is_min_of ?best (hits ?T (rsplit_on CHR ''.'' ?q))"
    by (cases ?best) (auto simp: is_min_of_def)
  then have m: "is_min_of ?best {v. \<exists>key. (key, v) \<in> set ?kvs \<and> key_matches (normal_key lowercase key) ?q}"
    by (rule hits_first_wins [OF sorted_units])
  have found: "?best = None \<longleftrightarrow> \<not> (\<exists>k \<in> set ks. key_matches (normal_key lowercase k) ?q)"
    using m by (cases ?best) (auto simp: is_min_of_def image_iff split: if_splits)
  have "trie_len t = 0 \<Longrightarrow> ?best = None"
    using trie_empty_slots [OF assms(1)] b by (simp add: table_best_empty)
  then show ?thesis
    using search_table(2) [OF assms(1) z, of h] b labels found by (auto simp: trie_hit_def no_panic_def)
qed

lemma trie_hit_keys:
  assumes "insert_all lowercase trie_new (map (\<lambda>k. (k, (), FirstWins)) ks) = Some t" and "seal t = Some t'"
  shows "trie_hit t' h \<longleftrightarrow> trim_end_dots (trim h) \<noteq> [] \<and>
    (\<exists>k \<in> set ks. key_matches (normal_key lowercase k) (to_ascii_lowercase (trim_end_dots (trim h))))"
proof -
  obtain b where b: "trie_from t b" "trie_state t = Building b"
    "slots b = keys_table lowercase no_keys (map (\<lambda>k. (k, (), FirstWins)) ks)"
    using insert_all_table [OF trie_from_new _ assms(1)] by (auto simp: trie_new_def)
  show ?thesis by (rule table_hit_keys [OF seal_from(1) [OF b(1,2) assms(2)] b(3)])
qed

text \<open>
  C16. A domain rule set matches a connection exactly when one of its non-blank entries, as a domain
  pattern in lower case, matches the host; invalid entries match nothing.
\<close>

theorem domain_set_exact:
  assumes "domain_from_entries E entries = Some s"
  shows "set_matches E P md s \<longleftrightarrow> trim_end_dots (trim (rule_host md)) \<noteq> [] \<and>
    (\<exists>e \<in> set entries. trim e \<noteq> [] \<and>
      key_matches (normal_key (to_lowercase E) (trim e)) (to_ascii_lowercase (trim_end_dots (trim (rule_host md)))))"
proof -
  obtain b t' where b: "push_each (domain_push E) domain_builder_new entries = Some b" "seal (ds_trie b) = Some t'"
    "s = DomainRuleSet t' (ds_count b)"
    using assms by (auto simp: domain_from_entries_def domain_build_def bind_eq_Some_conv)
  let ?ks = "map trim (filter (\<lambda>e. trim e \<noteq> []) entries)"
  have "insert_all (to_lowercase E) trie_new (map (\<lambda>k. (k, (), FirstWins)) ?ks) = Some (ds_trie b)"
    using push_each_inserts [of E domain_builder_new entries] b(1)
    by (simp add: domain_builder_new_def domain_inserts_def comp_def)
  note hit = trie_hit_keys [OF this b(2), of "rule_host md"]
  have "rule_host md = [] \<Longrightarrow> trim_end_dots (trim (rule_host md)) = []"
    using set_trim [of "[]"] by (simp add: trim_end_dots_def)
  then show ?thesis unfolding b(3) using hit by (auto simp: Let_def)
qed

theorem domain_set_exact_witness:
  "\<exists>s. domain_from_entries demo_lib [''+.Example.com'', '' '', ''...''] = Some s \<and>
     set_matches demo_lib demo_platform (default_metadata\<lparr>host := ''Www.example.com''\<rparr>) s"
proof -
  let ?entries = "[''+.Example.com'', '' '', ''...'']"
  let ?md = "default_metadata\<lparr>host := ''Www.example.com''\<rparr>"
  have c: "sum_list (map (\<lambda>(key, v :: unit, mode :: insert_mode). key_cost (normal_key (to_lowercase demo_lib) key)) (domain_inserts ?entries)) = 40"
    by code_simp
  obtain t t' where t: "insert_all (to_lowercase demo_lib) trie_new (domain_inserts ?entries) = Some t" "seal t = Some t'"
    using build_seal_total [of "to_lowercase demo_lib" "domain_inserts ?entries"] c by auto
  obtain b where "push_each (domain_push demo_lib) domain_builder_new ?entries = Some b" "ds_trie b = t"
    using push_each_inserts [of demo_lib domain_builder_new ?entries] t(1) by (auto simp: domain_builder_new_def)
  then obtain s where s: "domain_from_entries demo_lib ?entries = Some s"
    using t(2) by (simp add: domain_from_entries_def domain_build_def del: push_each.simps)
  have "trim_end_dots (trim (rule_host ?md)) \<noteq> []" "trim ''+.Example.com'' \<noteq> []"
    "key_matches (normal_key (to_lowercase demo_lib) (trim ''+.Example.com''))
      (to_ascii_lowercase (trim_end_dots (trim (rule_host ?md))))"
    by code_simp+
  then show ?thesis using s domain_set_exact [OF s, of demo_platform ?md] by auto
qed

subsection \<open>What an IP set matches\<close>

definition entry_nets :: "ext_lib \<Rightarrow> string list \<Rightarrow> ip_net list" where
  "entry_nets E entries = List.map_filter (\<lambda>e. if trim e = [] then None else net_parse E (trim e)) entries"

lemma push_each_ip:
  "push_each (ip_push E) b es =
     Some \<lparr>is_set = foldl (set_add E) (is_set b) (entry_nets E es), is_count = is_count b + length (entry_nets E es)\<rparr>"
proof (induction es arbitrary: b)
  case (Cons e es)
  show ?case
    using Cons.IH [of b] Cons.IH [of "push_net E b (the (net_parse E (trim e)))"]
    by (cases "net_parse E (trim e)") (simp_all add: ip_push_def ip_push_checked_def push_net_def entry_nets_def map_filter_simps)
qed (simp add: entry_nets_def map_filter_simps)

text \<open>
  An IP rule set matches a connection exactly when the destination address lies in one of the
  networks its entries parse to; its length is their number, although adjacent networks are merged.
\<close>

theorem ip_set_exact:
  assumes "ipnet_ok E"
  shows "\<exists>s. ip_from_entries E entries = Some s \<and> set_len s = length (entry_nets E entries) \<and>
    (set_matches E P md s \<longleftrightarrow> (\<exists>ip. dst_ip md = Some ip \<and> (\<exists>n \<in> set (entry_nets E entries). net_contains E n ip)))"
  using set_contains_from_nets [OF assms, of "entry_nets E entries"]
  by (auto simp: ip_from_entries_def push_each_ip ip_builder_new_def ip_build_def from_nets_def is_some_and_def
      no_panic_def split: option.split)

theorem ip_set_exact_witness:
  "\<exists>s. ip_from_entries demo_lib [''10.0.0.0/8'', ''junk''] = Some s \<and>
     set_len s = length (entry_nets demo_lib [''10.0.0.0/8'', ''junk'']) \<and>
     (set_matches demo_lib demo_platform (default_metadata\<lparr>dst_ip := Some (V4 167772161)\<rparr>) s \<longleftrightarrow>
       (\<exists>ip. dst_ip (default_metadata\<lparr>dst_ip := Some (V4 167772161)\<rparr>) = Some ip \<and>
         (\<exists>n \<in> set (entry_nets demo_lib [''10.0.0.0/8'', ''junk'']). net_contains demo_lib n ip)))"
  by (rule ip_set_exact [OF demo_lib_ok(1)])

subsection \<open>What a classical set matches\<close>

definition entry_rule :: "ext_lib \<Rightarrow> parser_context \<Rightarrow> string \<Rightarrow> rule option" where
  "entry_rule E ctx e =
     (if trim e = [] then None
      else case check_entry (trim e) of
        Inl _ \<Rightarrow> None
      | Inr _ \<Rightarrow> (case parse_rule E ctx (splice_placeholder_adapter (trim e)) of Inl _ \<Rightarrow> None | Inr r \<Rightarrow> Some r))"

lemma push_each_classical:
  "push_each (classical_push E ctx) rules es = Some (rules @ List.map_filter (entry_rule E ctx) es)"
proof (induction es arbitrary: rules)
  case (Cons e es)
  have "classical_push E ctx rules e = Some (rules @ (case entry_rule E ctx e of None \<Rightarrow> [] | Some r \<Rightarrow> [r]))"
    by (simp add: classical_push_def classical_push_checked_def entry_rule_def Let_def split: sum.split)
  then show ?case using Cons.IH by (simp add: map_filter_simps split: option.split)
qed (simp add: map_filter_simps)

lemma entry_rule_narrow: "entry_rule E ctx e = Some r \<Longrightarrow> no_match_all r"
proof -
  assume "entry_rule E ctx e = Some r"
  then have c: "check_entry (trim e) = Inr ()" and p: "parse_rule E ctx (splice_placeholder_adapter (trim e)) = Inr r"
    by (auto simp: entry_rule_def split: if_splits sum.splits)
  have p: "parse_rule_depth E ctx (splice_adapter ''RULE-SET-PLACEHOLDER'' (trim (trim e))) 0 = Inr r"
    using p by (simp add: parse_rule_def splice_placeholder_adapter_def)
  show ?thesis
    using leg_narrow [OF c [unfolded check_entry_def] p] parsed_legs_narrow [OF p] by simp
qed


end
