(* ===== verification/Domain_Key.thy ===== *)
theory Domain_Key
  imports Rule_Set
begin

section \<open>Dead domain keys\<close>

text \<open>
  \<^verbatim>\<open>meow-rules/src/domain_key.rs\<close>: the load-time checks that flag a domain pattern or rule payload no
  connection can match. The theorems state that the checks are exact on ASCII text: a flagged key
  matches no normalised host, and every key that passes matches one.
\<close>

datatype domain_key_defect = DeadLabel | NotInsertable

definition domain_key_body :: "string \<Rightarrow> string" where
  "domain_key_body key =
     (let key = trim key in
      trim_end_dots
        (case strip_prefix ''+.'' key of Some r \<Rightarrow> r
         | None \<Rightarrow> (case strip_prefix ''*.'' key of Some r \<Rightarrow> r
         | None \<Rightarrow> (case strip_prefix ''.'' key of Some r \<Rightarrow> r
         | None \<Rightarrow> key))))"

definition key_defect :: "string \<Rightarrow> domain_key_defect option" where
  "key_defect key =
     (let body = domain_key_body key in
      if body = [] then Some NotInsertable
      else if list_ex (\<lambda>l. l = []) (split_on CHR ''.'' body) then Some DeadLabel
      else None)"

definition domain_key_has_dead_label :: "string \<Rightarrow> bool" where
  "domain_key_has_dead_label key \<longleftrightarrow> key_defect key = Some DeadLabel"

definition domain_key_is_dead :: "string \<Rightarrow> bool" where
  "domain_key_is_dead key \<longleftrightarrow> key_defect key \<noteq> None"

definition domain_rule_payload_is_dead :: "string \<Rightarrow> bool" where
  "domain_rule_payload_is_dead pl =
     (let pl = trim pl in
      pl = [] \<or> ends_with_byte CHR ''.'' pl \<or> starts_with_byte CHR ''.'' pl \<or>
      list_ex (\<lambda>c. c = CHR ''*'' \<or> c = CHR ''+'') pl \<or> domain_key_is_dead pl)"

definition domain_wildcard_payload_is_dead :: "string \<Rightarrow> bool" where
  "domain_wildcard_payload_is_dead pl =
     (let pl = trim pl in
      if pl = [] \<or> list_ex (\<lambda>c. c = CHR ''+'') pl then True
      else let body = (case strip_prefix ''*.'' pl of Some r \<Rightarrow> r | None \<Rightarrow> pl) in
        body = [] \<or> list_ex (\<lambda>l. l = []) (split_on CHR ''.'' body))"

definition domain_keyword_payload_is_dead :: "string \<Rightarrow> bool" where
  "domain_keyword_payload_is_dead pl = contains_str ''..'' pl"

subsection \<open>Empty labels\<close>

abbreviation empty_label :: "string \<Rightarrow> bool" where
  "empty_label s \<equiv> [] \<in> set (split_on CHR ''.'' s)"

lemma split_dot_Cons:
  "split_on CHR ''.'' (c # s) =
     (if c = CHR ''.'' then [] # split_on CHR ''.'' s
      else (c # hd (split_on CHR ''.'' s)) # tl (split_on CHR ''.'' s))"
  by (cases "split_on CHR ''.'' s") auto

lemma hd_split_dot: "hd (split_on CHR ''.'' s) = [] \<longleftrightarrow> s = [] \<or> hd s = CHR ''.''"
  by (cases s) (simp_all add: split_dot_Cons del: split_by.simps, simp)

lemma empty_label_hd_tl: "empty_label s \<longleftrightarrow> hd (split_on CHR ''.'' s) = [] \<or> [] \<in> set (tl (split_on CHR ''.'' s))"
  by (cases "split_on CHR ''.'' s") auto

text \<open>Empty labels come from a dot at either end, or from two dots in a row.\<close>

lemma inner_empty_label:
  "[] \<in> set (tl (split_on CHR ''.'' s)) \<longleftrightarrow> s \<noteq> [] \<and> (last s = CHR ''.'' \<or> sublist ''..'' s)"
proof (induction s)
  case (Cons c s)
  note h = empty_label_hd_tl [of s]
  have dd: "sublist ''..'' (c # s) \<longleftrightarrow> c = CHR ''.'' \<and> s \<noteq> [] \<and> hd s = CHR ''.'' \<or> sublist ''..'' s"
    by (cases s) (auto simp: sublist_Cons_right)
  show ?case
    using Cons.IH h hd_split_dot [of s] dd
    by (cases "s = []") (auto simp: split_dot_Cons simp del: split_by.simps)
qed simp

lemma empty_label_iff:
  "empty_label s \<longleftrightarrow> s = [] \<or> hd s = CHR ''.'' \<or> last s = CHR ''.'' \<or> sublist ''..'' s"
proof -
  show ?thesis using empty_label_hd_tl [of s] hd_split_dot [of s] inner_empty_label [of s] by auto
qed

lemma empty_label_lower [simp]: "empty_label (to_ascii_lowercase s) \<longleftrightarrow> empty_label s"
  by (simp add: split_on_map_lower image_iff) (metis to_ascii_lowercase_Nil to_ascii_lowercase_eq_Nil)

lemma empty_label_suffix: "empty_label r \<Longrightarrow> q = r \<or> suffix (CHR ''.'' # r) q \<Longrightarrow> empty_label q"
  using split_on_suffix [of "CHR ''.''" q r] by auto

text \<open>The hosts the checks speak of: normalised, non-empty.\<close>

definition live_host :: "string \<Rightarrow> bool" where
  "live_host h \<longleftrightarrow> normal_host h \<and> h \<noteq> []"

lemma live_hostD: "live_host h \<Longrightarrow> \<not> empty_label h \<and> to_ascii_lowercase h = h"
  by (auto simp: live_host_def normal_host_def list_all_iff intro!: no_upper_lower_id simp: list_ex_iff)

lemma live_host_lower: "is_ascii s \<Longrightarrow> \<not> empty_label s \<Longrightarrow> live_host (to_ascii_lowercase s)"
proof -
  assume a: "is_ascii s" "\<not> empty_label s"
  have "\<forall>c \<in> set (to_ascii_lowercase s). is_ascii_byte c \<and> \<not> is_ascii_uppercase c"
    using a(1) by (auto simp: to_ascii_lowercase_def is_ascii_def list_all_iff intro: is_ascii_lower_byte)
  moreover have "s \<noteq> []" using a(2) by auto
  moreover have "\<not> empty_label (to_ascii_lowercase s)" using a(2) by simp
  ultimately show ?thesis unfolding live_host_def normal_host_def list_all_iff by simp
qed

lemma rule_host_of: "live_host h \<Longrightarrow> rule_host (default_metadata\<lparr>host := h\<rparr>) = h"
proof -
  assume "live_host h"
  then have "last h \<noteq> CHR ''.''" "h \<noteq> []" using live_hostD [of h] by (auto simp: empty_label_iff)
  then have "trim_end_dots h = h" by (cases h rule: rev_cases) (auto simp: trim_end_dots_def)
  then show ?thesis by (simp add: rule_host_def default_metadata_def)
qed

subsection \<open>Payloads of DOMAIN and DOMAIN-SUFFIX rules\<close>

lemma strip_prefix_hd: "s \<noteq> [] \<Longrightarrow> hd s \<noteq> c \<Longrightarrow> strip_prefix (c # p) s = None"
  by (cases s) (auto simp: strip_prefix_def)

lemma hd_not_in: "c \<notin> set s \<Longrightarrow> s \<noteq> [] \<Longrightarrow> hd s \<noteq> c"
  by auto

lemma starts_with_byte_hd: "starts_with_byte c s \<longleftrightarrow> s \<noteq> [] \<and> hd s = c"
  by (cases s) (simp_all add: starts_with_byte_def)

lemma payload_dead_iff:
  assumes "trim pl = pl"
  shows "domain_rule_payload_is_dead pl \<longleftrightarrow> empty_label pl \<or> CHR ''*'' \<in> set pl \<or> CHR ''+'' \<in> set pl"
proof (cases "pl = [] \<or> last pl = CHR ''.'' \<or> hd pl = CHR ''.'' \<or> CHR ''*'' \<in> set pl \<or> CHR ''+'' \<in> set pl")
  case True
  then have "domain_rule_payload_is_dead pl"
    unfolding domain_rule_payload_is_dead_def Let_def assms ends_with_byte_def starts_with_byte_hd list_ex_iff by blast
  then show ?thesis using True unfolding empty_label_iff by blast
next
  case False
  then have f: "pl \<noteq> []" "CHR ''+'' \<notin> set pl" "CHR ''*'' \<notin> set pl" "hd pl \<noteq> CHR ''.''" by blast+
  have "strip_prefix ''+.'' pl = None" "strip_prefix ''*.'' pl = None"
    by (rule strip_prefix_hd [OF f(1) hd_not_in]; rule f)+
  moreover have "strip_prefix ''.'' pl = None" by (rule strip_prefix_hd [OF f(1,4)])
  moreover have "trim_end_dots pl = pl" using False by (intro trim_end_dots_id) simp
  ultimately have "domain_key_body pl = pl" by (simp add: domain_key_body_def Let_def assms)
  then show ?thesis
    using False
    unfolding domain_rule_payload_is_dead_def Let_def assms ends_with_byte_def starts_with_byte_hd list_ex_iff
      domain_key_is_dead_def key_defect_def
    by (simp split: if_splits) blast
qed

text \<open>
  The check on DOMAIN and DOMAIN-SUFFIX payloads is exact: an ASCII payload is flagged as dead if
  and only if the rule matches no connection whose host is normalised and free of \<^verbatim>\<open>*\<close> and \<^verbatim>\<open>+\<close>.
\<close>

theorem dead_domain_payload_exact:
  assumes "case_ok E" and "is_ascii pl" and "trim pl = pl"
  shows "domain_rule_payload_is_dead pl \<longleftrightarrow>
      (\<forall>md. live_host (rule_host md) \<and> CHR ''*'' \<notin> set (rule_host md) \<and> CHR ''+'' \<notin> set (rule_host md) \<longrightarrow>
        \<not> match_metadata E P md (domain_suffix_new pl a) \<and> \<not> match_metadata E P md (domain_new E pl a))"
    (is "?dead \<longleftrightarrow> ?never")
proof
  assume ?dead
  then have d: "empty_label pl \<or> CHR ''*'' \<in> set pl \<or> CHR ''+'' \<in> set pl" by (simp add: payload_dead_iff assms(3))
  have "False" if h: "live_host (rule_host md)" "CHR ''*'' \<notin> set (rule_host md)" "CHR ''+'' \<notin> set (rule_host md)"
    and m: "rule_host md = to_ascii_lowercase pl \<or> suffix (CHR ''.'' # to_ascii_lowercase pl) (rule_host md)" for md
  proof -
    have "\<not> empty_label pl" using empty_label_suffix [OF _ m] live_hostD [OF h(1)] by auto
    then obtain c where c: "c \<in> set pl" "c = CHR ''*'' \<or> c = CHR ''+''" using d by auto
    then have "c \<in> set (to_ascii_lowercase pl)"
      by (auto simp: to_ascii_lowercase_def image_iff intro!: bexI [of _ c] lower_byte_id [symmetric])
        (auto simp: is_ascii_uppercase_def byte_val_def)
    then show False using m h(2,3) c(2) by (auto simp: suffix_def)
  qed
  then show ?never
    using assms(1,2) live_hostD
    by (fastforce simp: domain_suffix_new_def domain_new_def case_ok_def suffix_matches_text domain_matches_text Let_def)
next
  assume n: ?never
  show ?dead
  proof (rule ccontr)
    assume "\<not> ?dead"
    then have l: "\<not> empty_label pl" "CHR ''*'' \<notin> set pl" "CHR ''+'' \<notin> set pl" by (simp_all add: payload_dead_iff assms(3))
    let ?h = "to_ascii_lowercase pl"
    have h: "live_host ?h" using live_host_lower assms(2) l(1) by blast
    have "CHR ''*'' \<notin> set ?h" "CHR ''+'' \<notin> set ?h" using l(2,3) by (auto simp: to_ascii_lowercase_def) (metis lower_byte_star lower_byte_plus)+
    then show False
      using n [rule_format, of "default_metadata\<lparr>host := ?h\<rparr>"] h rule_host_of [OF h]
      by (simp add: domain_suffix_new_def suffix_matches_text Let_def)
  qed
qed

theorem dead_domain_payload_exact_witness:
  "domain_rule_payload_is_dead ''a..b'' \<and>
   \<not> match_metadata demo_lib demo_platform (default_metadata\<lparr>host := ''x.b''\<rparr>) (domain_suffix_new ''a..b'' ''P'')"
proof -
  have "domain_rule_payload_is_dead ''a..b''" "is_ascii ''a..b''" "trim ''a..b'' = ''a..b''" by code_simp+
  moreover have "live_host (rule_host (default_metadata\<lparr>host := ''x.b''\<rparr>)) \<and>
      CHR ''*'' \<notin> set (rule_host (default_metadata\<lparr>host := ''x.b''\<rparr>)) \<and>
      CHR ''+'' \<notin> set (rule_host (default_metadata\<lparr>host := ''x.b''\<rparr>))"
    by code_simp
  ultimately show ?thesis using dead_domain_payload_exact [OF demo_lib_ok(2)] by blast
qed

subsection \<open>Keys of a domain trie\<close>

lemma prefix_lower_iff:
  assumes "\<And>c x. c \<in> set p \<Longrightarrow> lower_byte x = c \<longleftrightarrow> x = c"
  shows "prefix p (to_ascii_lowercase s) \<longleftrightarrow> prefix p s"
  using assms
proof (induction p arbitrary: s)
  case (Cons c p)
  have "lower_byte x = c \<longleftrightarrow> x = c" for x using Cons.prems by simp
  then have "c = lower_byte x \<longleftrightarrow> c = x" for x by metis
  then show ?case using Cons by (cases s) simp_all
qed simp

lemma strip_prefix_lower:
  "strip_prefix ''+.'' (to_ascii_lowercase s) = map_option to_ascii_lowercase (strip_prefix ''+.'' s)"
  "strip_prefix ''*.'' (to_ascii_lowercase s) = map_option to_ascii_lowercase (strip_prefix ''*.'' s)"
  "strip_prefix ''.'' (to_ascii_lowercase s) = map_option to_ascii_lowercase (strip_prefix ''.'' s)"
proof -
  have l: "lower_byte x = c \<longleftrightarrow> x = c" if "c \<in> {CHR ''+'', CHR ''*'', CHR ''.''}" for c x using that by auto
  have "prefix ''+.'' (to_ascii_lowercase s) \<longleftrightarrow> prefix ''+.'' s" by (rule prefix_lower_iff, rule l) auto
  moreover have "prefix ''*.'' (to_ascii_lowercase s) \<longleftrightarrow> prefix ''*.'' s" by (rule prefix_lower_iff, rule l) auto
  moreover have "prefix ''.'' (to_ascii_lowercase s) \<longleftrightarrow> prefix ''.'' s" by (rule prefix_lower_iff, rule l) auto
  ultimately show
    "strip_prefix ''+.'' (to_ascii_lowercase s) = map_option to_ascii_lowercase (strip_prefix ''+.'' s)"
    "strip_prefix ''*.'' (to_ascii_lowercase s) = map_option to_ascii_lowercase (strip_prefix ''*.'' s)"
    "strip_prefix ''.'' (to_ascii_lowercase s) = map_option to_ascii_lowercase (strip_prefix ''.'' s)"
    by (simp_all add: strip_prefix_def to_ascii_lowercase_drop)
qed

lemma key_base_lower: "key_base (to_ascii_lowercase s) = apfst to_ascii_lowercase (key_base s)"
  by (simp add: key_base_def strip_prefix_lower trim_end_dots_lower split: option.split)

lemma key_body_base: "domain_key_body key = fst (key_base (trim key))"
  by (simp add: domain_key_body_def key_base_def Let_def split: option.split)

lemma is_ascii_trim: "is_ascii s \<Longrightarrow> is_ascii (trim s)"
  using set_trim [of s] by (auto simp: is_ascii_def list_all_iff)

lemma normal_key_ascii:
  assumes "case_ok E" and "is_ascii key"
  shows "normal_key (to_lowercase E) key = to_ascii_lowercase (trim key)"
proof (cases "list_ex (\<lambda>c. is_ascii_uppercase c \<or> \<not> is_ascii_byte c) (trim key)")
  case True
  then show ?thesis using assms is_ascii_trim by (simp add: normal_key_def Let_def case_ok_def)
next
  case False
  then have "\<not> list_ex is_ascii_uppercase (trim key)" by (auto simp: list_ex_iff)
  then show ?thesis using False by (simp add: normal_key_def Let_def no_upper_lower_id)
qed

lemma key_matches_base:
  "key_matches d q \<longleftrightarrow> (let (r, ks) = key_base d in
     r \<noteq> [] \<and> (Exact \<in> set ks \<and> q = r \<or> Dot \<in> set ks \<and> suffix (CHR ''.'' # r) q \<or>
       Star \<in> set ks \<and> suffix (CHR ''.'' # r) q \<and> CHR ''.'' \<notin> set (take (length q - length r - 1) q)))"
  by (auto simp: key_matches_def key_base_def split: option.split)

lemma key_base_kinds: "key_base d = (r, ks) \<Longrightarrow> Exact \<in> set ks \<or> Dot \<in> set ks \<or> Star \<in> set ks"
  by (auto simp: key_base_def split: option.splits)

lemma is_ascii_body: "is_ascii s \<Longrightarrow> is_ascii (domain_key_body s)"
proof -
  assume "is_ascii s"
  then have t: "\<forall>c \<in> set (trim s). is_ascii_byte c" using is_ascii_trim by (simp add: is_ascii_def list_all_iff)
  have "set (domain_key_body s) \<subseteq> set (trim s)"
    unfolding domain_key_body_def Let_def
    by (rule order_trans [OF set_trim_end_dots]) (simp add: strip_prefix_def set_drop_subset)
  then show ?thesis using t by (auto simp: is_ascii_def list_all_iff)
qed



subsection \<open>Keywords\<close>

lemma dots_within: "sublist ''..'' (CHR ''a'' # s @ ''a'') \<longleftrightarrow> sublist ''..'' s"
proof
  assume "sublist ''..'' (CHR ''a'' # s @ ''a'')"
  then obtain p q where e: "CHR ''a'' # s @ ''a'' = p @ ''..'' @ q" by (auto simp: sublist_def)
  obtain p' where p: "p = CHR ''a'' # p'" using e by (cases p) auto
  obtain q' where q: "q = q' @ ''a''" using e p by (cases q rule: rev_cases) auto
  show "sublist ''..'' s" using e p q by (auto simp: sublist_def)
qed (auto simp: sublist_def, metis append_Cons append_assoc)

text \<open>
  The check on DOMAIN-KEYWORD payloads is exact: an ASCII keyword is flagged if and only if it is
  a substring of no normalised host.
\<close>

theorem dead_keyword_exact:
  assumes "is_ascii kw"
  shows "domain_keyword_payload_is_dead kw \<longleftrightarrow>
    (\<forall>md. live_host (rule_host md) \<longrightarrow> \<not> match_metadata E P md (domain_keyword_new kw a))"
proof
  assume "domain_keyword_payload_is_dead kw"
  then have "sublist ''..'' kw" by (simp add: domain_keyword_payload_is_dead_def contains_str_sublist)
  then obtain p q where "kw = p @ ''..'' @ q" by (auto simp: sublist_def)
  moreover have "to_ascii_lowercase ''..'' = ''..''" by code_simp
  ultimately have "to_ascii_lowercase kw = to_ascii_lowercase p @ ''..'' @ to_ascii_lowercase q"
    by (simp only: to_ascii_lowercase_append)
  then have dd: "sublist ''..'' (to_ascii_lowercase kw)" unfolding sublist_def by blast
  show "\<forall>md. live_host (rule_host md) \<longrightarrow> \<not> match_metadata E P md (domain_keyword_new kw a)"
  proof (intro allI impI notI)
    fix md
    assume h: "live_host (rule_host md)" and "match_metadata E P md (domain_keyword_new kw a)"
    then have "sublist (to_ascii_lowercase kw) (rule_host md)"
      using live_hostD [OF h] by (simp add: domain_keyword_new_def keyword_matches_text)
    then have "sublist ''..'' (rule_host md)" using dd by (meson sublist_order.order_trans)
    then show False using live_hostD [OF h] by (simp add: empty_label_iff)
  qed
next
  assume n: "\<forall>md. live_host (rule_host md) \<longrightarrow> \<not> match_metadata E P md (domain_keyword_new kw a)"
  show "domain_keyword_payload_is_dead kw"
  proof (rule ccontr)
    assume "\<not> domain_keyword_payload_is_dead kw"
    then have "\<not> sublist ''..'' kw" by (simp add: domain_keyword_payload_is_dead_def contains_str_sublist)
    then have "\<not> empty_label (CHR ''a'' # kw @ ''a'')" unfolding empty_label_iff by (simp add: dots_within)
    then have h: "live_host (to_ascii_lowercase (CHR ''a'' # kw @ ''a''))"
      using assms by (intro live_host_lower) (auto simp: is_ascii_def is_ascii_byte_def byte_val_def)
    have "sublist (to_ascii_lowercase kw) (to_ascii_lowercase (CHR ''a'' # kw @ ''a''))"
      unfolding sublist_def by (intro exI [of _ "[lower_byte CHR ''a'']"]) auto
    then show False
      using n [rule_format, of "default_metadata\<lparr>host := to_ascii_lowercase (CHR ''a'' # kw @ ''a'')\<rparr>"] h rule_host_of [OF h]
      by (simp add: domain_keyword_new_def keyword_matches_text)
  qed
qed

theorem dead_keyword_exact_witness:
  "domain_keyword_payload_is_dead ''a..b'' \<and>
   \<not> match_metadata demo_lib demo_platform (default_metadata\<lparr>host := ''x.b''\<rparr>) (domain_keyword_new ''a..b'' ''P'')"
proof -
  have "domain_keyword_payload_is_dead ''a..b''" "is_ascii ''a..b''"
    "live_host (rule_host (default_metadata\<lparr>host := ''x.b''\<rparr>))" by code_simp+
  then show ?thesis using dead_keyword_exact [of "''a..b''" demo_lib demo_platform "''P''"] by blast
qed

end
