(* ===== verification/Wildcard.thy ===== *)
theory Wildcard
  imports Domain_Key
begin

section \<open>What the regular expressions of wildcard rules match\<close>

text \<open>
  A DOMAIN-WILDCARD rule is matched by a regular expression the constructor writes: the escaped
  payload with each star turned into a non-empty run without dots, anchored and case-insensitive.
  The engine itself is the \<^verbatim>\<open>regex\<close> crate, a parameter; this theory states the documented meaning of
  the patterns the sources write (\<open>regex_ok\<close>) and derives what a wildcard rule matches.
\<close>

subsection \<open>Patterns the sources write\<close>

datatype token = Lit char | Run

text \<open>The characters \<^verbatim>\<open>regex::escape\<close> puts a backslash before.\<close>

definition backslash :: char where
  "backslash = char_of (92 :: nat)"

definition regex_special :: "char \<Rightarrow> bool" where
  "regex_special c \<longleftrightarrow> c = backslash \<or> c \<in> set ''.+*?()|[]{}^$#&-~''"

definition escape_char :: "char \<Rightarrow> string" where
  "escape_char c = (if regex_special c then [backslash, c] else [c])"

fun token_text :: "token \<Rightarrow> string" where
  "token_text (Lit c) = escape_char c"
| "token_text Run = ''[^.]+''"

definition tokens_text :: "token list \<Rightarrow> string" where
  "tokens_text ts = concat (map token_text ts)"

text \<open>Anchored and case-insensitive matching of a token sequence against ASCII text.\<close>

fun tokens_match :: "token list \<Rightarrow> string \<Rightarrow> bool" where
  "tokens_match [] h \<longleftrightarrow> h = []"
| "tokens_match (Lit c # ts) [] \<longleftrightarrow> False"
| "tokens_match (Lit c # ts) (x # xs) \<longleftrightarrow> lower_byte x = lower_byte c \<and> tokens_match ts xs"
| "tokens_match (Run # ts) [] \<longleftrightarrow> False"
| "tokens_match (Run # ts) (x # xs) \<longleftrightarrow>
     x \<noteq> CHR ''.'' \<and> (tokens_match ts xs \<or> tokens_match (Run # ts) xs)"

definition ascii_tokens :: "token list \<Rightarrow> bool" where
  "ascii_tokens ts \<longleftrightarrow> list_all (\<lambda>t. case t of Lit c \<Rightarrow> is_ascii_byte c | Run \<Rightarrow> True) ts"

text \<open>The metacharacters of \<^verbatim>\<open>is_regex_meta_byte\<close>: a pattern without them is a literal.\<close>

definition is_regex_meta_byte :: "char \<Rightarrow> bool" where
  "is_regex_meta_byte c \<longleftrightarrow> c = backslash \<or> c \<in> set ''.+*?()|[]{}^$''"

text \<open>
  Documented behaviour of the \<^verbatim>\<open>regex\<close> crate: \<^verbatim>\<open>escape\<close> quotes the special characters; an anchored
  pattern of quoted characters and \<^verbatim>\<open>[^.]+\<close> under \<^verbatim>\<open>(?i)\<close> matches as its tokens do; a pattern without
  metacharacters is found only in texts that contain it.
\<close>

definition regex_ok :: "ext_lib \<Rightarrow> bool" where
  "regex_ok E \<longleftrightarrow>
     (\<forall>s. is_ascii s \<longrightarrow> regex_escape E s = concat (map escape_char s)) \<and>
     (\<forall>ts h. ascii_tokens ts \<longrightarrow> is_ascii h \<longrightarrow>
        regex_is_match E (anchored (tokens_text ts)) h = tokens_match ts h) \<and>
     (\<forall>p h. \<not> list_ex is_regex_meta_byte p \<longrightarrow> regex_is_match E p h \<longrightarrow> sublist p h)"

subsection \<open>The pattern of a wildcard rule\<close>

definition glob_tokens :: "string \<Rightarrow> token list" where
  "glob_tokens pat = map (\<lambda>c. if c = CHR ''*'' then Run else Lit c) pat"

lemma glob_tokens_Cons: "glob_tokens (c # pat) = (if c = CHR ''*'' then Run else Lit c) # glob_tokens pat"
  by (simp add: glob_tokens_def)

lemma glob_tokens_append: "glob_tokens (a @ b) = glob_tokens a @ glob_tokens b"
  by (simp add: glob_tokens_def)

lemma ascii_glob_tokens: "is_ascii pat \<Longrightarrow> ascii_tokens (glob_tokens pat)"
  by (auto simp: ascii_tokens_def glob_tokens_def is_ascii_def list_all_iff)

lemma backslash_not_star: "backslash \<noteq> CHR ''*''" by code_simp

lemma escaped_no_star: "concat (map escape_char pat) = CHR ''*'' # r \<Longrightarrow> False"
proof (cases pat)
  case (Cons c cs)
  have "regex_special CHR ''*''" by code_simp
  moreover assume "concat (map escape_char pat) = CHR ''*'' # r"
  ultimately show False
    using Cons backslash_not_star by (auto simp: escape_char_def split: if_splits)
qed simp

lemma replace_escaped:
  "replace_str escaped_star sub (concat (map escape_char pat)) =
     concat (map (\<lambda>c. if c = CHR ''*'' then sub else escape_char c) pat)"
proof (induction pat)
  case (Cons c pat)
  have star: "regex_special CHR ''*''" by code_simp
  have bs: "escaped_star = [backslash, CHR ''*'']" by (simp add: escaped_star_def backslash_def)
  let ?rest = "concat (map escape_char pat)"
  have no: "\<not> prefix escaped_star (backslash # ?rest)"
    using escaped_no_star [of pat] by (auto simp: bs prefix_def)
  consider (Star) "c = CHR ''*''" | (Special) "c \<noteq> CHR ''*''" "regex_special c" | (Plain) "c \<noteq> CHR ''*''" "\<not> regex_special c"
    by blast
  then show ?case
  proof cases
    case Star
    then have "escape_char c = [backslash, CHR ''*'']" using star by (simp add: escape_char_def)
    moreover have "replace_str escaped_star sub (backslash # CHR ''*'' # ?rest) = sub @ replace_str escaped_star sub ?rest"
      by (simp add: bs)
    ultimately show ?thesis using Cons.IH Star by simp
  next
    case Special
    have "replace_str escaped_star sub (c # ?rest) = c # replace_str escaped_star sub ?rest"
      using no by (cases "c = backslash") (auto simp: bs)
    moreover have "replace_str escaped_star sub (backslash # c # ?rest) = backslash # replace_str escaped_star sub (c # ?rest)"
      using Special by (simp add: bs)
    moreover have "escape_char c = [backslash, c]" using Special by (simp add: escape_char_def)
    ultimately show ?thesis using Special Cons.IH by simp
  next
    case Plain
    then have "c \<noteq> backslash" by (auto simp: regex_special_def)
    then have "replace_str escaped_star sub (c # ?rest) = c # replace_str escaped_star sub ?rest" by (simp add: bs)
    moreover have "escape_char c = [c]" using Plain by (simp add: escape_char_def)
    ultimately show ?thesis using Plain Cons.IH by simp
  qed
qed simp

lemma wildcard_regex_tokens:
  assumes "regex_ok E" and "is_ascii pat"
  shows "wildcard_regex E pat = anchored (tokens_text (glob_tokens pat))"
proof -
  have "regex_escape E pat = concat (map escape_char pat)" using assms by (simp add: regex_ok_def)
  moreover have "(\<lambda>c. if c = CHR ''*'' then ''[^.]+'' else escape_char c) =
      token_text \<circ> (\<lambda>c. if c = CHR ''*'' then Run else Lit c)" by auto
  ultimately show ?thesis
    by (simp add: wildcard_regex_def replace_escaped tokens_text_def glob_tokens_def)
qed

text \<open>What a wildcard rule matches: the tokens of its payload.\<close>

lemma wildcard_regex_match:
  assumes "regex_ok E" and "is_ascii pat" and "is_ascii h"
  shows "regex_is_match E (wildcard_regex E pat) h = tokens_match (glob_tokens pat) h"
  using assms ascii_glob_tokens wildcard_regex_tokens by (simp add: regex_ok_def)

subsection \<open>Token sequences\<close>

lemma tokens_match_Run:
  "tokens_match (Run # ts) h \<longleftrightarrow> (\<exists>g r. h = g @ r \<and> g \<noteq> [] \<and> CHR ''.'' \<notin> set g \<and> tokens_match ts r)"
proof (induction h)
  case (Cons x h)
  show ?case
  proof
    assume "tokens_match (Run # ts) (x # h)"
    then have x: "x \<noteq> CHR ''.''" and m: "tokens_match ts h \<or> tokens_match (Run # ts) h" by simp_all
    from m show "\<exists>g r. x # h = g @ r \<and> g \<noteq> [] \<and> CHR ''.'' \<notin> set g \<and> tokens_match ts r"
    proof
      assume "tokens_match ts h"
      then show ?thesis using x by (intro exI [of _ "[x]"] exI [of _ h]) auto
    next
      assume "tokens_match (Run # ts) h"
      then obtain g r where "h = g @ r" "CHR ''.'' \<notin> set g" "tokens_match ts r" using Cons.IH by blast
      then show ?thesis using x by (intro exI [of _ "x # g"] exI [of _ r]) auto
    qed
  next
    assume "\<exists>g r. x # h = g @ r \<and> g \<noteq> [] \<and> CHR ''.'' \<notin> set g \<and> tokens_match ts r"
    then obtain g r where g: "x # h = g @ r" "g \<noteq> []" "CHR ''.'' \<notin> set g" "tokens_match ts r" by blast
    obtain g' where g': "g = x # g'" "h = g' @ r" using g(1,2) by (cases g) auto
    show "tokens_match (Run # ts) (x # h)"
    proof (cases "g' = []")
      case False
      then have "tokens_match (Run # ts) h" using Cons.IH g g' by auto
      then show ?thesis using g(3) g' by auto
    qed (use g g' in auto)
  qed
qed simp

lemma tokens_match_lits:
  "CHR ''*'' \<notin> set p \<Longrightarrow>
   tokens_match (glob_tokens p @ ts) h \<longleftrightarrow>
     (\<exists>a r. h = a @ r \<and> to_ascii_lowercase a = to_ascii_lowercase p \<and> tokens_match ts r)"
proof (induction p arbitrary: h)
  case Nil
  then show ?case by (auto simp: glob_tokens_def)
next
  case (Cons c p)
  then have c: "c \<noteq> CHR ''*''" "CHR ''*'' \<notin> set p" by auto
  show ?case
  proof (cases h)
    case Nil
    then show ?thesis using Cons.prems by (auto simp: glob_tokens_Cons)
  next
    case h: (Cons x xs)
    have "tokens_match (glob_tokens (c # p) @ ts) h \<longleftrightarrow>
        lower_byte x = lower_byte c \<and> (\<exists>a r. xs = a @ r \<and> to_ascii_lowercase a = to_ascii_lowercase p \<and> tokens_match ts r)"
      using Cons.IH [of xs] c h by (simp add: glob_tokens_Cons)
    also have "\<dots> \<longleftrightarrow> (\<exists>a r. h = a @ r \<and> to_ascii_lowercase a = to_ascii_lowercase (c # p) \<and> tokens_match ts r)"
    proof
      assume "lower_byte x = lower_byte c \<and> (\<exists>a r. xs = a @ r \<and> to_ascii_lowercase a = to_ascii_lowercase p \<and> tokens_match ts r)"
      then obtain a r where "lower_byte x = lower_byte c" "xs = a @ r" "to_ascii_lowercase a = to_ascii_lowercase p" "tokens_match ts r"
        by blast
      then show "\<exists>a r. h = a @ r \<and> to_ascii_lowercase a = to_ascii_lowercase (c # p) \<and> tokens_match ts r"
        using h by (intro exI [of _ "x # a"] exI [of _ r]) simp
    next
      assume "\<exists>a r. h = a @ r \<and> to_ascii_lowercase a = to_ascii_lowercase (c # p) \<and> tokens_match ts r"
      then obtain a r where a: "h = a @ r" "to_ascii_lowercase a = to_ascii_lowercase (c # p)" "tokens_match ts r" by blast
      obtain y a' where "a = y # a'" using a(2) by (cases a) auto
      then show "lower_byte x = lower_byte c \<and> (\<exists>a r. xs = a @ r \<and> to_ascii_lowercase a = to_ascii_lowercase p \<and> tokens_match ts r)"
        using a h by auto
    qed
    finally show ?thesis .
  qed
qed

lemma tokens_match_exact:
  "CHR ''*'' \<notin> set p \<Longrightarrow> tokens_match (glob_tokens p) h \<longleftrightarrow> to_ascii_lowercase h = to_ascii_lowercase p"
  using tokens_match_lits [of p "[]" h] by simp

text \<open>The shape the domain index takes over: a star, a dot and a plain rest.\<close>

lemma star_tokens_match:
  assumes "CHR ''*'' \<notin> set rest"
  shows "tokens_match (glob_tokens (''*.'' @ rest)) h \<longleftrightarrow>
    (\<exists>label x. h = label @ CHR ''.'' # x \<and> label \<noteq> [] \<and> CHR ''.'' \<notin> set label \<and> to_ascii_lowercase x = to_ascii_lowercase rest)"
proof -
  have "tokens_match (glob_tokens (''.'' @ rest)) r \<longleftrightarrow> (\<exists>x. r = CHR ''.'' # x \<and> to_ascii_lowercase x = to_ascii_lowercase rest)" for r
  proof -
    have d: "lower_byte CHR ''.'' = CHR ''.''" by code_simp
    have "to_ascii_lowercase r = to_ascii_lowercase (''.'' @ rest) \<longleftrightarrow> (\<exists>x. r = CHR ''.'' # x \<and> to_ascii_lowercase x = to_ascii_lowercase rest)"
      by (cases r) (simp_all add: d)
    then show ?thesis using assms by (subst tokens_match_exact) auto
  qed
  moreover have "glob_tokens (''*.'' @ rest) = Run # glob_tokens (''.'' @ rest)" by (simp add: glob_tokens_def)
  ultimately show ?thesis by (auto simp: tokens_match_Run)
qed

subsection \<open>A library that satisfies the assumptions\<close>

text \<open>A matcher for the patterns the sources write: it reads the tokens back.\<close>

function read_tokens :: "string \<Rightarrow> token list" where
  "read_tokens s =
     (if prefix ''[^.]+'' s then Run # read_tokens (drop 5 s)
      else case s of
        [] \<Rightarrow> []
      | c # cs \<Rightarrow>
          if c = backslash then (case cs of [] \<Rightarrow> [] | d # ds \<Rightarrow> Lit d # read_tokens ds)
          else Lit c # read_tokens cs)"
  by pat_completeness auto
termination
  by (relation "measure length") (auto simp: prefix_def)

declare read_tokens.simps [simp del]

lemma read_tokens_text: "read_tokens (tokens_text ts) = ts"
proof (induction ts)
  case Nil
  then show ?case by (simp add: tokens_text_def read_tokens.simps)
next
  case (Cons t ts)
  show ?case
  proof (cases t)
    case (Lit c)
    have "regex_special CHR ''[''" "backslash \<noteq> CHR ''[''" by code_simp+
    then have "\<not> prefix ''[^.]+'' (escape_char c @ tokens_text ts)"
      by (auto simp: escape_char_def)
    moreover have "\<not> regex_special c \<Longrightarrow> c \<noteq> backslash" by (auto simp: regex_special_def)
    ultimately have "read_tokens (escape_char c @ tokens_text ts) = Lit c # read_tokens (tokens_text ts)"
      by (subst read_tokens.simps) (auto simp: escape_char_def)
    then show ?thesis using Lit Cons by (simp add: tokens_text_def)
  next
    case Run
    have "read_tokens (''[^.]+'' @ tokens_text ts) = Run # read_tokens (tokens_text ts)"
      by (subst read_tokens.simps) simp
    then show ?thesis using Run Cons by (simp add: tokens_text_def)
  qed
qed

definition demo_is_match :: "string \<Rightarrow> string \<Rightarrow> bool" where
  "demo_is_match p h =
     (if prefix ''^(?i)'' p \<and> suffix ''$'' p then tokens_match (read_tokens (butlast (drop 5 p))) h
      else contains_str p h)"

definition demo_regex_lib :: ext_lib where
  "demo_regex_lib = demo_lib\<lparr>regex_is_match := demo_is_match, regex_escape := (\<lambda>s. concat (map escape_char s))\<rparr>"

lemma demo_regex_ok: "regex_ok demo_regex_lib"
proof -
  have lib: "regex_is_match demo_regex_lib = demo_is_match" "regex_escape demo_regex_lib = (\<lambda>s. concat (map escape_char s))"
    by (simp_all add: demo_regex_lib_def)
  have a: "demo_is_match (anchored (tokens_text ts)) h = tokens_match ts h" for ts h
    by (simp add: demo_is_match_def anchored_def read_tokens_text suffix_def butlast_append)
  have l: "sublist p h" if n: "\<not> list_ex is_regex_meta_byte p" and m: "demo_is_match p h" for p h
  proof -
    have "is_regex_meta_byte CHR ''^''" by code_simp
    then have "\<not> prefix ''^(?i)'' p" using n by (auto simp: prefix_def)
    then show ?thesis using m by (simp add: demo_is_match_def contains_str_sublist)
  qed
  show ?thesis using a l by (simp add: regex_ok_def lib)
qed

lemma demo_regex_lib_ok: "ipnet_ok demo_regex_lib" "case_ok demo_regex_lib" "net_print_ok demo_regex_lib"
proof -
  show "ipnet_ok demo_regex_lib" using demo_lib_ok(1) by (simp add: ipnet_ok_def demo_regex_lib_def)
  show "case_ok demo_regex_lib" using demo_lib_ok(2) by (simp add: case_ok_def demo_regex_lib_def)
  show "net_print_ok demo_regex_lib" using demo_print_ok by (simp add: net_print_ok_def demo_regex_lib_def)
qed

subsection \<open>The meaning of DOMAIN-WILDCARD rules\<close>

text \<open>
  A DOMAIN-WILDCARD rule of the shape \<^verbatim>\<open>*.rest\<close> with an ASCII payload matches exactly the hosts that
  consist of one non-empty label, a dot and the rest, ASCII case apart: the pattern never reaches
  over a dot, and the bare rest does not match.
\<close>

theorem star_wildcard_meaning:
  assumes "regex_ok E" and "is_ascii rest" and "CHR ''*'' \<notin> set rest" and "is_ascii (rule_host md)"
    and "domain_wildcard_new E (''*.'' @ rest) a = Inr r"
  shows "match_metadata E P md r \<longleftrightarrow>
    (\<exists>label x. rule_host md = label @ CHR ''.'' # x \<and> label \<noteq> [] \<and> CHR ''.'' \<notin> set label \<and>
      to_ascii_lowercase x = to_ascii_lowercase rest)"
proof -
  have r: "r = DomainWildcardRule (wildcard_regex E (''*.'' @ rest)) (''*.'' @ rest) a"
    using assms(5) by (auto simp: domain_wildcard_new_def Let_def split: if_splits)
  have "is_ascii (''*.'' @ rest)" using assms(2) by (simp add: is_ascii_def is_ascii_byte_def byte_val_def)
  note m = wildcard_regex_match [OF assms(1) this assms(4)]
  show ?thesis
    unfolding r match_metadata.simps wildcard_matches_def Let_def m star_tokens_match [OF assms(3)] by auto
qed

theorem star_wildcard_meaning_witness:
  "\<exists>r. domain_wildcard_new demo_regex_lib ''*.Example.com'' ''P'' = Inr r \<and>
     match_metadata demo_regex_lib demo_platform (default_metadata\<lparr>host := ''www.example.com''\<rparr>) r"
proof -
  let ?md = "default_metadata\<lparr>host := ''www.example.com''\<rparr>"
  obtain r where r: "domain_wildcard_new demo_regex_lib (''*.'' @ ''Example.com'') ''P'' = Inr r"
    by (auto simp: domain_wildcard_new_def demo_regex_lib_def demo_lib_def)
  have h: "rule_host ?md = ''www.example.com''" by code_simp
  have "is_ascii ''Example.com''" "CHR ''*'' \<notin> set ''Example.com''" "is_ascii (rule_host ?md)" by code_simp+
  note iff = star_wildcard_meaning [OF demo_regex_ok this r]
  have "rule_host ?md = ''www'' @ CHR ''.'' # ''example.com''" "''www'' \<noteq> []" "CHR ''.'' \<notin> set ''www''"
    "to_ascii_lowercase ''example.com'' = to_ascii_lowercase ''Example.com''" by code_simp+
  then have "match_metadata demo_regex_lib demo_platform ?md r" unfolding iff by blast
  then show ?thesis using r by auto
qed

end
