(* ===== verification/Match_Engine.thy ===== *)
theory Match_Engine
  imports Wildcard
begin

section \<open>The rule scan with a domain index\<close>

text \<open>
  \<^verbatim>\<open>meow-tunnel/src/match_engine.rs\<close>: the index of domain rules in a trie, the ordered scan that uses
  it, and the completion of metadata with process information. The reference is the plain ordered
  scan (\<open>first_match\<close>): the first rule that matches and whose target is usable wins; rules whose
  target is missing or a pass are skipped. The theorem states that the index never changes the
  result.
\<close>

record match_result =
  adapter_name :: string
  result_type :: rule_type
  result_payload :: string

subsection \<open>The domain index\<close>

record domain_index =
  di_trie :: "32 word domain_trie"

definition index_empty :: domain_index where
  "index_empty = \<lparr>di_trie = trie_new\<rparr>"

definition indexable_pattern :: "string \<Rightarrow> bool" where
  "indexable_pattern pl \<longleftrightarrow>
     pl \<noteq> [] \<and> is_ascii pl \<and>
     \<not> (starts_with_byte CHR ''.'' pl \<or> starts_with_byte CHR ''*'' pl \<or> starts_with_byte CHR ''+'' pl) \<and>
     \<not> ends_with_byte CHR ''.'' pl \<and> \<not> contains_str ''..'' pl"

definition star_wildcard_indexable :: "string \<Rightarrow> bool" where
  "star_wildcard_indexable pl =
     is_some_and (\<lambda>rest. indexable_pattern rest \<and> CHR ''*'' \<notin> set rest) (strip_prefix ''*.'' pl)"

definition index_put :: "ext_lib \<Rightarrow> domain_index \<Rightarrow> string \<Rightarrow> 32 word \<Rightarrow> (bool \<times> domain_index) panics" where
  "index_put E ix key i = map_option (\<lambda>(ok, t). (ok, ix\<lparr>di_trie := t\<rparr>)) (trie_insert (to_lowercase E) (di_trie ix) key i)"

definition insert_rule ::
  "ext_lib \<Rightarrow> domain_index \<Rightarrow> nat \<Rightarrow> rule_type \<Rightarrow> string \<Rightarrow> (bool \<times> domain_index) panics" where
  "insert_rule E ix i ty pl =
     (if 2 ^ 32 \<le> i then None
      else case ty of
        RtDomain \<Rightarrow> if indexable_pattern pl then index_put E ix pl (word_of_nat i) else Some (False, ix)
      | RtDomainSuffix \<Rightarrow>
          if \<not> indexable_pattern pl then Some (False, ix) else index_put E ix (''+.'' @ pl) (word_of_nat i)
      | RtDomainWildcard \<Rightarrow>
          if star_wildcard_indexable pl then index_put E ix pl (word_of_nat i) else Some (False, ix)
      | _ \<Rightarrow> Some (False, ix))"

definition index_seal :: "domain_index \<Rightarrow> domain_index panics" where
  "index_seal ix = map_option (\<lambda>t. ix\<lparr>di_trie := t\<rparr>) (seal (di_trie ix))"

fun index_rules :: "ext_lib \<Rightarrow> domain_index \<Rightarrow> nat \<Rightarrow> rule list \<Rightarrow> domain_index panics" where
  "index_rules E ix i [] = Some ix"
| "index_rules E ix i (r # rs) =
     Option.bind (insert_rule E ix i (type_of_rule r) (payload r)) (\<lambda>(_, ix). index_rules E ix (i + 1) rs)"

definition index_build :: "ext_lib \<Rightarrow> rule list \<Rightarrow> domain_index panics" where
  "index_build E rules = Option.bind (index_rules E index_empty 0 rules) index_seal"

definition index_search :: "domain_index \<Rightarrow> string \<Rightarrow> nat option panics" where
  "index_search ix h = map_option (map_option unat) (search_min_normalized False (di_trie ix) h)"

subsection \<open>The scan\<close>

fun first_match :: "ext_lib \<Rightarrow> platform \<Rightarrow> target_probe \<Rightarrow> metadata \<Rightarrow> rule list \<Rightarrow> match_result option" where
  "first_match E P pr md [] = None"
| "first_match E P pr md (r # rs) =
     (case match_and_resolve E P pr md r of
        Some a \<Rightarrow>
          (case check pr a of
             Usable \<Rightarrow> Some \<lparr>adapter_name = a, result_type = type_of_rule r, result_payload = payload r\<rparr>
           | Pass \<Rightarrow> first_match E P pr md rs
           | Missing \<Rightarrow> first_match E P pr md rs)
      | None \<Rightarrow> first_match E P pr md rs)"

definition engine_match ::
  "ext_lib \<Rightarrow> platform \<Rightarrow> target_probe \<Rightarrow> metadata \<Rightarrow> rule list \<Rightarrow> domain_index \<Rightarrow> match_result option panics" where
  "engine_match E P pr md rules ix =
     Option.bind (if rule_host md = [] then Some None else index_search ix (rule_host md)) (\<lambda>hit.
       let scan_end = (case hit of Some t \<Rightarrow> t | None \<Rightarrow> length rules) in
       if length rules < scan_end then None
       else case first_match E P pr md (take scan_end rules) of
         Some m \<Rightarrow> Some (Some m)
       | None \<Rightarrow>
           (case hit of
              None \<Rightarrow> Some (first_match E P pr md (drop scan_end rules))
            | Some t \<Rightarrow>
                if length rules \<le> t then None
                else let r = rules ! t; a = adapter r in
                  case check pr a of
                    Usable \<Rightarrow> Some (Some \<lparr>adapter_name = a, result_type = type_of_rule r, result_payload = payload r\<rparr>)
                  | Pass \<Rightarrow> Some (first_match E P pr md (drop (t + 1) rules))
                  | Missing \<Rightarrow> Some (first_match E P pr md (drop (t + 1) rules))))"

subsection \<open>Process information\<close>

record process_info =
  info_name :: string
  info_path :: string
  info_uid :: "32 word option"

definition enriched_with_process :: "metadata \<Rightarrow> process_info \<Rightarrow> metadata" where
  "enriched_with_process md info =
     (let md = md\<lparr>process := info_name info, process_path := info_path info\<rparr> in
      if uid md = None then md\<lparr>uid := info_uid info\<rparr> else md)"

text \<open>The platform's socket-owner lookup is the parameter \<open>find_process\<close>.\<close>

definition maybe_enrich_with_process ::
  "(network \<Rightarrow> ip_addr \<Rightarrow> 16 word \<Rightarrow> process_info option) \<Rightarrow> metadata \<Rightarrow> metadata option" where
  "maybe_enrich_with_process find_process md =
     (if process md \<noteq> [] then None
      else Option.bind (src_ip md) (\<lambda>ip.
        if src_port md = 0 then None
        else map_option (enriched_with_process md) (find_process (network md) ip (src_port md))))"

subsection \<open>What the index holds\<close>

text \<open>The trie key of a rule, if the index takes the rule.\<close>

definition index_key :: "rule_type \<Rightarrow> string \<Rightarrow> string option" where
  "index_key ty pl =
     (case ty of
        RtDomain \<Rightarrow> if indexable_pattern pl then Some pl else None
      | RtDomainSuffix \<Rightarrow> if indexable_pattern pl then Some (''+.'' @ pl) else None
      | RtDomainWildcard \<Rightarrow> if star_wildcard_indexable pl then Some pl else None
      | _ \<Rightarrow> None)"

lemma insert_rule_key:
  "insert_rule E ix i ty pl =
     (if 2 ^ 32 \<le> i then None
      else case index_key ty pl of None \<Rightarrow> Some (False, ix) | Some k \<Rightarrow> index_put E ix k (word_of_nat i))"
  by (auto simp: insert_rule_def index_key_def split: rule_type.split)

definition entry_keys :: "(nat \<times> rule_type \<times> string) list \<Rightarrow> (string \<times> 32 word) list" where
  "entry_keys items = List.map_filter (\<lambda>(i, ty, pl). map_option (\<lambda>k. (k, word_of_nat i)) (index_key ty pl)) items"

lemma in_entry_keys:
  "(k, w) \<in> set (entry_keys items) \<longleftrightarrow> (\<exists>i ty pl. (i, ty, pl) \<in> set items \<and> index_key ty pl = Some k \<and> w = word_of_nat i)"
  by (force simp: entry_keys_def map_filter_def)

lemma entry_keys_Cons:
  "entry_keys ((i, ty, pl) # items) =
     (case index_key ty pl of None \<Rightarrow> [] | Some k \<Rightarrow> [(k, word_of_nat i)]) @ entry_keys items"
  by (simp add: entry_keys_def map_filter_simps split: option.split)

lemma entry_keys_append: "entry_keys (a @ b) = entry_keys a @ entry_keys b"
  by (simp add: entry_keys_def map_filter_def)

lemma word_of_nat_mono:
  assumes "i \<le> j" and "j < 2 ^ 32"
  shows "(word_of_nat i :: 32 word) \<le> word_of_nat j"
  using assms by (simp add: word_le_nat_alt unat_of_nat)

lemma entry_keys_sorted:
  assumes "sorted (map fst items)" and "\<And>i ty pl. (i, ty, pl) \<in> set items \<Longrightarrow> i < 2 ^ 32"
  shows "sorted (map snd (entry_keys items))"
  using assms
proof (induction items)
  case Nil
  then show ?case by (simp add: entry_keys_def map_filter_simps)
next
  case (Cons it items)
  obtain i ty pl where it: "it = (i, ty, pl)" by (cases it)
  have s: "sorted (map snd (entry_keys items))"
    by (rule Cons.IH) (use Cons.prems in \<open>auto simp: it\<close>)
  have "word_of_nat i \<le> w" if "(k, w) \<in> set (entry_keys items)" for k w
  proof -
    obtain j ty' pl' where j: "(j, ty', pl') \<in> set items" "w = word_of_nat j" using \<open>(k, w) \<in> set (entry_keys items)\<close> in_entry_keys by blast
    then have "i \<le> j" "j < 2 ^ 32" using Cons.prems(1) Cons.prems(2) [of j ty' pl'] it by auto
    then show ?thesis using word_of_nat_mono j(2) by simp
  qed
  then show ?case using s by (auto simp: it entry_keys_Cons split: option.split)
qed

text \<open>The index built from items finds the least index whose pattern matches the host.\<close>

lemma index_search_min:
  assumes "insert_all (to_lowercase E) trie_new (map (\<lambda>(key, v). (key, v, FirstWins)) (entry_keys items)) = Some t"
    and "seal t = Some t'" and "di_trie ix = t'"
    and "sorted (map fst items)" and "\<And>i ty pl. (i, ty, pl) \<in> set items \<Longrightarrow> i < 2 ^ 32"
    and "live_host q"
  shows "\<exists>r. index_search ix q = Some r \<and>
    is_min_of r {i. \<exists>ty pl k. (i, ty, pl) \<in> set items \<and> index_key ty pl = Some k \<and> key_matches (normal_key (to_lowercase E) k) q}"
proof -
  let ?N = "{v. \<exists>key. (key, v) \<in> set (entry_keys items) \<and> key_matches (normal_key (to_lowercase E) key) q}"
  let ?I = "{i. \<exists>ty pl k. (i, ty, pl) \<in> set items \<and> index_key ty pl = Some k \<and> key_matches (normal_key (to_lowercase E) k) q}"
  have q: "trim_end_dots q = q" "q \<noteq> []"
    using live_hostD [OF assms(6)] by (auto simp: empty_label_iff intro: trim_end_dots_id)
  have "zst_ok False TYPE(32 word)" by (simp add: zst_ok_def)
  then obtain r where r: "search_min_normalized False t' q = Some r" "is_min_of r ?N"
    using search_min_first_wins [OF assms(1), of t' False q] assms(2) entry_keys_sorted [OF assms(4,5)] q by auto
  have small: "unat (word_of_nat i :: 32 word) = i" if "i \<in> ?I" for i
    using that assms(5) by (auto simp: unat_of_nat)
  have in_N: "w \<in> ?N \<longleftrightarrow> (\<exists>i \<in> ?I. w = word_of_nat i)" for w by (auto simp: in_entry_keys)
  have "is_min_of (map_option unat r) ?I"
  proof (cases r)
    case None
    then have "?N = {}" using r(2) by (simp only: is_min_of_def option.case)
    then have "?I = {}" using in_N by blast
    then show ?thesis using None by (simp only: is_min_of_def option.case option.map)
  next
    case (Some w)
    then have w: "w \<in> ?N" "\<forall>v \<in> ?N. w \<le> v" using r(2) by (simp_all add: is_min_of_def)
    obtain i where i: "i \<in> ?I" "w = word_of_nat i" using w(1) in_N by blast
    have "unat w \<le> j" if j: "j \<in> ?I" for j
    proof -
      have "word_of_nat j \<in> ?N" using in_N j by blast
      then have "w \<le> word_of_nat j" using w(2) by blast
      then show ?thesis using small [OF j] by (simp add: word_le_nat_alt)
    qed
    then show ?thesis using Some i small [OF i(1)] by (simp add: is_min_of_def)
  qed
  then show ?thesis using r(1) assms(3) by (simp add: index_search_def)
qed

lemma put_item:
  assumes "insert_rule E ix i ty pl = Some (ok, ix')"
  shows "i < 2 ^ 32"
    and "insert_all (to_lowercase E) (di_trie ix) (map (\<lambda>(key, v). (key, v, FirstWins)) (entry_keys [(i, ty, pl)])) = Some (di_trie ix')"
  using assms
  by (auto simp: insert_rule_key index_put_def trie_insert_def entry_keys_Cons entry_keys_def map_filter_simps
      split: if_splits option.splits)

lemma insert_all_append:
  "insert_all lower t (es @ es') = Option.bind (insert_all lower t es) (\<lambda>t. insert_all lower t es')"
proof (induction es arbitrary: t)
  case (Cons e es)
  obtain key v mode where "e = (key, v, mode)" by (cases e)
  then show ?case using Cons by (cases "insert_inner lower t key v mode") (auto split: prod.split)
qed simp

lemma index_rules_items:
  assumes "index_rules E ix i rs = Some ix'"
  shows "insert_all (to_lowercase E) (di_trie ix)
      (map (\<lambda>(key, v). (key, v, FirstWins)) (entry_keys (map (\<lambda>(j, r). (j, type_of_rule r, payload r)) (enumerate i rs)))) =
        Some (di_trie ix')"
    and "\<And>j r. (j, r) \<in> set (enumerate i rs) \<Longrightarrow> j < 2 ^ 32"
proof -
  have "insert_all (to_lowercase E) (di_trie ix)
      (map (\<lambda>(key, v). (key, v, FirstWins)) (entry_keys (map (\<lambda>(j, r). (j, type_of_rule r, payload r)) (enumerate i rs)))) =
        Some (di_trie ix') \<and> (\<forall>(j, r) \<in> set (enumerate i rs). j < 2 ^ 32)"
    using assms
  proof (induction rs arbitrary: ix i)
    case Nil
    then show ?case by (simp add: entry_keys_def map_filter_simps)
  next
    case (Cons r rs)
    obtain ok ix1 where p: "insert_rule E ix i (type_of_rule r) (payload r) = Some (ok, ix1)"
      "index_rules E ix1 (i + 1) rs = Some ix'"
      using Cons.prems by (auto simp: bind_eq_Some_conv)
    note IH = Cons.IH [OF p(2)]
    let ?it = "(i, type_of_rule r, payload r)"
    have keys: "entry_keys (map (\<lambda>(j, r). (j, type_of_rule r, payload r)) (enumerate i (r # rs))) =
        entry_keys [?it] @ entry_keys (map (\<lambda>(j, r). (j, type_of_rule r, payload r)) (enumerate (i + 1) rs))"
      by (simp add: entry_keys_append [symmetric])
    show ?case
      unfolding keys map_append insert_all_append put_item(2) [OF p(1)] using IH put_item(1) [OF p(1)] by simp
  qed
  then show "insert_all (to_lowercase E) (di_trie ix)
      (map (\<lambda>(key, v). (key, v, FirstWins)) (entry_keys (map (\<lambda>(j, r). (j, type_of_rule r, payload r)) (enumerate i rs)))) =
        Some (di_trie ix')"
    and "\<And>j r. (j, r) \<in> set (enumerate i rs) \<Longrightarrow> j < 2 ^ 32" by auto
qed

subsection \<open>An indexed pattern matches what the rule matches\<close>

text \<open>
  What the rule list has to satisfy for the index: well-formed rules whose payloads carry no
  surrounding white space, as the parser returns them, with ASCII wildcards.
\<close>

definition indexed_ok :: "ext_lib \<Rightarrow> rule \<Rightarrow> bool" where
  "indexed_ok E r \<longleftrightarrow> wf_rule E r \<and> trim (payload r) = payload r"

lemma indexable_patternD:
  assumes "indexable_pattern pl"
  shows "is_ascii pl" "\<not> empty_label pl" "hd pl \<noteq> CHR ''*''" "hd pl \<noteq> CHR ''+''" "pl \<noteq> []"
  using assms
  by (auto simp: indexable_pattern_def starts_with_byte_hd ends_with_byte_def empty_label_iff contains_str_sublist)

lemma key_base_plain:
  assumes "\<not> empty_label d" and "hd d \<noteq> CHR ''*''" "hd d \<noteq> CHR ''+''"
  shows "key_base d = (d, [Exact])"
proof -
  have d: "d \<noteq> []" "hd d \<noteq> CHR ''.''" "last d \<noteq> CHR ''.''" using assms(1) by (auto simp: empty_label_iff)
  have "strip_prefix ''+.'' d = None" "strip_prefix ''*.'' d = None" "strip_prefix ''.'' d = None"
    using strip_prefix_hd d assms(2,3) by blast+
  then show ?thesis using trim_end_dots_id [of d] d by (simp add: key_base_def)
qed

lemma key_base_marked:
  assumes "\<not> empty_label d"
  shows "key_base (''+.'' @ d) = (d, [Exact, Dot])" and "key_base (''*.'' @ d) = (d, [Star])"
proof -
  have "trim_end_dots d = d" using assms by (intro trim_end_dots_id) (auto simp: empty_label_iff)
  then show "key_base (''+.'' @ d) = (d, [Exact, Dot])" and "key_base (''*.'' @ d) = (d, [Star])"
    by (simp_all add: key_base_def strip_prefix_def)
qed

lemma is_ascii_append: "is_ascii (a @ b) \<longleftrightarrow> is_ascii a \<and> is_ascii b"
  by (simp add: is_ascii_def)

lemma marked_ascii: "is_ascii ''+.''" "is_ascii ''*.''"
  by code_simp+

lemma trim_marked: "trim d = d \<Longrightarrow> trim (''+.'' @ d) = ''+.'' @ d"
proof -
  have "list_all printing ''+.''" by code_simp
  then show "trim d = d \<Longrightarrow> trim (''+.'' @ d) = ''+.'' @ d" using trim_printing_front by blast
qed

lemma star_key_text:
  assumes "to_ascii_lowercase q = q" and "\<not> empty_label q"
  shows "suffix (CHR ''.'' # to_ascii_lowercase r) q \<and> CHR ''.'' \<notin> set (take (length q - length r - 1) q) \<longleftrightarrow>
    (\<exists>label x. q = label @ CHR ''.'' # x \<and> label \<noteq> [] \<and> CHR ''.'' \<notin> set label \<and> to_ascii_lowercase x = to_ascii_lowercase r)"
proof
  assume h: "suffix (CHR ''.'' # to_ascii_lowercase r) q \<and> CHR ''.'' \<notin> set (take (length q - length r - 1) q)"
  then obtain label where l: "q = label @ CHR ''.'' # to_ascii_lowercase r" by (auto simp: suffix_def)
  have "label \<noteq> []" using assms(2) l by (auto simp: empty_label_iff)
  moreover have "CHR ''.'' \<notin> set label" using h l by simp
  ultimately show "\<exists>label x. q = label @ CHR ''.'' # x \<and> label \<noteq> [] \<and> CHR ''.'' \<notin> set label \<and>
      to_ascii_lowercase x = to_ascii_lowercase r"
    using l by (intro exI [of _ label] exI [of _ "to_ascii_lowercase r"]) simp
next
  assume "\<exists>label x. q = label @ CHR ''.'' # x \<and> label \<noteq> [] \<and> CHR ''.'' \<notin> set label \<and>
    to_ascii_lowercase x = to_ascii_lowercase r"
  then obtain label x where l: "q = label @ CHR ''.'' # x" "CHR ''.'' \<notin> set label" "to_ascii_lowercase x = to_ascii_lowercase r"
    by blast
  have "to_ascii_lowercase x = x" using assms(1) l(1) by simp
  then have x: "x = to_ascii_lowercase r" using l(3) by simp
  then have "length x = length r" by simp
  then show "suffix (CHR ''.'' # to_ascii_lowercase r) q \<and> CHR ''.'' \<notin> set (take (length q - length r - 1) q)"
    using l(1,2) x by (auto simp: suffix_def)
qed

lemma key_of_ascii:
  assumes "case_ok E" and "is_ascii k" and "trim k = k" and "key_base k = (r, ks)"
  shows "key_base (normal_key (to_lowercase E) k) = (to_ascii_lowercase r, ks)"
  using assms by (simp add: normal_key_ascii key_base_lower)

lemma index_key_exact:
  assumes E: "case_ok E" "regex_ok E" and r: "indexed_ok E r" and q: "live_host (rule_host md)"
    and k: "index_key (type_of_rule r) (payload r) = Some k"
  shows "key_matches (normal_key (to_lowercase E) k) (rule_host md) \<longleftrightarrow> match_metadata E P md r"
proof -
  have low: "to_ascii_lowercase (rule_host md) = rule_host md" "\<not> empty_label (rule_host md)"
    using live_hostD [OF q] by simp_all
  have pl: "trim (payload r) = payload r" using r by (simp add: indexed_ok_def)
  consider (Domain) d a where "r = DomainRule d a" | (Suffix) d a where "r = DomainSuffixRule d a"
    | (Star) re d a where "r = DomainWildcardRule re d a"
    using k by (cases r) (auto simp: index_key_def split: if_splits)
  then show ?thesis
  proof cases
    case Domain
    then have i: "indexable_pattern d" and kd: "k = d" using k by (auto simp: index_key_def split: if_splits)
    note d = indexable_patternD [OF i]
    have "key_base (normal_key (to_lowercase E) k) = (to_ascii_lowercase d, [Exact])"
      using key_of_ascii [OF E(1) d(1) _ key_base_plain [OF d(2-4)]] pl kd Domain by simp
    then show ?thesis using d(5) low Domain by (auto simp: key_matches_base domain_matches_text)
  next
    case Suffix
    then have i: "indexable_pattern d" and kd: "k = ''+.'' @ d" using k by (auto simp: index_key_def split: if_splits)
    note d = indexable_patternD [OF i]
    have "is_ascii k" "trim k = k" using d(1) marked_ascii trim_marked pl Suffix kd by (simp_all only: is_ascii_append payload.simps simp_thms)
    then have "key_base (normal_key (to_lowercase E) k) = (to_ascii_lowercase d, [Exact, Dot])"
      using key_of_ascii [OF E(1) _ _ key_base_marked(1) [OF d(2)]] kd by simp
    then show ?thesis using d(5) low Suffix by (auto simp: key_matches_base suffix_matches_text Let_def)
  next
    case Star
    then obtain rest where i: "indexable_pattern rest" "CHR ''*'' \<notin> set rest" and kd: "k = ''*.'' @ rest" "d = ''*.'' @ rest"
      using k by (auto simp: index_key_def star_wildcard_indexable_def is_some_and_def strip_prefix_def prefix_def
          split: if_splits option.splits)
    note d = indexable_patternD [OF i(1)]
    have a: "is_ascii k" "trim k = k" using d(1) marked_ascii pl Star kd by (simp_all only: is_ascii_append payload.simps simp_thms)
    then have kb: "key_base (normal_key (to_lowercase E) k) = (to_ascii_lowercase rest, [Star])"
      using key_of_ascii [OF E(1) _ _ key_base_marked(2) [OF d(2)]] kd by simp
    have re: "re = wildcard_regex E (''*.'' @ rest)" using r Star kd by (simp add: indexed_ok_def)
    have h: "is_ascii (rule_host md)" using q by (auto simp: live_host_def normal_host_def is_ascii_def list_all_iff)
    have m: "match_metadata E P md r \<longleftrightarrow>
        (\<exists>label x. rule_host md = label @ CHR ''.'' # x \<and> label \<noteq> [] \<and> CHR ''.'' \<notin> set label \<and>
          to_ascii_lowercase x = to_ascii_lowercase rest)"
      using wildcard_regex_match [OF E(2) _ h] a(1) kd(1) star_tokens_match [OF i(2)] Star re
      by (auto simp: wildcard_matches_def Let_def)
    show ?thesis unfolding m using star_key_text [OF low] kb d(5) by (simp add: key_matches_base)
  qed
qed

subsection \<open>Building the index returns\<close>

definition index_cost :: "ext_lib \<Rightarrow> (nat \<times> rule_type \<times> string) list \<Rightarrow> nat" where
  "index_cost E items = sum_list (map (\<lambda>(k, v). key_cost (normal_key (to_lowercase E) k)) (entry_keys items))"

lemma index_rules_Some:
  assumes "insert_all (to_lowercase E) (di_trie ix)
      (map (\<lambda>(key, v). (key, v, FirstWins)) (entry_keys (map (\<lambda>(j, r). (j, type_of_rule r, payload r)) (enumerate i rs)))) = Some t"
    and "i + length rs \<le> 2 ^ 32"
  shows "\<exists>ix'. index_rules E ix i rs = Some ix'"
  using assms
proof (induction rs arbitrary: ix i)
  case (Cons r rs)
  let ?it = "(i, type_of_rule r, payload r)"
  have keys: "entry_keys (map (\<lambda>(j, r). (j, type_of_rule r, payload r)) (enumerate i (r # rs))) =
      entry_keys [?it] @ entry_keys (map (\<lambda>(j, r). (j, type_of_rule r, payload r)) (enumerate (i + 1) rs))"
    by (simp add: entry_keys_append [symmetric])
  obtain t1 where t1: "insert_all (to_lowercase E) (di_trie ix) (map (\<lambda>(key, v). (key, v, FirstWins)) (entry_keys [?it])) = Some t1"
    "insert_all (to_lowercase E) t1 (map (\<lambda>(key, v). (key, v, FirstWins))
      (entry_keys (map (\<lambda>(j, r). (j, type_of_rule r, payload r)) (enumerate (i + 1) rs)))) = Some t"
    using Cons.prems(1) unfolding keys map_append insert_all_append by (auto simp: bind_eq_Some_conv)
  have "\<exists>ok ix1. insert_rule E ix i (type_of_rule r) (payload r) = Some (ok, ix1) \<and> di_trie ix1 = t1"
    using t1(1) Cons.prems(2)
    by (auto simp: insert_rule_key index_put_def trie_insert_def entry_keys_Cons entry_keys_def map_filter_simps
        bind_eq_Some_conv split: option.splits)
  then obtain ok ix1 where p: "insert_rule E ix i (type_of_rule r) (payload r) = Some (ok, ix1)" "di_trie ix1 = t1" by blast
  then show ?case using Cons.IH [of ix1 "i + 1"] t1(2) Cons.prems(2) by simp
qed simp

lemma index_build_total:
  assumes "index_cost E (map (\<lambda>(j, r). (j, type_of_rule r, payload r)) (enumerate 0 rules)) + 1 < 2 ^ 29"
    and "length rules \<le> 2 ^ 32"
  shows "\<exists>ix. index_build E rules = Some ix"
proof -
  let ?es = "map (\<lambda>(key, v). (key, v, FirstWins)) (entry_keys (map (\<lambda>(j, r). (j, type_of_rule r, payload r)) (enumerate 0 rules)))"
  have "sum_list (map (\<lambda>(key, v, mode). key_cost (normal_key (to_lowercase E) key)) ?es) + 1 < 2 ^ 29"
    using assms(1) by (simp add: index_cost_def comp_def split_beta')
  then obtain t t' where t: "insert_all (to_lowercase E) trie_new ?es = Some t" "seal t = Some t'"
    using build_seal_total by blast
  obtain ix0 where ix0: "index_rules E index_empty 0 rules = Some ix0"
    using index_rules_Some [of E index_empty 0 rules t] t(1) assms(2) by (auto simp: index_empty_def)
  have "di_trie ix0 = t" using index_rules_items(1) [OF ix0] t(1) by (simp add: index_empty_def)
  then show ?thesis using t(2) ix0 by (simp add: index_build_def index_seal_def)
qed

subsection \<open>The index does not change the result\<close>

lemma first_match_append:
  "first_match E P pr md (rs @ rs') =
     (case first_match E P pr md rs of None \<Rightarrow> first_match E P pr md rs' | Some m \<Rightarrow> Some m)"
  by (induction rs) (auto split: option.split target_check.split)

lemma index_key_static: "index_key (type_of_rule r) pl = Some k \<Longrightarrow> type_of_rule r \<noteq> RtSubRule"
  by (auto simp: index_key_def)

text \<open>A hit of the index is a rule that matches.\<close>

lemma index_hit_matches:
  assumes "case_ok E" "regex_ok E" and "list_all (indexed_ok E) rules" and "index_build E rules = Some ix"
    and "live_host (rule_host md)"
  shows "\<exists>hit. index_search ix (rule_host md) = Some hit \<and>
    (\<forall>t. hit = Some t \<longrightarrow> t < length rules \<and> match_and_resolve E P pr md (rules ! t) = Some (adapter (rules ! t)))"
proof -
  let ?items = "map (\<lambda>(j, r). (j, type_of_rule r, payload r)) (enumerate 0 rules)"
  obtain ix0 where ix0: "index_rules E index_empty 0 rules = Some ix0" "seal (di_trie ix0) = Some (di_trie ix)"
    using assms(4) by (auto simp: index_build_def index_seal_def bind_eq_Some_conv)
  note it = index_rules_items [OF ix0(1)]
  have s: "sorted (map fst ?items)" by (simp add: comp_def split_beta enumerate_eq_zip)
  have b: "i < 2 ^ 32" if "(i, ty, pl) \<in> set ?items" for i ty pl using that it(2) by auto
  have ia: "insert_all (to_lowercase E) trie_new (map (\<lambda>(key, v). (key, v, FirstWins)) (entry_keys ?items)) = Some (di_trie ix0)"
    using it(1) by (simp add: index_empty_def)
  have "\<exists>r. index_search ix (rule_host md) = Some r \<and>
    is_min_of r {i. \<exists>ty pl k. (i, ty, pl) \<in> set ?items \<and> index_key ty pl = Some k \<and>
      key_matches (normal_key (to_lowercase E) k) (rule_host md)}"
    by (rule index_search_min [OF ia ix0(2) refl s _ assms(5)]) (rule b)
  then obtain r where r: "index_search ix (rule_host md) = Some r"
    "is_min_of r {i. \<exists>ty pl k. (i, ty, pl) \<in> set ?items \<and> index_key ty pl = Some k \<and>
      key_matches (normal_key (to_lowercase E) k) (rule_host md)}"
    by blast
  have "t < length rules \<and> match_and_resolve E P pr md (rules ! t) = Some (adapter (rules ! t))" if h: "r = Some t" for t
  proof -
    obtain ty pl k where k: "(t, ty, pl) \<in> set ?items" "index_key ty pl = Some k"
      "key_matches (normal_key (to_lowercase E) k) (rule_host md)"
      using r(2) unfolding h is_min_of_def option.case by blast
    then have t: "t < length rules" "ty = type_of_rule (rules ! t)" "pl = payload (rules ! t)"
      by (auto simp: in_set_enumerate_eq)
    have "indexed_ok E (rules ! t)" using assms(3) t(1) by (simp add: list_all_length)
    then have "match_metadata E P md (rules ! t)"
      using index_key_exact [OF assms(1,2) _ assms(5)] k t by blast
    then show ?thesis using index_key_static k(2) t match_and_resolve_static by auto
  qed
  then show ?thesis using r(1) by blast
qed

text \<open>
  C4. The indexed scan is the ordered scan: for every rule list the parser can return (well-formed
  rules, trimmed payloads) and every normalised host, it returns, without a panic, the first rule
  that matches and whose target is usable.
\<close>

theorem engine_is_first_match:
  assumes "case_ok E" "regex_ok E" and "list_all (indexed_ok E) rules" and "index_build E rules = Some ix"
    and "normal_host (rule_host md)"
  shows "engine_match E P pr md rules ix = Some (first_match E P pr md rules)"
proof (cases "rule_host md = []")
  case True
  then show ?thesis by (simp add: engine_match_def Let_def split: option.split)
next
  case False
  then have "live_host (rule_host md)" using assms(5) by (simp add: live_host_def)
  then obtain hit where hit: "index_search ix (rule_host md) = Some hit"
    "\<And>t. hit = Some t \<Longrightarrow> t < length rules \<and> match_and_resolve E P pr md (rules ! t) = Some (adapter (rules ! t))"
    using index_hit_matches [OF assms(1-4)] by blast
  show ?thesis
  proof (cases hit)
    case None
    then show ?thesis using False hit(1) by (simp add: engine_match_def Let_def split: option.split)
  next
    case (Some t)
    then have t: "t < length rules" "match_and_resolve E P pr md (rules ! t) = Some (adapter (rules ! t))"
      using hit(2) by blast+
    have "first_match E P pr md rules =
        (case first_match E P pr md (take t rules) of None \<Rightarrow> first_match E P pr md (rules ! t # drop (Suc t) rules) | Some m \<Rightarrow> Some m)"
      using id_take_nth_drop [OF t(1)] first_match_append by metis
    then show ?thesis
      using False hit(1) Some t
      by (simp add: engine_match_def Let_def split: option.split target_check.split)
  qed
qed

theorem engine_is_first_match_witness:
  "\<exists>ix. index_build demo_regex_lib [DomainSuffixRule ''example.com'' ''A'', FinalRule ''B''] = Some ix \<and>
     engine_match demo_regex_lib demo_platform (closure_probe (\<lambda>_. True)) (default_metadata\<lparr>host := ''www.example.com''\<rparr>)
       [DomainSuffixRule ''example.com'' ''A'', FinalRule ''B''] ix =
     Some (Some \<lparr>adapter_name = ''A'', result_type = RtDomainSuffix, result_payload = ''example.com''\<rparr>)"
proof -
  let ?rules = "[DomainSuffixRule ''example.com'' ''A'', FinalRule ''B'']"
  let ?md = "default_metadata\<lparr>host := ''www.example.com''\<rparr>"
  let ?pr = "closure_probe (\<lambda>_. True)"
  have c: "index_cost demo_regex_lib (map (\<lambda>(j, r). (j, type_of_rule r, payload r)) (enumerate 0 ?rules)) = 30" by code_simp
  obtain ix where ix: "index_build demo_regex_lib ?rules = Some ix" using index_build_total [of demo_regex_lib ?rules] c by auto
  have "list_all (indexed_ok demo_regex_lib) ?rules" "normal_host (rule_host ?md)" by code_simp+
  then have "engine_match demo_regex_lib demo_platform ?pr ?md ?rules ix = Some (first_match demo_regex_lib demo_platform ?pr ?md ?rules)"
    by (intro engine_is_first_match demo_regex_lib_ok demo_regex_ok ix)
  moreover have "first_match demo_regex_lib demo_platform ?pr ?md ?rules =
      Some \<lparr>adapter_name = ''A'', result_type = RtDomainSuffix, result_payload = ''example.com''\<rparr>"
    by code_simp
  ultimately show ?thesis using ix by auto
qed

end
