(* ===== verification/Rule_Glob.thy ===== *)
theory Rule_Glob
  imports Match_Engine
begin

section \<open>The structural wildcard matcher\<close>

text \<open>
  \<^verbatim>\<open>GlobMatcher\<close> of \<^verbatim>\<open>meow-tunnel/src/rule_ir.rs\<close>: a wildcard pattern split at its stars, matched by
  comparing the first piece at the start, each inner piece at its earliest place after a dot-free
  gap, and the last piece at the end. The theorem states that taking the earliest place never loses
  a match: the matcher accepts exactly the hosts the regular expression of the rule accepts.
\<close>

definition glob_compile :: "string \<Rightarrow> string list option" where
  "glob_compile pat =
     (let parts = split_on CHR ''*'' pat in
      if 3 \<le> length parts \<and> list_ex (\<lambda>p. p = []) (butlast (tl parts)) then None else Some parts)"

function gap_from :: "string \<Rightarrow> string \<Rightarrow> nat \<Rightarrow> nat option" where
  "gap_from h needle start =
     (if start + length needle \<le> length h then
        if h ! (start - 1) = CHR ''.'' then None
        else if eq_ignore_ascii_case (take (length needle) (drop start h)) needle then Some start
        else gap_from h needle (start + 1)
      else None)"
  by pat_completeness auto
termination
  by (relation "measure (\<lambda>(h, needle, start). length h + 1 - start)") auto

declare gap_from.simps [simp del]

definition find_after_dotfree_gap :: "string \<Rightarrow> nat \<Rightarrow> string \<Rightarrow> nat option" where
  "find_after_dotfree_gap h pos needle = gap_from h needle (pos + 1)"

fun glob_inner :: "string \<Rightarrow> nat \<Rightarrow> string list \<Rightarrow> nat option" where
  "glob_inner h pos [] = Some pos"
| "glob_inner h pos (mid # mids) =
     (case find_after_dotfree_gap h pos mid of
        Some start \<Rightarrow> glob_inner h (start + length mid) mids
      | None \<Rightarrow> None)"

definition glob_tail :: "string \<Rightarrow> nat \<Rightarrow> string \<Rightarrow> bool" where
  "glob_tail h pos piece =
     (if length h < length piece then False
      else let tail_start = length h - length piece in
        if tail_start \<le> pos then False
        else if \<not> eq_ignore_ascii_case (drop tail_start h) piece then False
        else CHR ''.'' \<notin> set (take (tail_start - pos) (drop pos h)))"

definition glob_matches :: "string list \<Rightarrow> string \<Rightarrow> bool" where
  "glob_matches pieces h =
     (if length pieces = 1 then eq_ignore_ascii_case h (pieces ! 0)
      else let first = pieces ! 0 in
        if length h < length first \<or> \<not> eq_ignore_ascii_case (take (length first) h) first then False
        else case glob_inner h (length first) (butlast (tl pieces)) of
          None \<Rightarrow> False
        | Some pos \<Rightarrow> glob_tail h pos (last pieces))"

subsection \<open>Places where a piece can stand\<close>

definition matches_at :: "string \<Rightarrow> string \<Rightarrow> nat \<Rightarrow> bool" where
  "matches_at h m s \<longleftrightarrow> s + length m \<le> length h \<and> to_ascii_lowercase (take (length m) (drop s h)) = to_ascii_lowercase m"

definition dotfree_gap :: "string \<Rightarrow> nat \<Rightarrow> nat \<Rightarrow> bool" where
  "dotfree_gap h pos s \<longleftrightarrow> pos < s \<and> (\<forall>k. pos \<le> k \<and> k < s \<longrightarrow> h ! k \<noteq> CHR ''.'')"

lemma matches_at_nth:
  assumes "matches_at h m s" and "k < length m"
  shows "lower_byte (h ! (s + k)) = lower_byte (m ! k)"
proof -
  have "to_ascii_lowercase (take (length m) (drop s h)) ! k = to_ascii_lowercase m ! k"
    using assms(1) by (simp add: matches_at_def)
  moreover have "to_ascii_lowercase m ! k = lower_byte (m ! k)" using assms(2) by (simp add: to_ascii_lowercase_def)
  moreover have "to_ascii_lowercase (take (length m) (drop s h)) ! k = lower_byte (h ! (s + k))"
    using assms unfolding to_ascii_lowercase_def matches_at_def by (subst nth_map) auto
  ultimately show ?thesis by simp
qed

lemma matches_at_dot:
  assumes "matches_at h m s" and "k < length m"
  shows "h ! (s + k) = CHR ''.'' \<longleftrightarrow> m ! k = CHR ''.''"
proof -
  have d: "lower_byte CHR ''.'' = CHR ''.''" by code_simp
  show ?thesis using matches_at_nth [OF assms] by (metis d lower_byte_dot)
qed

text \<open>The search returns the least place, and fails only when there is none.\<close>

lemma gap_from_spec:
  assumes "\<And>k. pos \<le> k \<Longrightarrow> k < start - 1 \<Longrightarrow> h ! k \<noteq> CHR ''.''" and "\<And>s. dotfree_gap h pos s \<Longrightarrow> matches_at h m s \<Longrightarrow> start \<le> s"
    and "pos < start"
  shows "case gap_from h m start of
      None \<Rightarrow> \<not> (\<exists>s. dotfree_gap h pos s \<and> matches_at h m s)
    | Some s \<Rightarrow> dotfree_gap h pos s \<and> matches_at h m s \<and> (\<forall>s'. dotfree_gap h pos s' \<and> matches_at h m s' \<longrightarrow> s \<le> s')"
  using assms
proof (induction h m start rule: gap_from.induct)
  case (1 h m start)
  note before = "1.prems"(1)
  consider (Short) "\<not> start + length m \<le> length h"
    | (Dot) "start + length m \<le> length h" "h ! (start - 1) = CHR ''.''"
    | (Hit) "start + length m \<le> length h" "h ! (start - 1) \<noteq> CHR ''.''"
        "eq_ignore_ascii_case (take (length m) (drop start h)) m"
    | (Next) "start + length m \<le> length h" "h ! (start - 1) \<noteq> CHR ''.''"
        "\<not> eq_ignore_ascii_case (take (length m) (drop start h)) m" by blast
  then show ?case
  proof cases
    case Short
    then have g: "gap_from h m start = None" by (simp add: gap_from.simps)
    have "\<not> (\<exists>s. dotfree_gap h pos s \<and> matches_at h m s)"
      using "1.prems"(2) Short by (force simp: matches_at_def)
    then show ?thesis using g by simp
  next
    case Dot
    then have g: "gap_from h m start = None" by (simp add: gap_from.simps)
    have "\<not> dotfree_gap h pos s" if "start \<le> s" for s
    proof
      assume "dotfree_gap h pos s"
      moreover have "pos \<le> start - 1 \<and> start - 1 < s" using that "1.prems"(3) by linarith
      ultimately show False using Dot(2) by (auto simp: dotfree_gap_def)
    qed
    then show ?thesis using g "1.prems"(2) by auto
  next
    case Hit
    then have g: "gap_from h m start = Some start" by (simp add: gap_from.simps)
    have "dotfree_gap h pos start"
      unfolding dotfree_gap_def
    proof (intro conjI allI impI)
      fix k
      assume "pos \<le> k \<and> k < start"
      then consider "k < start - 1" | "k = start - 1" by linarith
      then show "h ! k \<noteq> CHR ''.''" using before Hit(2) \<open>pos \<le> k \<and> k < start\<close> by cases auto
    qed (use "1.prems"(3) in simp)
    moreover have "matches_at h m start" using Hit by (simp add: matches_at_def eq_ignore_ascii_case_iff)
    ultimately show ?thesis using g "1.prems"(2) by auto
  next
    case Next
    then have g: "gap_from h m start = gap_from h m (start + 1)" by (simp add: gap_from.simps [of h m start])
    have n: "\<not> matches_at h m start" using Next by (simp add: matches_at_def eq_ignore_ascii_case_iff)
    have upto: "h ! k \<noteq> CHR ''.''" if k: "pos \<le> k" "k < start + 1 - 1" for k
    proof -
      consider "k < start - 1" | "k = start - 1" using k by linarith
      then show ?thesis using before k Next(2) by cases auto
    qed
    have later: "start + 1 \<le> s" if "dotfree_gap h pos s" "matches_at h m s" for s
    proof -
      have "start \<le> s" using "1.prems"(2) that .
      moreover have "s \<noteq> start" using n that(2) by auto
      ultimately show ?thesis by simp
    qed
    show ?thesis unfolding g by (rule "1.IH" [OF Next(1,2,3) upto later]) (use "1.prems"(3) in auto)
  qed
qed

lemma find_gap_spec:
  "case find_after_dotfree_gap h pos m of
      None \<Rightarrow> \<not> (\<exists>s. dotfree_gap h pos s \<and> matches_at h m s)
    | Some s \<Rightarrow> dotfree_gap h pos s \<and> matches_at h m s \<and> (\<forall>s'. dotfree_gap h pos s' \<and> matches_at h m s' \<longrightarrow> s \<le> s')"
  unfolding find_after_dotfree_gap_def by (rule gap_from_spec) (auto simp: dotfree_gap_def)

text \<open>
  Moving a piece to an earlier place frees no dot: the bytes between the two ends lie in the old gap
  or in the piece, and a dot of the piece would reappear before its first dot.
\<close>

lemma between_ends_dotfree:
  assumes gap: "dotfree_gap h pos s'" and at: "matches_at h m s" "matches_at h m s'" and less: "pos < s" "s \<le> s'"
    and p: "s + length m \<le> p" "p < s' + length m"
  shows "h ! p \<noteq> CHR ''.''"
proof
  assume dot: "h ! p = CHR ''.''"
  have "\<not> p < s'" using gap less p dot by (auto simp: dotfree_gap_def)
  then obtain j where j: "p = s' + j" "j < length m" using p by (metis add_less_cancel_left le_Suc_ex not_less)
  have "m ! j = CHR ''.''" using matches_at_dot [OF at(2) j(2)] dot j(1) by simp
  define d where "d = (LEAST d. m ! d = CHR ''.'')"
  have d: "m ! d = CHR ''.''" unfolding d_def by (rule LeastI [of "\<lambda>d. m ! d = CHR ''.''"]) fact
  have dj: "d \<le> j" unfolding d_def by (rule Least_le) fact
  have first: "m ! i \<noteq> CHR ''.''" if "i < d" for i using not_less_Least that unfolding d_def by blast
  have dl: "d < length m" using dj j(2) by simp
  have hd: "h ! (s + d) = CHR ''.''" using matches_at_dot [OF at(1) dl] d by simp
  have "\<not> s + d < s'" using gap less hd by (auto simp: dotfree_gap_def)
  moreover have "s < s'" using p j by simp
  ultimately obtain d' where d': "s + d = s' + d'" "d' < d" by (metis add.commute le_Suc_ex nat_add_left_cancel_less not_less)
  then have "m ! d' = CHR ''.''" using matches_at_dot [OF at(2), of d'] hd dl by simp
  then show False using first d'(2) by blast
qed

subsection \<open>Pieces and tokens\<close>

fun piece_tokens :: "string list \<Rightarrow> token list" where
  "piece_tokens [] = []"
| "piece_tokens [p] = glob_tokens p"
| "piece_tokens (p # ps) = glob_tokens p @ Run # piece_tokens ps"

lemma piece_tokens_Cons: "ps \<noteq> [] \<Longrightarrow> piece_tokens (p # ps) = glob_tokens p @ Run # piece_tokens ps"
  by (cases ps) auto

lemma piece_tokens_split: "piece_tokens (split_on CHR ''*'' pat) = glob_tokens pat"
proof (induction pat)
  case Nil
  then show ?case by (simp add: glob_tokens_def)
next
  case (Cons c pat)
  obtain p ps where ps: "split_on CHR ''*'' pat = p # ps" by (cases "split_on CHR ''*'' pat") auto
  show ?case
  proof (cases "c = CHR ''*''")
    case True
    then show ?thesis using Cons ps by (simp add: glob_tokens_def)
  next
    case False
    have "piece_tokens ((c # p) # ps) = Lit c # piece_tokens (p # ps)"
      using False by (cases ps) (simp_all add: glob_tokens_def)
    then show ?thesis using Cons ps False by (simp add: glob_tokens_Cons)
  qed
qed

text \<open>A run and a literal from a position on, by the place of the literal.\<close>

lemma run_lits_at:
  assumes "pos \<le> length h" and "CHR ''*'' \<notin> set m"
  shows "tokens_match (Run # glob_tokens m @ ts) (drop pos h) \<longleftrightarrow>
    (\<exists>s. dotfree_gap h pos s \<and> matches_at h m s \<and> tokens_match ts (drop (s + length m) h))"
proof
  assume "tokens_match (Run # glob_tokens m @ ts) (drop pos h)"
  then obtain g a r where g: "drop pos h = g @ a @ r" "g \<noteq> []" "CHR ''.'' \<notin> set g"
    "to_ascii_lowercase a = to_ascii_lowercase m" "tokens_match ts r"
    unfolding tokens_match_Run tokens_match_lits [OF assms(2)] by blast
  have la: "length a = length m" using g(4) by (metis length_to_ascii_lowercase)
  have h: "h = take pos h @ g @ a @ r" using g(1) by (metis append_take_drop_id)
  let ?s = "pos + length g"
  have lt: "length (take pos h) = pos" using assms(1) by simp
  have nth: "h ! (pos + k) = g ! k" if "k < length g" for k
    using that lt by (subst h) (simp add: nth_append)
  have "dotfree_gap h pos ?s"
    unfolding dotfree_gap_def
  proof (intro conjI allI impI)
    fix k
    assume "pos \<le> k \<and> k < ?s"
    then obtain i where "k = pos + i" "i < length g" by (metis add_less_cancel_left le_Suc_ex)
    then show "h ! k \<noteq> CHR ''.''" using nth g(3) by (metis nth_mem)
  qed (use g(2) in simp)
  note gap = this
  have ds: "drop ?s h = a @ r" using lt by (subst h) simp
  have "length (drop ?s h) = length a + length r" using ds by simp
  moreover have "?s \<le> length h" using assms(1) g(1) by (metis add_le_cancel_left length_append length_drop le_add1 le_add_diff_inverse)
  ultimately have "?s + length m \<le> length h" using la by simp
  then have "matches_at h m ?s" using ds g(4) la by (simp add: matches_at_def)
  have "drop (?s + length m) h = r" using ds la by (metis add.commute append_eq_conv_conj drop_drop)
  then show "\<exists>s. dotfree_gap h pos s \<and> matches_at h m s \<and> tokens_match ts (drop (s + length m) h)"
    using g(5) gap \<open>matches_at h m ?s\<close> by metis
next
  assume "\<exists>s. dotfree_gap h pos s \<and> matches_at h m s \<and> tokens_match ts (drop (s + length m) h)"
  then obtain s where s: "dotfree_gap h pos s" "matches_at h m s" "tokens_match ts (drop (s + length m) h)" by blast
  let ?g = "take (s - pos) (drop pos h)" and ?a = "take (length m) (drop s h)"
  have sl: "pos < s" "s + length m \<le> length h" using s(1,2) by (simp_all add: dotfree_gap_def matches_at_def)
  have "drop pos h = ?g @ drop s h" using sl append_take_drop_id [of "s - pos" "drop pos h"] by simp
  also have "drop s h = ?a @ drop (s + length m) h" by (metis add.commute append_take_drop_id drop_drop)
  finally have split: "drop pos h = ?g @ ?a @ drop (s + length m) h" .
  have "?g \<noteq> []" using sl by simp
  moreover have "CHR ''.'' \<notin> set ?g"
  proof
    assume "CHR ''.'' \<in> set ?g"
    then obtain i where "i < s - pos" "h ! (pos + i) = CHR ''.''" using sl by (auto simp: in_set_conv_nth)
    then show False using s(1) by (auto simp: dotfree_gap_def)
  qed
  moreover have "to_ascii_lowercase ?a = to_ascii_lowercase m" using s(2) by (simp add: matches_at_def)
  ultimately show "tokens_match (Run # glob_tokens m @ ts) (drop pos h)"
    unfolding tokens_match_Run tokens_match_lits [OF assms(2)] using split s(3) by blast
qed

subsection \<open>The earliest place suffices\<close>

lemma inner_step:
  assumes "pos \<le> length h" and "CHR ''*'' \<notin> set m"
  shows "tokens_match (Run # glob_tokens m @ Run # ts) (drop pos h) \<longleftrightarrow>
    (case find_after_dotfree_gap h pos m of
       None \<Rightarrow> False
     | Some s \<Rightarrow> tokens_match (Run # ts) (drop (s + length m) h))"
proof (cases "find_after_dotfree_gap h pos m")
  case None
  then show ?thesis using find_gap_spec [of h pos m] by (auto simp: run_lits_at [OF assms])
next
  case (Some s)
  then have s: "dotfree_gap h pos s" "matches_at h m s" "\<And>s'. dotfree_gap h pos s' \<Longrightarrow> matches_at h m s' \<Longrightarrow> s \<le> s'"
    using find_gap_spec [of h pos m] by auto
  have "tokens_match (Run # ts) (drop (s + length m) h)"
    if h': "dotfree_gap h pos s'" "matches_at h m s'" "tokens_match (Run # ts) (drop (s' + length m) h)" for s'
  proof -
    have le: "s \<le> s'" "s' + length m \<le> length h" using s(3) h' by (auto simp: matches_at_def)
    obtain g r where g: "drop (s' + length m) h = g @ r" "g \<noteq> []" "CHR ''.'' \<notin> set g" "tokens_match ts r"
      using h'(3) unfolding tokens_match_Run by blast
    let ?b = "take (s' - s) (drop (s + length m) h)"
    have "drop (s + length m) h = ?b @ drop (s' - s) (drop (s + length m) h)" by (rule append_take_drop_id [symmetric])
    also have "drop (s' - s) (drop (s + length m) h) = g @ r" using g(1) le(1) by (simp add: add.commute add.left_commute)
    finally have split: "drop (s + length m) h = (?b @ g) @ r" by simp
    have "CHR ''.'' \<notin> set ?b"
    proof
      assume "CHR ''.'' \<in> set ?b"
      then obtain i where i: "i < s' - s" "h ! (s + length m + i) = CHR ''.''"
        using le by (auto simp: in_set_conv_nth)
      moreover have "pos < s" using s(1) by (simp add: dotfree_gap_def)
      ultimately show False
        using between_ends_dotfree [OF h'(1) s(2) h'(2) _ le(1), of "s + length m + i"] by simp
    qed
    then show ?thesis unfolding tokens_match_Run using split g by (metis Un_iff append_is_Nil_conv set_append)
  qed
  then show ?thesis using Some s(1,2) by (auto simp: run_lits_at [OF assms])
qed

lemma dotfree_take:
  assumes "pos < s" and "s \<le> length h"
  shows "dotfree_gap h pos s \<longleftrightarrow> CHR ''.'' \<notin> set (take (s - pos) (drop pos h))"
proof
  assume d: "dotfree_gap h pos s"
  show "CHR ''.'' \<notin> set (take (s - pos) (drop pos h))"
  proof
    assume "CHR ''.'' \<in> set (take (s - pos) (drop pos h))"
    then obtain i where "i < s - pos" "h ! (pos + i) = CHR ''.''" using assms by (auto simp: in_set_conv_nth)
    then show False using d by (auto simp: dotfree_gap_def)
  qed
next
  assume n: "CHR ''.'' \<notin> set (take (s - pos) (drop pos h))"
  have "h ! k \<noteq> CHR ''.''" if "pos \<le> k" "k < s" for k
  proof -
    have "take (s - pos) (drop pos h) ! (k - pos) = h ! k" using that assms by simp
    moreover have "k - pos < length (take (s - pos) (drop pos h))" using that assms by auto
    ultimately show ?thesis using n by (metis nth_mem)
  qed
  then show "dotfree_gap h pos s" using assms by (auto simp: dotfree_gap_def)
qed

lemma tail_step:
  assumes "pos \<le> length h" and "CHR ''*'' \<notin> set m"
  shows "tokens_match (Run # glob_tokens m) (drop pos h) \<longleftrightarrow> glob_tail h pos m"
proof -
  let ?s = "length h - length m"
  have "tokens_match (Run # glob_tokens m) (drop pos h) \<longleftrightarrow>
      (\<exists>s. dotfree_gap h pos s \<and> matches_at h m s \<and> drop (s + length m) h = [])"
    using run_lits_at [OF assms, of "[]"] by simp
  also have "\<dots> \<longleftrightarrow> length m \<le> length h \<and> dotfree_gap h pos ?s \<and> matches_at h m ?s"
  proof -
    have "s = ?s \<and> length m \<le> length h" if "matches_at h m s" "drop (s + length m) h = []" for s
      using that by (auto simp: matches_at_def)
    moreover have "drop (?s + length m) h = []" if "length m \<le> length h" using that by simp
    ultimately show ?thesis by metis
  qed
  also have "\<dots> \<longleftrightarrow> glob_tail h pos m"
  proof (cases "length m \<le> length h \<and> pos < ?s")
    case True
    then have "dotfree_gap h pos ?s \<longleftrightarrow> CHR ''.'' \<notin> set (take (?s - pos) (drop pos h))" by (intro dotfree_take) auto
    moreover have "matches_at h m ?s \<longleftrightarrow> eq_ignore_ascii_case (drop ?s h) m"
      using True by (simp add: matches_at_def eq_ignore_ascii_case_iff)
    ultimately show ?thesis using True by (auto simp: glob_tail_def Let_def)
  next
    case False
    then show ?thesis by (auto simp: glob_tail_def Let_def dotfree_gap_def)
  qed
  finally show ?thesis .
qed

lemma inner_correct:
  assumes "pos \<le> length h" and "\<And>m. m \<in> set mids \<Longrightarrow> CHR ''*'' \<notin> set m" and "CHR ''*'' \<notin> set lst"
  shows "tokens_match (Run # piece_tokens (mids @ [lst])) (drop pos h) \<longleftrightarrow>
    (case glob_inner h pos mids of None \<Rightarrow> False | Some p \<Rightarrow> glob_tail h p lst)"
  using assms(1,2)
proof (induction mids arbitrary: pos)
  case Nil
  then show ?case using tail_step [OF _ assms(3)] by simp
next
  case (Cons m mids)
  have pt: "piece_tokens ((m # mids) @ [lst]) = glob_tokens m @ Run # piece_tokens (mids @ [lst])"
    by (simp add: piece_tokens_Cons)
  have m: "CHR ''*'' \<notin> set m" using Cons.prems(2) by simp
  have bound: "s + length m \<le> length h" if "find_after_dotfree_gap h pos m = Some s" for s
    using find_gap_spec [of h pos m] that by (simp add: matches_at_def)
  show ?case
    unfolding pt inner_step [OF Cons.prems(1) m]
    using Cons.IH Cons.prems(2) bound by (auto split: option.split)
qed

lemma lits_front:
  assumes "CHR ''*'' \<notin> set f"
  shows "tokens_match (glob_tokens f @ ts) h \<longleftrightarrow>
    length f \<le> length h \<and> to_ascii_lowercase (take (length f) h) = to_ascii_lowercase f \<and> tokens_match ts (drop (length f) h)"
    (is "?l \<longleftrightarrow> ?r")
proof
  assume ?l
  then obtain a r where a: "h = a @ r" "to_ascii_lowercase a = to_ascii_lowercase f" "tokens_match ts r"
    unfolding tokens_match_lits [OF assms] by blast
  have "length a = length f" using a(2) by (metis length_to_ascii_lowercase)
  then show ?r using a by auto
next
  assume ?r
  then show ?l unfolding tokens_match_lits [OF assms]
    by (intro exI [of _ "take (length f) h"] exI [of _ "drop (length f) h"]) simp
qed

lemma glob_matches_tokens:
  assumes "glob_compile pat = Some pieces"
  shows "glob_matches pieces h \<longleftrightarrow> tokens_match (glob_tokens pat) h"
proof -
  have p: "pieces = split_on CHR ''*'' pat" using assms by (simp add: glob_compile_def Let_def split: if_splits)
  have nostar: "CHR ''*'' \<notin> set m" if "m \<in> set pieces" for m using that split_on_no_sep unfolding p by blast
  have toks: "glob_tokens pat = piece_tokens pieces" by (simp add: p piece_tokens_split)
  show ?thesis
  proof (cases "length pieces = 1")
    case True
    then obtain m where "pieces = [m]" by (cases pieces) auto
    then show ?thesis using nostar toks
      by (simp add: glob_matches_def tokens_match_exact eq_ignore_ascii_case_iff)
  next
    case False
    have "pieces \<noteq> []" by (simp add: p)
    with False obtain f rest where fr: "pieces = f # rest" "rest \<noteq> []" by (cases pieces) auto
    then obtain mids lst where ml: "rest = mids @ [lst]" by (metis rev_exhaust)
    have f: "CHR ''*'' \<notin> set f" "CHR ''*'' \<notin> set lst" "\<And>m. m \<in> set mids \<Longrightarrow> CHR ''*'' \<notin> set m"
      using nostar fr ml by auto
    have first: "pieces ! 0 = f" "butlast (tl pieces) = mids" "last pieces = lst" using fr ml by auto
    have l: "tokens_match (glob_tokens pat) h \<longleftrightarrow> length f \<le> length h \<and>
        to_ascii_lowercase (take (length f) h) = to_ascii_lowercase f \<and>
        tokens_match (Run # piece_tokens (mids @ [lst])) (drop (length f) h)"
      using lits_front [OF f(1)] piece_tokens_Cons [OF fr(2), of f] unfolding toks fr(1) ml by simp
    show ?thesis
    proof (cases "length f \<le> length h")
      case True
      show ?thesis
        unfolding l glob_matches_def first Let_def
        using False True inner_correct [OF True f(3) f(2)] by (auto simp: eq_ignore_ascii_case_iff)
    next
      case short: False
      then show ?thesis unfolding l glob_matches_def first Let_def using False by simp
    qed
  qed
qed

text \<open>
  C32. The structural matcher agrees with the regular expression: on every ASCII host, an ASCII
  wildcard pattern it accepts matches exactly when the anchored regular expression of the
  DOMAIN-WILDCARD rule does, although each inner piece is only tried at its earliest place.
\<close>

theorem glob_is_wildcard_regex:
  assumes "regex_ok E" and "is_ascii pat" and "is_ascii h" and "glob_compile pat = Some pieces"
  shows "glob_matches pieces h = regex_is_match E (wildcard_regex E pat) h"
  using glob_matches_tokens [OF assms(4)] wildcard_regex_match [OF assms(1-3)] by simp

theorem glob_is_wildcard_regex_witness:
  "glob_matches [''a'', ''b.'', ''''] ''axb.c'' =
     regex_is_match demo_regex_lib (wildcard_regex demo_regex_lib ''a*b.*'') ''axb.c'' \<and>
   glob_matches [''a'', ''b.'', ''''] ''axb.c''"
proof -
  have "is_ascii ''a*b.*''" by code_simp
  moreover have "is_ascii ''axb.c''" by code_simp
  moreover have "glob_compile ''a*b.*'' = Some [''a'', ''b.'', '''']" by code_simp
  moreover have "glob_matches [''a'', ''b.'', ''''] ''axb.c''" by code_simp
  ultimately show ?thesis using glob_is_wildcard_regex [OF demo_regex_ok] by blast
qed

end
