(* ===== verification/Rule_Ops.thy ===== *)
theory Rule_Ops
  imports Rule_Glob "HOL-Library.Product_Lexorder"
begin

section \<open>Lowering rules to native operations\<close>

text \<open>
  The first half of \<^verbatim>\<open>meow-tunnel/src/rule_ir.rs\<close>: the operations a rule is compiled to, the
  compilation from the payload (\<^verbatim>\<open>compile_op\<close>) or from the state of the rule (\<^verbatim>\<open>lower_native\<close>), and the
  evaluation of an operation. The theorem states that a lowered rule matches exactly as the rule
  it was lowered from.
\<close>

subsection \<open>Operations\<close>

datatype port_range = PortSingle "16 word" | PortSpan "16 word" "16 word"

datatype port_matcher = MatchPort "16 word" | MatchSpan "16 word" "16 word" | MatchPorts "port_range list"

record regex_matcher =
  rm_regex :: string
  required_literal :: "string option"

datatype wildcard_matcher = WildGlob "string list" | WildRegex regex_matcher

datatype process_path_op = PathOpGlob string | PathOpPrefix string | PathOpExact string

record in_type_mask =
  mask_http :: bool
  mask_https :: bool
  mask_socks5 :: bool
  mask_tproxy :: bool
  mask_inner :: bool

datatype rule_op =
    OpDomain string
  | OpDomainSuffix string
  | OpDomainKeyword string
  | OpDomainRegex regex_matcher
  | OpDomainWildcard wildcard_matcher
  | OpIpCidr ip_net bool
  | OpSrcPort port_matcher
  | OpDstPort port_matcher
  | OpInPort port_matcher
  | OpDscp "8 word"
  | OpProcessName string
  | OpProcessPath process_path_op
  | OpNetwork network
  | OpUid "32 word"
  | OpInName string
  | OpInType in_type_mask
  | OpInUser string
  | OpMatch
  | OpGeoSite "geosite_db arc" "string list"
  | OpRuleSetRef nat rule_set
  | OpIpRanges "ip_range_set arc" bool
  | OpIpSuffix ip_family bool
  | OpAllOf "rule_op list"
  | OpAnyOf "rule_op list"
  | OpNot rule_op
  | OpTrieOwned
  | OpFallback

subsection \<open>Compiling payloads\<close>

definition required_literal_from_plain_regex :: "string \<Rightarrow> string option" where
  "required_literal_from_plain_regex pat =
     (if pat = [] \<or> list_ex is_regex_meta_byte pat then None else Some (to_ascii_lowercase pat))"

text \<open>\<^verbatim>\<open>max_by_key\<close> keeps the last of several longest pieces.\<close>

fun longest :: "string list \<Rightarrow> string option" where
  "longest [] = None"
| "longest (p # ps) =
     (case longest ps of None \<Rightarrow> Some p | Some q \<Rightarrow> if length p \<le> length q then Some q else Some p)"

definition required_literal_from_wildcard :: "string \<Rightarrow> string option" where
  "required_literal_from_wildcard pat =
     map_option to_ascii_lowercase (longest (filter (\<lambda>part. part \<noteq> []) (split_on CHR ''*'' pat)))"

definition compile_domain_regex :: "ext_lib \<Rightarrow> string \<Rightarrow> regex_matcher option" where
  "compile_domain_regex E pat =
     (if regex_new E pat
      then Some \<lparr>rm_regex = pat, required_literal = required_literal_from_plain_regex pat\<rparr> else None)"

definition compile_domain_wildcard :: "ext_lib \<Rightarrow> string \<Rightarrow> wildcard_matcher option" where
  "compile_domain_wildcard E pat =
     (case glob_compile pat of
        Some pieces \<Rightarrow> Some (WildGlob pieces)
      | None \<Rightarrow>
          let re = anchored (replace_str escaped_star ''[^.]+'' (regex_escape E pat)) in
          if regex_new E re
          then Some (WildRegex \<lparr>rm_regex = re, required_literal = required_literal_from_wildcard pat\<rparr>) else None)"

fun port_spans :: "string list \<Rightarrow> port_ranges \<Rightarrow> port_ranges option" where
  "port_spans [] spans = Some spans"
| "port_spans (part # parts) spans =
     (let part = trim part in
      if part = [] then port_spans parts spans
      else case split_once CHR ''-'' part of
        Some (start, stop) \<Rightarrow>
          Option.bind (parse_u16 (trim start)) (\<lambda>start.
          Option.bind (parse_u16 (trim stop)) (\<lambda>stop.
            if stop < start then None else port_spans parts (spans @ [(start, stop)])))
      | None \<Rightarrow> Option.bind (parse_u16 part) (\<lambda>v. port_spans parts (spans @ [(v, v)])))"

definition merge_span :: "port_ranges \<Rightarrow> 16 word \<times> 16 word \<Rightarrow> port_ranges" where
  "merge_span merged = (\<lambda>(lo, hi).
     if merged \<noteq> [] \<and> (ucast lo :: 32 word) \<le> ucast (snd (last merged)) + 1
     then butlast merged @ [(fst (last merged), max (snd (last merged)) hi)]
     else merged @ [(lo, hi)])"

definition port_range_of :: "16 word \<times> 16 word \<Rightarrow> port_range" where
  "port_range_of = (\<lambda>(lo, hi). if lo = hi then PortSingle lo else PortSpan lo hi)"

definition compile_port_matcher :: "string \<Rightarrow> port_matcher option" where
  "compile_port_matcher pl =
     Option.bind (port_spans (split_by port_separator pl) []) (\<lambda>spans.
       case foldl merge_span [] (sort spans) of
         [] \<Rightarrow> None
       | [(lo, hi)] \<Rightarrow> if lo = hi then Some (MatchPort lo) else Some (MatchSpan lo hi)
       | merged \<Rightarrow> Some (MatchPorts (map port_range_of merged)))"

definition compile_in_port :: "string \<Rightarrow> rule_op option" where
  "compile_in_port pl = map_option OpInPort (compile_port_matcher pl)"

definition compile_network :: "string \<Rightarrow> rule_op option" where
  "compile_network pl =
     (let lower = to_ascii_lowercase pl in
      if lower = ''tcp'' then Some (OpNetwork Tcp) else if lower = ''udp'' then Some (OpNetwork Udp) else None)"

definition no_in_type :: in_type_mask where
  "no_in_type = \<lparr>mask_http = False, mask_https = False, mask_socks5 = False, mask_tproxy = False, mask_inner = False\<rparr>"

definition compile_in_type :: "string \<Rightarrow> in_type_mask option" where
  "compile_in_type pl =
     (let upper = to_ascii_uppercase pl in
      if upper = ''HTTP'' then Some (no_in_type\<lparr>mask_http := True, mask_https := True\<rparr>)
      else if upper = ''HTTPS'' then Some (no_in_type\<lparr>mask_https := True\<rparr>)
      else if upper = ''SOCKS5'' then Some (no_in_type\<lparr>mask_socks5 := True\<rparr>)
      else if upper = ''TPROXY'' then Some (no_in_type\<lparr>mask_tproxy := True\<rparr>)
      else if upper = ''INNER'' then Some (no_in_type\<lparr>mask_inner := True\<rparr>)
      else None)"

definition compile_process_path :: "ext_lib \<Rightarrow> string \<Rightarrow> process_path_op option" where
  "compile_process_path E pl =
     (if CHR ''*'' \<in> set pl then
        (let re = anchored (replace_str escaped_star (''[^/'' @ [char_of (92 :: nat), char_of (92 :: nat)] @ '']*'')
               (regex_escape E pl)) in
         if regex_new E re then Some (PathOpGlob re) else None)
      else if starts_with_slash pl then Some (PathOpPrefix pl)
      else Some (PathOpExact pl))"

definition compile_op :: "ext_lib \<Rightarrow> rule_type \<Rightarrow> string \<Rightarrow> rule_op option" where
  "compile_op E ty pl =
     (case ty of
        RtDomain \<Rightarrow> Some (OpDomain (to_ascii_lowercase pl))
      | RtDomainSuffix \<Rightarrow> Some (OpDomainSuffix (to_ascii_lowercase pl))
      | RtDomainKeyword \<Rightarrow> Some (OpDomainKeyword (to_ascii_lowercase pl))
      | RtDomainRegex \<Rightarrow> map_option OpDomainRegex (compile_domain_regex E pl)
      | RtDomainWildcard \<Rightarrow> map_option OpDomainWildcard (compile_domain_wildcard E pl)
      | RtIpCidr \<Rightarrow> map_option (\<lambda>net. OpIpCidr (net_trunc E net) False) (net_parse E pl)
      | RtSrcIpCidr \<Rightarrow> map_option (\<lambda>net. OpIpCidr (net_trunc E net) True) (net_parse E pl)
      | RtSrcPort \<Rightarrow> map_option OpSrcPort (compile_port_matcher pl)
      | RtDstPort \<Rightarrow> map_option OpDstPort (compile_port_matcher pl)
      | RtInPort \<Rightarrow> compile_in_port pl
      | RtDscp \<Rightarrow> Option.bind (parse_u8 (trim pl)) (\<lambda>v. if v \<le> 63 then Some (OpDscp v) else None)
      | RtProcessName \<Rightarrow> Some (OpProcessName pl)
      | RtProcessPath \<Rightarrow> map_option OpProcessPath (compile_process_path E pl)
      | RtNetwork \<Rightarrow> compile_network pl
      | RtUid \<Rightarrow> map_option OpUid (parse_u32 (trim pl))
      | RtInName \<Rightarrow> Some (OpInName pl)
      | RtInType \<Rightarrow> map_option OpInType (compile_in_type pl)
      | RtInUser \<Rightarrow> Some (OpInUser pl)
      | RtMatch \<Rightarrow> Some OpMatch
      | _ \<Rightarrow> None)"

text \<open>
  Rules that hold state, and the children of logic rules: one child that cannot be lowered keeps
  the whole logic rule on the fallback path.
\<close>

function lower_native :: "ext_lib \<Rightarrow> rule \<Rightarrow> rule_op option"
and lower_rule :: "ext_lib \<Rightarrow> rule \<Rightarrow> rule_op option"
and lower_children :: "ext_lib \<Rightarrow> rule list \<Rightarrow> rule_op list option" where
  "lower_native E r =
     (case r of
        GeoSiteRule category _ _ db \<Rightarrow>
          Option.bind db (\<lambda>db. map_option (OpGeoSite db) (resolve_keys (arc_get db) category))
      | RuleSetRule _ ptr s _ flags \<Rightarrow> if is_src flags then None else Some (OpRuleSetRef ptr s)
      | GeoIpRule _ _ _ ranges \<Rightarrow> Some (OpIpRanges ranges False)
      | SrcGeoIpRule _ _ ranges \<Rightarrow> Some (OpIpRanges ranges True)
      | IpAsnRule _ _ ranges src _ \<Rightarrow> Some (OpIpRanges ranges src)
      | IpSuffixRule _ _ family src _ \<Rightarrow> Some (OpIpSuffix family src)
      | AndRule rules _ _ \<Rightarrow> map_option OpAllOf (lower_children E rules)
      | OrRule rules _ _ \<Rightarrow> map_option OpAnyOf (lower_children E rules)
      | NotRule inner _ _ \<Rightarrow> map_option OpNot (lower_rule E inner)
      | _ \<Rightarrow> None)"
| "lower_rule E r = or_else (compile_op E (type_of_rule r) (payload r)) (lower_native E r)"
| "lower_children E [] = Some []"
| "lower_children E (r # rs) =
     Option.bind (lower_rule E r) (\<lambda>op. map_option ((#) op) (lower_children E rs))"
  by pat_completeness auto
termination
  by (relation "measure (\<lambda>x. case x of Inl (E, r) \<Rightarrow> 2 * size r
      | Inr (Inl (E, r)) \<Rightarrow> 2 * size r + 1 | Inr (Inr (E, rs)) \<Rightarrow> 2 * size_list size rs + 1)") auto

declare lower_native.simps [simp del] lower_rule.simps [simp del]

subsection \<open>Evaluating operations\<close>

definition domain_suffix_matches :: "string \<Rightarrow> string \<Rightarrow> bool" where
  "domain_suffix_matches h sfx =
     (if length h = length sfx then eq_ignore_ascii_case h sfx
      else if length h > length sfx then
        (let dot_pos = length h - length sfx - 1 in
         h ! dot_pos = CHR ''.'' \<and> eq_ignore_ascii_case (drop (dot_pos + 1) h) sfx)
      else False)"

definition domain_keyword_matches :: "string \<Rightarrow> string \<Rightarrow> bool" where
  "domain_keyword_matches h needle =
     (if needle = [] then True
      else if length h < length needle then False
      else list_ex (\<lambda>w. eq_ignore_ascii_case w needle) (windows (length needle) h))"

definition regex_matcher_matches :: "ext_lib \<Rightarrow> regex_matcher \<Rightarrow> string \<Rightarrow> bool" where
  "regex_matcher_matches E m h =
     (case required_literal m of
        Some lit \<Rightarrow> if \<not> domain_keyword_matches h lit then False else regex_is_match E (rm_regex m) h
      | None \<Rightarrow> regex_is_match E (rm_regex m) h)"

fun wildcard_matcher_matches :: "ext_lib \<Rightarrow> wildcard_matcher \<Rightarrow> string \<Rightarrow> bool" where
  "wildcard_matcher_matches E (WildGlob pieces) h = glob_matches pieces h"
| "wildcard_matcher_matches E (WildRegex m) h = regex_matcher_matches E m h"

fun port_range_matches :: "16 word \<Rightarrow> port_range \<Rightarrow> bool" where
  "port_range_matches port (PortSingle v) \<longleftrightarrow> port = v"
| "port_range_matches port (PortSpan lo hi) \<longleftrightarrow> lo \<le> port \<and> port \<le> hi"

fun port_matcher_matches :: "port_matcher \<Rightarrow> 16 word \<Rightarrow> bool" where
  "port_matcher_matches (MatchPort v) port \<longleftrightarrow> port = v"
| "port_matcher_matches (MatchSpan lo hi) port \<longleftrightarrow> lo \<le> port \<and> port \<le> hi"
| "port_matcher_matches (MatchPorts ranges) port \<longleftrightarrow> list_ex (port_range_matches port) ranges"

definition in_type_matches :: "in_type_mask \<Rightarrow> conn_type \<Rightarrow> bool" where
  "in_type_matches m ty =
     (case ty of Http \<Rightarrow> mask_http m | Https \<Rightarrow> mask_https m | Socks5 \<Rightarrow> mask_socks5 m
      | TProxy \<Rightarrow> mask_tproxy m | Inner \<Rightarrow> mask_inner m | _ \<Rightarrow> False)"

definition process_path_matches :: "ext_lib \<Rightarrow> process_path_op \<Rightarrow> string \<Rightarrow> bool" where
  "process_path_matches E op path =
     (if path = [] then False
      else case op of
        PathOpGlob re \<Rightarrow> regex_is_match E re path
      | PathOpPrefix pre \<Rightarrow>
          if path = pre then True
          else (case strip_prefix pre path of Some rest \<Rightarrow> starts_with_slash rest | None \<Rightarrow> False)
      | PathOpExact exact \<Rightarrow> (case file_name path of Some f \<Rightarrow> f | None \<Rightarrow> path) = exact)"

definition uid_matches :: "platform \<Rightarrow> metadata \<Rightarrow> 32 word \<Rightarrow> bool" where
  "uid_matches P md u \<longleftrightarrow> uid_info_available P \<and> uid md = Some u"

text \<open>\<^verbatim>\<open>matches_op\<close> together with the arms it routes through \<^verbatim>\<open>matches_native_op\<close>.\<close>

fun matches_op :: "ext_lib \<Rightarrow> platform \<Rightarrow> metadata \<Rightarrow> rule_op \<Rightarrow> bool" where
  "matches_op E P md (OpDomain d) = eq_ignore_ascii_case (rule_host md) d"
| "matches_op E P md (OpDomainSuffix s) = domain_suffix_matches (rule_host md) s"
| "matches_op E P md (OpDomainKeyword k) = domain_keyword_matches (rule_host md) k"
| "matches_op E P md (OpDomainRegex m) = regex_matcher_matches E m (rule_host md)"
| "matches_op E P md (OpDomainWildcard m) = wildcard_matcher_matches E m (rule_host md)"
| "matches_op E P md (OpIpCidr net src) = is_some_and (net_contains E net) (side_ip src md)"
| "matches_op E P md (OpSrcPort m) = port_matcher_matches m (src_port md)"
| "matches_op E P md (OpDstPort m) = port_matcher_matches m (dst_port md)"
| "matches_op E P md (OpInPort m) = (in_port md \<noteq> 0 \<and> port_matcher_matches m (in_port md))"
| "matches_op E P md (OpDscp v) = (dscp md = Some v)"
| "matches_op E P md (OpProcessName name) = eq_ignore_ascii_case (process md) name"
| "matches_op E P md (OpProcessPath op) = process_path_matches E op (process_path md)"
| "matches_op E P md (OpNetwork net) = (network md = net)"
| "matches_op E P md (OpUid u) = uid_matches P md u"
| "matches_op E P md (OpInName name) = (in_name md \<noteq> [] \<and> in_name md = name)"
| "matches_op E P md (OpInType m) = in_type_matches m (conn_type md)"
| "matches_op E P md (OpInUser user) = (in_user md = Some user)"
| "matches_op E P md OpMatch = True"
| "matches_op E P md (OpGeoSite db keys) =
     (rule_host md \<noteq> [] \<and> list_all (\<lambda>key. lookup_resolved E (arc_get db) key (rule_host md)) keys)"
| "matches_op E P md (OpRuleSetRef ptr s) = set_matches E P md s"
| "matches_op E P md (OpIpRanges ranges src) = is_some_and (ranges_contain ranges) (side_ip src md)"
| "matches_op E P md (OpIpSuffix family src) = is_some_and (ip_suffix_matches family) (side_ip src md)"
| "matches_op E P md (OpAllOf ops) = list_all (matches_op E P md) ops"
| "matches_op E P md (OpAnyOf ops) = list_ex (matches_op E P md) ops"
| "matches_op E P md (OpNot op) = (\<not> matches_op E P md op)"
| "matches_op E P md OpTrieOwned = False"
| "matches_op E P md OpFallback = False"

subsection \<open>Text operations\<close>

lemma suffix_op: "domain_suffix_matches (rule_host md) sfx = suffix_matches sfx md"
  by (simp add: domain_suffix_matches_def suffix_matches_def Let_def)

lemma keyword_op: "domain_keyword_matches (rule_host md) kw = keyword_matches kw md"
  by (simp add: domain_keyword_matches_def keyword_matches_def Let_def)

lemma suffix_matches_lower [simp]: "suffix_matches (to_ascii_lowercase sfx) md = suffix_matches sfx md"
  by (simp add: suffix_matches_text)

lemma keyword_matches_lower [simp]: "keyword_matches (to_ascii_lowercase kw) md = keyword_matches kw md"
  by (simp add: keyword_matches_text)

lemma keyword_op_text: "domain_keyword_matches h kw \<longleftrightarrow> sublist (to_ascii_lowercase kw) (to_ascii_lowercase h)"
proof (cases "kw = []")
  case False
  moreover have "\<not> sublist (to_ascii_lowercase kw) (to_ascii_lowercase h)" if "length h < length kw"
    using that sublist_length_le [of "to_ascii_lowercase kw" "to_ascii_lowercase h"] by auto
  ultimately show ?thesis by (auto simp: domain_keyword_matches_def keyword_windows)
qed (simp add: domain_keyword_matches_def)

lemma sublist_lower: "sublist a b \<Longrightarrow> sublist (to_ascii_lowercase a) (to_ascii_lowercase b)"
  unfolding to_ascii_lowercase_def by (rule map_mono_sublist)

lemma longest_mem: "longest ps = Some q \<Longrightarrow> q \<in> set ps"
  by (induction ps arbitrary: q) (auto split: option.splits if_splits)

lemma tokens_match_piece:
  assumes "tokens_match (piece_tokens ps) h" and "\<And>q. q \<in> set ps \<Longrightarrow> CHR ''*'' \<notin> set q" and "p \<in> set ps"
  shows "sublist (to_ascii_lowercase p) (to_ascii_lowercase h)"
  using assms
proof (induction ps arbitrary: h)
  case (Cons q qs)
  have star: "CHR ''*'' \<notin> set q" using Cons.prems(2) by simp
  obtain a r where a: "h = a @ r" "to_ascii_lowercase a = to_ascii_lowercase q"
    "qs \<noteq> [] \<longrightarrow> (\<exists>g r'. r = g @ r' \<and> tokens_match (piece_tokens qs) r')"
  proof (cases "qs = []")
    case True
    then show ?thesis using that [of h "[]"] Cons.prems(1) tokens_match_exact [OF star] by simp
  next
    case False
    then obtain a r where "h = a @ r" "to_ascii_lowercase a = to_ascii_lowercase q" "tokens_match (Run # piece_tokens qs) r"
      using Cons.prems(1) unfolding piece_tokens_Cons [OF False] tokens_match_lits [OF star] by blast
    then show ?thesis using that unfolding tokens_match_Run by blast
  qed
  show ?case
  proof (cases "p = q")
    case True
    then show ?thesis using a(1,2) by (auto simp: sublist_def)
  next
    case False
    then have "p \<in> set qs" using Cons.prems(3) by simp
    then obtain g r' where "r = g @ r'" "tokens_match (piece_tokens qs) r'" using a(3) by (cases qs) auto
    then have "sublist (to_ascii_lowercase p) (to_ascii_lowercase r')" using Cons.IH Cons.prems(2) \<open>p \<in> set qs\<close> by simp
    moreover have "sublist (to_ascii_lowercase r') (to_ascii_lowercase h)"
      using a(1) \<open>r = g @ r'\<close> sublist_lower [of r' h] by (metis append.assoc append_Nil2 sublist_appendI)
    ultimately show ?thesis by (rule sublist_order.order_trans)
  qed
qed simp

lemma wildcard_literal:
  assumes "required_literal_from_wildcard pat = Some lit" and "tokens_match (glob_tokens pat) h"
  shows "domain_keyword_matches h lit"
proof -
  obtain p where p: "p \<in> set (split_on CHR ''*'' pat)" "lit = to_ascii_lowercase p"
    using assms(1) longest_mem by (fastforce simp: required_literal_from_wildcard_def)
  have "tokens_match (piece_tokens (split_on CHR ''*'' pat)) h" using assms(2) by (simp add: piece_tokens_split)
  then have "sublist (to_ascii_lowercase p) (to_ascii_lowercase h)"
    by (rule tokens_match_piece) (use p(1) split_on_no_sep in blast)+
  then show ?thesis by (simp add: keyword_op_text p(2))
qed

lemma wildcard_op_exact:
  assumes "regex_ok E" and "is_ascii pat" "pat \<noteq> []" and "is_ascii (rule_host md)"
    and "compile_domain_wildcard E pat = Some m"
  shows "wildcard_matcher_matches E m (rule_host md) = wildcard_matches E (wildcard_regex E pat) md"
proof -
  let ?h = "rule_host md"
  note re = wildcard_regex_match [OF assms(1,2,4)]
  have nil: "?h = [] \<Longrightarrow> \<not> tokens_match (glob_tokens pat) ?h"
    using assms(3) by (cases pat) (auto simp: glob_tokens_Cons)
  then have w: "wildcard_matches E (wildcard_regex E pat) md = tokens_match (glob_tokens pat) ?h"
    using re by (auto simp: wildcard_matches_def Let_def)
  show ?thesis
  proof (cases "glob_compile pat")
    case (Some pieces)
    then show ?thesis using assms(5) w glob_matches_tokens by (auto simp: compile_domain_wildcard_def)
  next
    case None
    then have "m = WildRegex \<lparr>rm_regex = wildcard_regex E pat, required_literal = required_literal_from_wildcard pat\<rparr>"
      using assms(5) by (auto simp: compile_domain_wildcard_def wildcard_regex_def Let_def split: if_splits)
    then show ?thesis using w re wildcard_literal by (auto simp: regex_matcher_matches_def split: option.split)
  qed
qed

lemma regex_op_exact:
  assumes "regex_ok E" and "compile_domain_regex E pat = Some m"
  shows "regex_matcher_matches E m h = regex_is_match E pat h"
proof -
  have m: "m = \<lparr>rm_regex = pat, required_literal = required_literal_from_plain_regex pat\<rparr>"
    using assms(2) by (auto simp: compile_domain_regex_def split: if_splits)
  have "domain_keyword_matches h lit"
    if "required_literal_from_plain_regex pat = Some lit" "regex_is_match E pat h" for lit
  proof -
    have "\<not> list_ex is_regex_meta_byte pat" "lit = to_ascii_lowercase pat"
      using that(1) by (auto simp: required_literal_from_plain_regex_def split: if_splits)
    moreover from this(1) have "sublist pat h" using that(2) assms(1) unfolding regex_ok_def by blast
    then have "sublist (to_ascii_lowercase pat) (to_ascii_lowercase h)"
      by (rule sublist_lower)
    ultimately show ?thesis by (simp add: keyword_op_text)
  qed
  then show ?thesis using m by (auto simp: regex_matcher_matches_def split: option.split)
qed

subsection \<open>Ports\<close>

lemma port_spans_parts: "port_spans parts spans = (case port_parts parts spans of Inl _ \<Rightarrow> None | Inr r \<Rightarrow> Some r)"
proof (induction parts arbitrary: spans)
  case (Cons part parts)
  show ?case
    using Cons
    by (simp add: Let_def ok_or_def and_then_def split: option.split sum.split)
qed simp

lemma next_port: "(ucast lo :: 32 word) \<le> ucast hi + 1 \<longleftrightarrow> unat (lo :: 16 word) \<le> unat (hi :: 16 word) + 1"
proof -
  have b: "unat x < 2 ^ 16" for x :: "16 word" using unsigned_less [of x, where 'a = nat] by simp
  have u: "unat (ucast x :: 32 word) = unat x" for x :: "16 word"
    using b [of x] by (simp add: unsigned_ucast_eq take_bit_nat_eq_self)
  have "unat (ucast hi + 1 :: 32 word) = unat hi + 1"
    using b [of hi] by (subst unat_word_ariths) (simp add: u)
  then show ?thesis by (simp add: word_le_nat_alt u)
qed

lemma merge_span_matches:
  assumes "lo \<le> hi" and "merged \<noteq> [] \<Longrightarrow> fst (last merged) \<le> lo" and "\<forall>(l, h) \<in> set merged. l \<le> h"
  shows "matches_port (merge_span merged (lo, hi)) p \<longleftrightarrow> matches_port merged p \<or> lo \<le> p \<and> p \<le> hi"
proof (cases "merged \<noteq> [] \<and> unat lo \<le> unat (snd (last merged)) + 1")
  case True
  obtain ms l h where m: "merged = ms @ [(l, h)]" using True by (metis rev_exhaust surj_pair)
  have "l \<le> lo" "unat lo \<le> unat h + 1" using True assms(2) m by auto
  then have "l \<le> p \<and> p \<le> max h hi \<longleftrightarrow> l \<le> p \<and> p \<le> h \<or> lo \<le> p \<and> p \<le> hi"
    using assms(1) by (auto simp: word_le_nat_alt max_def)
  then show ?thesis using True m by (auto simp: merge_span_def next_port matches_port_def)
next
  case False
  then show ?thesis by (auto simp: merge_span_def next_port matches_port_def)
qed

lemma merge_span_last:
  "merge_span merged (lo, hi) \<noteq> [] \<and>
   (merged \<noteq> [] \<longrightarrow> fst (last merged) \<le> lo) \<longrightarrow> fst (last (merge_span merged (lo, hi))) \<le> lo"
  by (auto simp: merge_span_def)

lemma merge_span_ordered:
  "\<forall>(l, h) \<in> set merged. l \<le> h \<Longrightarrow> lo \<le> hi \<Longrightarrow> \<forall>(l, h) \<in> set (merge_span merged (lo, hi)). l \<le> h"
proof (cases "merged = []")
  case False
  assume o: "\<forall>(l, h) \<in> set merged. l \<le> h" "lo \<le> hi"
  have "fst (last merged) \<le> snd (last merged)" using o(1) last_in_set [OF False] by (auto split: prod.splits)
  then have "fst (last merged) \<le> max (snd (last merged)) hi" by (simp add: le_max_iff_disj)
  then show ?thesis using o by (auto simp: merge_span_def dest: in_set_butlastD)
qed (auto simp: merge_span_def)

lemma merge_spans_match:
  assumes "sorted spans" and "\<forall>(lo, hi) \<in> set spans. lo \<le> hi" and "\<forall>(l, h) \<in> set merged. l \<le> h"
    and "\<forall>(lo, hi) \<in> set spans. merged \<noteq> [] \<longrightarrow> fst (last merged) \<le> lo"
  shows "matches_port (foldl merge_span merged spans) p \<longleftrightarrow> matches_port merged p \<or> matches_port spans p"
  using assms
proof (induction spans arbitrary: merged)
  case Nil
  then show ?case by (simp add: matches_port_def)
next
  case (Cons s spans)
  obtain lo hi where s: "s = (lo, hi)" by (cases s)
  have b: "lo \<le> hi" "merged \<noteq> [] \<Longrightarrow> fst (last merged) \<le> lo" using Cons.prems s by auto
  have later: "lo \<le> lo'" if "(lo', hi') \<in> set spans" for lo' hi'
    using Cons.prems(1) that s by (force simp: less_eq_prod_def)
  have first: "fst (last (merge_span merged (lo, hi))) \<le> lo" using b merge_span_last by (auto simp: merge_span_def)
  have "matches_port (foldl merge_span (merge_span merged (lo, hi)) spans) p \<longleftrightarrow>
      matches_port (merge_span merged (lo, hi)) p \<or> matches_port spans p"
  proof (rule Cons.IH)
    show "\<forall>(lo', hi') \<in> set spans. merge_span merged (lo, hi) \<noteq> [] \<longrightarrow> fst (last (merge_span merged (lo, hi))) \<le> lo'"
      using later first order_trans by blast
  qed (use Cons.prems s b merge_span_ordered in auto)
  then show ?case using merge_span_matches [OF b(1) b(2)] Cons.prems(3) s by (auto simp: matches_port_def)
qed

lemma port_range_of_matches: "port_range_matches p (port_range_of s) \<longleftrightarrow> fst s \<le> p \<and> p \<le> snd s"
  by (cases s) (auto simp: port_range_of_def)

lemma port_op_exact:
  assumes "port_parts (split_by port_separator pl) [] = Inr ranges" and "compile_port_matcher pl = Some m"
  shows "port_matcher_matches m p = matches_port ranges p"
proof -
  let ?merged = "foldl merge_span [] (sort ranges)"
  have o: "\<forall>(lo, hi) \<in> set ranges. lo \<le> hi" using port_parts_prefix [OF assms(1)] by auto
  have eq: "matches_port ?merged p = matches_port ranges p"
    by (subst merge_spans_match) (use o in \<open>auto simp: matches_port_def list_ex_iff\<close>)
  have "port_matcher_matches m p = matches_port ?merged p"
  proof (cases "2 \<le> length ?merged")
    case True
    then have "m = MatchPorts (map port_range_of ?merged)"
      using assms by (auto simp: compile_port_matcher_def port_spans_parts split: list.splits if_splits)
    then show ?thesis
      by (simp add: matches_port_def list_ex_iff port_range_of_matches split_beta)
  next
    case False
    then have "?merged = [] \<or> (\<exists>s. ?merged = [s])" by (cases ?merged) (auto simp: not_le Suc_le_eq)
    then show ?thesis
      using assms by (auto simp: compile_port_matcher_def port_spans_parts matches_port_def split: if_splits)
  qed
  then show ?thesis using eq by simp
qed

subsection \<open>A lowered rule matches as the rule\<close>

text \<open>Wildcard payloads within the ASCII range and not empty, also in the legs of logic rules.\<close>

fun plain_wildcards :: "rule \<Rightarrow> bool" where
  "plain_wildcards (DomainWildcardRule _ raw _) \<longleftrightarrow> is_ascii raw \<and> raw \<noteq> []"
| "plain_wildcards (AndRule rules _ _) \<longleftrightarrow> list_all plain_wildcards rules"
| "plain_wildcards (OrRule rules _ _) \<longleftrightarrow> list_all plain_wildcards rules"
| "plain_wildcards (NotRule r _ _) \<longleftrightarrow> plain_wildcards r"
| "plain_wildcards _ \<longleftrightarrow> True"

lemma ascii_lower_tag: "to_ascii_lowercase s = t \<Longrightarrow> is_ascii t \<Longrightarrow> is_ascii s"
  by (auto simp: to_ascii_lowercase_def is_ascii_def list_all_iff is_ascii_byte_def lower_byte_def is_ascii_uppercase_def)

lemma ascii_upper_tag: "to_ascii_uppercase s = t \<Longrightarrow> is_ascii t \<Longrightarrow> is_ascii s"
  by (auto simp: to_ascii_uppercase_def is_ascii_def list_all_iff is_ascii_byte_def upper_byte_def is_ascii_lowercase_def)

lemma in_type_op_exact:
  assumes "case_ok E" and "in_type_new E raw a = Inr (InTypeRule raw a b1 b2 b3 b4 b5)" and "compile_in_type raw = Some m"
  shows "in_type_matches m (conn_type md) = in_type_rule_matches b1 b2 b3 b4 b5 md"
proof -
  have t: "to_ascii_uppercase raw \<in> {''HTTP'', ''HTTPS'', ''SOCKS5'', ''TPROXY'', ''INNER''}"
    using assms(3) by (auto simp: compile_in_type_def Let_def split: if_splits)
  have "is_ascii raw"
    by (rule ascii_upper_tag [OF refl]) (use t in \<open>elim insertE; simp add: is_ascii_def is_ascii_byte_def byte_val_def\<close>)
  then have u: "to_uppercase E raw = to_ascii_uppercase raw" using assms(1) by (simp add: case_ok_def)
  show ?thesis
    using assms(2,3) t
    by (auto simp: in_type_new_def compile_in_type_def no_in_type_def u Let_def in_type_matches_def
        in_type_rule_matches_def split: conn_type.split)
qed

lemma network_op_exact:
  assumes "case_ok E" and "network_new E raw a = Inr (NetworkRule net raw a)" and "compile_network raw = Some op"
  shows "op = OpNetwork net"
proof -
  have t: "to_ascii_lowercase raw \<in> {''tcp'', ''udp''}"
    using assms(3) by (auto simp: compile_network_def Let_def split: if_splits)
  have "is_ascii raw"
    by (rule ascii_lower_tag [OF refl]) (use t in \<open>elim insertE; simp add: is_ascii_def is_ascii_byte_def byte_val_def\<close>)
  then have u: "to_lowercase E raw = to_ascii_lowercase raw" using assms(1) by (simp add: case_ok_def)
  show ?thesis using assms(2,3) t by (auto simp: network_new_def compile_network_def u Let_def)
qed

lemma path_op_exact:
  assumes "process_path_new E pl a = Inr (ProcessPathRule pl mode a)" and "compile_process_path E pl = Some op"
  shows "process_path_matches E op path = process_path_rule_matches E pl mode path"
  using assms
  by (auto simp: process_path_new_def compile_process_path_def path_glob_regex_def Let_def and_then_Inr
      process_path_matches_def process_path_rule_matches_def split: if_splits)

text \<open>The laws of the libraries, and what the connection has to satisfy, in one predicate each.\<close>

definition lib_ok :: "ext_lib \<Rightarrow> bool" where
  "lib_ok E \<longleftrightarrow> ipnet_ok E \<and> case_ok E \<and> regex_ok E \<and> net_print_ok E"

lemma compile_op_exact:
  assumes "lib_ok E" and "wf_rule E r" and "plain_wildcards r" and "is_ascii (rule_host md)"
    and "compile_op E (type_of_rule r) (payload r) = Some op"
  shows "matches_op E P md op = match_metadata E P md r"
proof (cases r)
  case (DomainRule d a)
  then show ?thesis using assms(5) by (auto simp: compile_op_def domain_matches_def eq_ignore_ascii_case_iff)
next
  case (DomainSuffixRule d a)
  then show ?thesis using assms(5) by (auto simp: compile_op_def suffix_op)
next
  case (DomainKeywordRule d a)
  then show ?thesis using assms(5) by (auto simp: compile_op_def keyword_op)
next
  case (DomainRegexRule d a)
  then show ?thesis using assms(1,5) regex_op_exact by (auto simp: compile_op_def lib_ok_def regex_matches_def)
next
  case (DomainWildcardRule re raw a)
  then show ?thesis using assms wildcard_op_exact by (auto simp: compile_op_def lib_ok_def)
next
  case (IpCidrRule net s a src nr)
  then show ?thesis using assms(1,2,5)
    by (auto simp: compile_op_def lib_ok_def cidr_matches_def net_contains_trunc is_some_and_def split: option.split if_splits)
next
  case (PortRule ranges raw a src)
  then have "port_parts (split_by port_separator raw) [] = Inr ranges"
    using assms(2) by (auto simp: port_new_def and_then_Inr split: if_splits)
  then show ?thesis using assms(5) PortRule port_op_exact by (auto simp: compile_op_def split: if_splits)
next
  case (InPortRule ranges raw a)
  then have "port_parts (split_by port_separator raw) [] = Inr ranges"
    using assms(2) by (auto simp: in_port_new_def in_port_parts_eq and_then_Inr split: if_splits)
  then show ?thesis using assms(5) InPortRule port_op_exact
    by (auto simp: compile_op_def compile_in_port_def in_port_matches_def)
next
  case (DscpRule v raw a)
  then show ?thesis using assms(2,5)
    by (auto simp: compile_op_def dscp_new_def and_then_Inr ok_or_Inr bind_eq_Some_conv split: if_splits)
next
  case (InTypeRule raw a b1 b2 b3 b4 b5)
  then show ?thesis using assms(1,2,5) in_type_op_exact by (auto simp: compile_op_def lib_ok_def)
next
  case (InNameRule raw a)
  then show ?thesis using assms(5) by (auto simp: compile_op_def in_name_matches_def)
next
  case (UidRule v raw a)
  then show ?thesis using assms(2,5)
    by (auto simp: compile_op_def uid_new_def and_then_Inr ok_or_Inr uid_matches_def uid_rule_matches_def)
next
  case (ProcessRule raw a)
  then show ?thesis using assms(5) by (auto simp: compile_op_def process_matches_def)
next
  case (ProcessPathRule raw mode a)
  then show ?thesis using assms(2,5) path_op_exact by (auto simp: compile_op_def)
next
  case (NetworkRule net raw a)
  then have "op = OpNetwork net" using assms(1,2,5) network_op_exact [of E raw a net op] by (simp add: compile_op_def lib_ok_def)
  then show ?thesis using NetworkRule by simp
qed (use assms(5) in \<open>auto simp: compile_op_def split: if_splits\<close>)

lemma lower_children_all2: "lower_children E rs = Some ops \<longleftrightarrow> list_all2 (\<lambda>r op. lower_rule E r = Some op) rs ops"
  by (induction rs arbitrary: ops) (auto simp: bind_eq_Some_conv list_all2_Cons1)

lemma lower_exact:
  assumes "lib_ok E" and "is_ascii (rule_host md)"
  shows "wf_rule E r \<Longrightarrow> plain_wildcards r \<Longrightarrow> lower_rule E r = Some op \<Longrightarrow>
    matches_op E P md op = match_metadata E P md r"
proof (induction r arbitrary: op rule: measure_induct_rule [where f = size])
  case (less r)
  show ?case
  proof (cases "compile_op E (type_of_rule r) (payload r)")
    case (Some op')
    then have "op' = op" using less.prems(3) by (simp add: lower_rule.simps or_else_def)
    then show ?thesis using compile_op_exact [OF assms(1) less.prems(1,2) assms(2)] Some by blast
  next
    case None
    then have low: "lower_native E r = Some op" using less.prems(3) by (simp add: lower_rule.simps or_else_def)
    have legs: "list_all2 (\<lambda>op r. matches_op E P md op = match_metadata E P md r) ops rs"
      if "lower_children E rs = Some ops" "size_list size rs < size r" "list_all (wf_rule E) rs" "list_all plain_wildcards rs" for rs ops
    proof -
      have "size x < size r" if "x \<in> set rs" for x
        using size_list_estimation' [of x rs "size x" size] that \<open>size_list size rs < size r\<close> by simp
      then show ?thesis
        using that less.IH unfolding lower_children_all2 list_all2_conv_all_nth list_all_length by (metis nth_mem)
    qed
    show ?thesis
    proof (cases r)
      case (AndRule rs a pl)
      then obtain ops where "op = OpAllOf ops" "lower_children E rs = Some ops" using low by (auto simp: lower_native.simps)
      then show ?thesis using legs [of rs ops] less.prems(1,2) AndRule
        by (simp add: list_all_length list_all2_conv_all_nth)
    next
      case (OrRule rs a pl)
      then obtain ops where "op = OpAnyOf ops" "lower_children E rs = Some ops" using low by (auto simp: lower_native.simps)
      then show ?thesis using legs [of rs ops] less.prems(1,2) OrRule
        by (auto simp: list_ex_length list_all2_conv_all_nth)
    next
      case (NotRule x a pl)
      then obtain o' where "op = OpNot o'" "lower_rule E x = Some o'" using low by (auto simp: lower_native.simps)
      then show ?thesis using less.IH [of x o'] less.prems(1,2) NotRule by simp
    next
      case (GeoSiteRule category pl a db)
      then obtain d keys where d: "db = Some d" "resolve_keys (arc_get d) category = Some keys" "op = OpGeoSite d keys"
        using low by (auto simp: lower_native.simps bind_eq_Some_conv)
      have "split_category_attrs [] = ([], [])" by code_simp
      then have "category \<noteq> []" using d(2) by (auto simp: resolve_keys_def)
      then show ?thesis
        using d GeoSiteRule resolve_keys_Some [OF d(2)] by (auto simp: geosite_matches_def Let_def)
    qed (use low in \<open>auto simp: lower_native.simps is_some_and_def side_ip_def split: if_splits option.split\<close>)
  qed
qed

lemma demo_regex_lib_good: "lib_ok demo_regex_lib"
  by (simp add: lib_ok_def demo_regex_lib_ok demo_regex_ok)

text \<open>
  C11. Lowering preserves the predicate: for every well-formed rule (its wildcard payloads ASCII and
  not empty, also inside logic rules) and every connection with an ASCII host, a rule that is
  lowered to a native operation is matched by the operation exactly when the rule itself matches.
\<close>

theorem lower_rule_exact:
  assumes "lib_ok E" and "wf_rule E r" and "plain_wildcards r" and "is_ascii (rule_host md)"
    and "lower_rule E r = Some op"
  shows "matches_op E P md op = match_metadata E P md r"
  using assms lower_exact by blast

theorem lower_rule_exact_witness:
  "lower_rule demo_regex_lib (AndRule [DomainSuffixRule ''example.com'' ''P'', PortRule [(443, 443), (80, 80)] ''443,80'' ''P'' False]
       ''P'' ''example.com AND 443,80'') =
     Some (OpAllOf [OpDomainSuffix ''example.com'', OpDstPort (MatchPorts [PortSingle 80, PortSingle 443])]) \<and>
   matches_op demo_regex_lib demo_platform (default_metadata\<lparr>host := ''www.example.com'', dst_port := 443\<rparr>)
     (OpAllOf [OpDomainSuffix ''example.com'', OpDstPort (MatchPorts [PortSingle 80, PortSingle 443])])"
proof -
  let ?r = "AndRule [DomainSuffixRule ''example.com'' ''P'', PortRule [(443, 443), (80, 80)] ''443,80'' ''P'' False]
       ''P'' ''example.com AND 443,80''"
  let ?op = "OpAllOf [OpDomainSuffix ''example.com'', OpDstPort (MatchPorts [PortSingle 80, PortSingle 443])]"
  let ?md = "default_metadata\<lparr>host := ''www.example.com'', dst_port := 443\<rparr>"
  have l: "lower_rule demo_regex_lib ?r = Some ?op" by code_simp
  have "wf_rule demo_regex_lib ?r" by code_simp
  moreover have "plain_wildcards ?r" by code_simp
  moreover have "is_ascii (rule_host ?md)" by code_simp
  ultimately have "matches_op demo_regex_lib demo_platform ?md ?op = match_metadata demo_regex_lib demo_platform ?md ?r"
    by (rule lower_rule_exact [OF demo_regex_lib_good _ _ _ l])
  moreover have "match_metadata demo_regex_lib demo_platform ?md ?r" by code_simp
  ultimately show ?thesis using l by simp
qed

end
