(* ===== verification/Rule_Fold.thy ===== *)
theory Rule_Fold
  imports Rule_Ops
begin

section \<open>Constant folding of operations\<close>

text \<open>
  \<^verbatim>\<open>op_never_matches\<close> and \<^verbatim>\<open>fold_op\<close> of \<^verbatim>\<open>meow-tunnel/src/rule_ir.rs\<close>: legs of logic operations that
  can never match on the platform, or always match, disappear. Folding never changes what an
  operation matches.
\<close>

fun op_never_matches :: "platform \<Rightarrow> rule_op \<Rightarrow> bool" where
  "op_never_matches P (OpUid _) \<longleftrightarrow> \<not> uid_info_available P"
| "op_never_matches P (OpIpRanges ranges _) \<longleftrightarrow> set_is_empty (arc_get ranges)"
| "op_never_matches P (OpProcessPath _) \<longleftrightarrow> \<not> process_info_available P"
| "op_never_matches P (OpProcessName pl) \<longleftrightarrow> \<not> process_info_available P \<and> pl \<noteq> []"
| "op_never_matches P _ \<longleftrightarrow> False"

datatype folded = FoldNever | FoldAlways | FoldOp rule_op

function fold_op :: "platform \<Rightarrow> rule_op \<Rightarrow> folded"
and fold_all :: "platform \<Rightarrow> rule_op list \<Rightarrow> rule_op list \<Rightarrow> rule_op list option"
and fold_any :: "platform \<Rightarrow> rule_op list \<Rightarrow> rule_op list \<Rightarrow> rule_op list option" where
  "fold_op P op =
     (if op_never_matches P op then FoldNever
      else case op of
        OpMatch \<Rightarrow> FoldAlways
      | OpAllOf cs \<Rightarrow>
          (case fold_all P cs [] of
             None \<Rightarrow> FoldNever
           | Some [] \<Rightarrow> FoldAlways
           | Some [c] \<Rightarrow> FoldOp c
           | Some kept \<Rightarrow> FoldOp (OpAllOf kept))
      | OpAnyOf cs \<Rightarrow>
          (case fold_any P cs [] of
             None \<Rightarrow> FoldAlways
           | Some [] \<Rightarrow> FoldNever
           | Some [c] \<Rightarrow> FoldOp c
           | Some kept \<Rightarrow> FoldOp (OpAnyOf kept))
      | OpNot c \<Rightarrow>
          (case fold_op P c of
             FoldNever \<Rightarrow> FoldAlways
           | FoldAlways \<Rightarrow> FoldNever
           | FoldOp c' \<Rightarrow> FoldOp (OpNot c'))
      | other \<Rightarrow> FoldOp other)"
| "fold_all P [] kept = Some kept"
| "fold_all P (c # cs) kept =
     (case fold_op P c of
        FoldNever \<Rightarrow> None
      | FoldAlways \<Rightarrow> fold_all P cs kept
      | FoldOp c' \<Rightarrow> fold_all P cs (kept @ [c']))"
| "fold_any P [] kept = Some kept"
| "fold_any P (c # cs) kept =
     (case fold_op P c of
        FoldAlways \<Rightarrow> None
      | FoldNever \<Rightarrow> fold_any P cs kept
      | FoldOp c' \<Rightarrow> fold_any P cs (kept @ [c']))"
  by pat_completeness auto
termination
  by (relation "measure (\<lambda>x. case x of Inl (P, op) \<Rightarrow> size op
      | Inr (Inl (P, cs, kept)) \<Rightarrow> size_list size cs | Inr (Inr (P, cs, kept)) \<Rightarrow> size_list size cs)") auto

declare fold_op.simps [simp del]

text \<open>What a folding result says about a connection.\<close>

definition folded_matches :: "ext_lib \<Rightarrow> platform \<Rightarrow> metadata \<Rightarrow> folded \<Rightarrow> bool" where
  "folded_matches E P md f = (case f of FoldNever \<Rightarrow> False | FoldAlways \<Rightarrow> True | FoldOp op \<Rightarrow> matches_op E P md op)"

lemma op_never_matches_sound:
  assumes "metadata_on P md" and "op_never_matches P op"
  shows "\<not> matches_op E P md op"
  using assms
  by (cases op)
    (auto simp: uid_matches_def is_some_and_iff ranges_contain_def empty_set_contains metadata_on_def
      process_path_matches_def eq_ignore_ascii_case_def)

lemma fold_matches:
  assumes "metadata_on P md"
  shows "folded_matches E P md (fold_op P op) = matches_op E P md op"
    and "(case fold_all P cs kept of None \<Rightarrow> False | Some ks \<Rightarrow> list_all (matches_op E P md) ks) \<longleftrightarrow>
      list_all (matches_op E P md) kept \<and> list_all (matches_op E P md) cs"
    and "(case fold_any P cs kept of None \<Rightarrow> True | Some ks \<Rightarrow> list_ex (matches_op E P md) ks) \<longleftrightarrow>
      list_ex (matches_op E P md) kept \<or> list_ex (matches_op E P md) cs"
  using assms
proof (induction P op and P cs kept and P cs kept rule: fold_op_fold_all_fold_any.induct)
  case (1 P op)
  show ?case
  proof (cases "op_never_matches P op")
    case True
    then show ?thesis using op_never_matches_sound [OF "1.prems"] by (simp add: fold_op.simps folded_matches_def)
  next
    case False
    note IH = "1.IH" [OF False]
    show ?thesis
    proof (cases op)
      case (OpAllOf cs)
      then show ?thesis using IH(1) [OF OpAllOf "1.prems"] False
        by (cases "fold_all P cs []" rule: option.exhaust; subst fold_op.simps)
          (auto simp: folded_matches_def split: list.splits)
    next
      case (OpAnyOf cs)
      then show ?thesis using IH(2) [OF OpAnyOf "1.prems"] False
        by (cases "fold_any P cs []" rule: option.exhaust; subst fold_op.simps)
          (auto simp: folded_matches_def split: list.splits)
    next
      case (OpNot c)
      then show ?thesis using IH(3) [OF OpNot "1.prems"] False
        by (subst fold_op.simps) (auto simp: folded_matches_def split: folded.splits)
    qed (use False in \<open>auto simp: fold_op.simps folded_matches_def\<close>)
  qed
next
  case (3 P c cs kept)
  then show ?case by (cases "fold_op P c") (auto simp: folded_matches_def)
next
  case (5 P c cs kept)
  then show ?case by (cases "fold_op P c") (auto simp: folded_matches_def)
qed simp_all

text \<open>
  C12. Constant folding is sound: an operation that folds to nothing matches no connection of the
  platform, one that folds to always matches every connection, and otherwise the folded operation
  matches exactly the connections the original one matches.
\<close>

theorem fold_op_exact:
  assumes "metadata_on P md"
  shows "(fold_op P op = FoldNever \<longrightarrow> \<not> matches_op E P md op) \<and>
    (fold_op P op = FoldAlways \<longrightarrow> matches_op E P md op) \<and>
    (\<forall>op'. fold_op P op = FoldOp op' \<longrightarrow> matches_op E P md op' = matches_op E P md op)"
  using fold_matches(1) [OF assms, of E op] by (auto simp: folded_matches_def)

definition no_uid_platform :: platform where
  "no_uid_platform = \<lparr>PROCESS_LOOKUP_SUPPORTED = True, target_linux = False, INBOUND_PROCESS_INFO = False\<rparr>"

theorem fold_op_exact_witness:
  "fold_op no_uid_platform (OpAnyOf [OpUid 0, OpDomain ''a.com'']) = FoldOp (OpDomain ''a.com'') \<and>
   matches_op demo_regex_lib no_uid_platform (default_metadata\<lparr>host := ''a.com''\<rparr>) (OpDomain ''a.com'') =
     matches_op demo_regex_lib no_uid_platform (default_metadata\<lparr>host := ''a.com''\<rparr>) (OpAnyOf [OpUid 0, OpDomain ''a.com''])"
proof -
  have f: "fold_op no_uid_platform (OpAnyOf [OpUid 0, OpDomain ''a.com'']) = FoldOp (OpDomain ''a.com'')" by code_simp
  have "metadata_on no_uid_platform (default_metadata\<lparr>host := ''a.com''\<rparr>)" by code_simp
  then show ?thesis using fold_op_exact [of no_uid_platform _ _ demo_regex_lib] f by blast
qed

end
