(* ===== verification/Cidr_Coverage.thy ===== *)
theory Cidr_Coverage
  imports Ip_Set
begin

section \<open>Coverage of address networks\<close>

text \<open>
  \<^verbatim>\<open>CidrCoverage\<close> of \<^verbatim>\<open>meow-tunnel/src/rule_ir.rs\<close>: the union of the networks of earlier rules, kept as
  sorted, disjoint, coalesced intervals per address family and updated in place by two binary
  searches. The interval routines are generic in the address type and its successor function; the
  locale of \<open>Ip_Set\<close> is extended by the law that a successor is greater.
\<close>

definition interval_covers :: "(('a :: linorder) \<times> 'a) list \<Rightarrow> 'a \<Rightarrow> 'a \<Rightarrow> bool panics" where
  "interval_covers ivs start stop =
     (let idx = partition_point (\<lambda>(s, _). s \<le> start) ivs in
      if idx > 0 then map_option (\<lambda>iv. stop \<le> snd iv) (index ivs (idx - 1)) else Some False)"

definition interval_insert ::
  "(('a :: linorder) \<Rightarrow> 'a option) \<Rightarrow> ('a \<times> 'a) list \<Rightarrow> 'a \<Rightarrow> 'a \<Rightarrow> ('a \<times> 'a) list panics" where
  "interval_insert nxt ivs start stop =
     (let first = partition_point (\<lambda>(_, e). case nxt e of Some n \<Rightarrow> n < start | None \<Rightarrow> False) ivs;
          last = first + partition_point (\<lambda>(s, _). case nxt stop of Some n \<Rightarrow> s \<le> n | None \<Rightarrow> True) (drop first ivs) in
      if first = last then Some (take first ivs @ (start, stop) # drop first ivs)
      else Option.bind (index ivs first) (\<lambda>f. Option.bind (index ivs (last - 1)) (\<lambda>l.
        store (take (first + 1) ivs @ drop last ivs) first (min start (fst f), max stop (snd l)))))"

record cidr_coverage =
  cov_v4 :: "(32 word \<times> 32 word) list"
  cov_v6 :: "(128 word \<times> 128 word) list"

definition coverage_new :: cidr_coverage where
  "coverage_new = \<lparr>cov_v4 = [], cov_v6 = []\<rparr>"

definition coverage_covers :: "ext_lib \<Rightarrow> cidr_coverage \<Rightarrow> ip_net \<Rightarrow> bool panics" where
  "coverage_covers E c net =
     (case net of
        NetV4 n \<Rightarrow> interval_covers (cov_v4 c) (network4 E n) (broadcast4 E n)
      | NetV6 n \<Rightarrow> interval_covers (cov_v6 c) (network6 E n) (broadcast6 E n))"

definition coverage_absorb :: "ext_lib \<Rightarrow> cidr_coverage \<Rightarrow> ip_net \<Rightarrow> cidr_coverage panics" where
  "coverage_absorb E c net =
     (case net of
        NetV4 n \<Rightarrow> map_option (\<lambda>ivs. c\<lparr>cov_v4 := ivs\<rparr>)
          (interval_insert checked_succ (cov_v4 c) (network4 E n) (broadcast4 E n))
      | NetV6 n \<Rightarrow> map_option (\<lambda>ivs. c\<lparr>cov_v6 := ivs\<rparr>)
          (interval_insert checked_succ (cov_v6 c) (network6 E n) (broadcast6 E n)))"

subsection \<open>Coalesced interval lists\<close>

lemma coalesced_append:
  "coalesced nxt (xs @ ys) \<longleftrightarrow> coalesced nxt xs \<and> coalesced nxt ys \<and>
     (xs \<noteq> [] \<and> ys \<noteq> [] \<longrightarrow> snd (last xs) < fst (hd ys) \<and> nxt (snd (last xs)) \<noteq> Some (fst (hd ys)))"
proof (induction nxt xs rule: coalesced.induct)
  case (2 nxt a b)
  then show ?case by (cases ys) auto
qed auto

lemma coalesced_mem: "coalesced nxt rs \<Longrightarrow> r \<in> set rs \<Longrightarrow> fst r \<le> snd r"
  by (metis coalesced_appendD coalesced_hd in_set_conv_decomp prod.collapse)

lemma coalesced_nth:
  assumes "coalesced nxt rs" and "i < j" and "j < length rs"
  shows "fst (rs ! i) \<le> snd (rs ! i)" "snd (rs ! i) < fst (rs ! j)" "fst (rs ! j) \<le> snd (rs ! j)"
  using sorted_wrt_nth_less [OF coalesced_sorted [OF assms(1)] assms(2,3)] coalesced_mem [OF assms(1)] assms by auto

lemma coalesced_bounds:
  assumes "coalesced nxt ms" and "ms \<noteq> []" and "r \<in> set ms"
  shows "fst (hd ms) \<le> fst r" and "snd r \<le> snd (last ms)"
proof -
  obtain i where i: "i < length ms" "r = ms ! i" using assms(3) by (metis in_set_conv_nth)
  have "fst (ms ! 0) \<le> fst (ms ! i)" using coalesced_nth [OF assms(1), of 0 i] i(1) by (cases "i = 0") auto
  then show "fst (hd ms) \<le> fst r" using i assms(2) by (simp add: hd_conv_nth)
  have "snd (ms ! i) \<le> snd (ms ! (length ms - 1))"
  proof (cases "i = length ms - 1")
    case False
    then have "i < length ms - 1" "length ms - 1 < length ms" using i(1) by simp_all
    then show ?thesis using coalesced_nth [OF assms(1), of i "length ms - 1"] by (metis less_imp_le order_trans)
  qed simp
  then show "snd r \<le> snd (last ms)" using i assms(2) by (simp add: last_conv_nth)
qed

locale strict_succ_order = succ_order +
  assumes nxt_greater: "nxt x = Some z \<Longrightarrow> x < z"
begin

lemma merged_set:
  assumes "coalesced nxt ms" and "ms \<noteq> []" and "start \<le> stop"
    and "\<not> (case nxt (snd (hd ms)) of Some n \<Rightarrow> n < start | None \<Rightarrow> False)"
    and "case nxt stop of Some n \<Rightarrow> fst (last ms) \<le> n | None \<Rightarrow> True"
  shows "{min start (fst (hd ms))..max stop (snd (last ms))} = ranges_set ms \<union> {start..stop}"
proof
  show "ranges_set ms \<union> {start..stop} \<subseteq> {min start (fst (hd ms))..max stop (snd (last ms))}"
    using coalesced_bounds [OF assms(1,2)] by (fastforce simp: ranges_set_def min_le_iff_disj le_max_iff_disj)
  show "{min start (fst (hd ms))..max stop (snd (last ms))} \<subseteq> ranges_set ms \<union> {start..stop}"
  proof
    fix x
    assume x: "x \<in> {min start (fst (hd ms))..max stop (snd (last ms))}"
    consider "start \<le> x" "x \<le> stop" | "x < start" | "stop < x" by force
    then show "x \<in> ranges_set ms \<union> {start..stop}"
    proof cases
      case 2
      then have "fst (hd ms) \<le> x" using x by (auto simp: min_le_iff_disj)
      moreover have "x \<le> snd (hd ms)"
      proof (rule ccontr)
        assume "\<not> x \<le> snd (hd ms)"
        then have "snd (hd ms) < x" by simp
        then obtain z where "nxt (snd (hd ms)) = Some z" "z \<le> x" using nxt_above by blast
        then show False using assms(4) 2 by auto
      qed
      ultimately show ?thesis using assms(2) by (force simp: ranges_set_def)
    next
      case 3
      then have "x \<le> snd (last ms)" using x by (auto simp: le_max_iff_disj)
      moreover obtain z where "nxt stop = Some z" "z \<le> x" using nxt_above [OF 3] by auto
      then have "fst (last ms) \<le> x" using assms(5) by auto
      ultimately show ?thesis using assms(2) by (force simp: ranges_set_def)
    qed auto
  qed
qed

text \<open>The two searches cut the list into the part before, the part to merge, and the part after.\<close>

lemma cut_points:
  assumes "coalesced nxt ivs"
  obtains ls ms rs where "ivs = ls @ ms @ rs"
    "partition_point (\<lambda>(_, e). case nxt e of Some n \<Rightarrow> n < start | None \<Rightarrow> False) ivs = length ls"
    "partition_point (\<lambda>(s, _). case nxt stop of Some n \<Rightarrow> s \<le> n | None \<Rightarrow> True) (ms @ rs) = length ms"
    "\<forall>r \<in> set ls. case nxt (snd r) of Some n \<Rightarrow> n < start | None \<Rightarrow> False"
    "ms @ rs \<noteq> [] \<longrightarrow> \<not> (case nxt (snd (hd (ms @ rs))) of Some n \<Rightarrow> n < start | None \<Rightarrow> False)"
    "\<forall>r \<in> set ms. case nxt stop of Some n \<Rightarrow> fst r \<le> n | None \<Rightarrow> True"
    "rs \<noteq> [] \<longrightarrow> (\<exists>n. nxt stop = Some n \<and> n < fst (hd rs))"
proof -
  let ?p = "\<lambda>(_, e). case nxt e of Some n \<Rightarrow> n < start | None \<Rightarrow> False"
  let ?q = "\<lambda>(s, _). case nxt stop of Some n \<Rightarrow> s \<le> n | None \<Rightarrow> True"
  define ls where "ls = takeWhile ?p ivs"
  define ms where "ms = takeWhile ?q (dropWhile ?p ivs)"
  define rs where "rs = dropWhile ?q (dropWhile ?p ivs)"
  have split: "ivs = ls @ ms @ rs" "ms @ rs = dropWhile ?p ivs" by (simp_all add: ls_def ms_def rs_def)
  have p: "?p (ivs ! i)" if h: "i \<le> j" "j < length ivs" "?p (ivs ! j)" for i j
  proof (cases "i = j")
    case False
    then have "snd (ivs ! i) < snd (ivs ! j)" using coalesced_nth [OF assms, of i j] h by auto
    then obtain z where "nxt (snd (ivs ! i)) = Some z" "z \<le> snd (ivs ! j)" using nxt_above by blast
    moreover obtain n where "nxt (snd (ivs ! j)) = Some n" "n < start"
      using h(3) by (auto split: prod.splits option.splits)
    moreover have "snd (ivs ! j) < n" using nxt_greater \<open>nxt (snd (ivs ! j)) = Some n\<close> .
    ultimately show ?thesis by (auto split: prod.splits)
  qed (use h in simp)
  have 1: "partition_point ?p ivs = length ls" unfolding ls_def by (rule partition_point_takeWhile) (rule p)
  have co: "coalesced nxt (ms @ rs)" using assms split(1) coalesced_append by metis
  have q: "?q ((ms @ rs) ! i)" if h: "i \<le> j" "j < length (ms @ rs)" "?q ((ms @ rs) ! j)" for i j
  proof (cases "i = j")
    case False
    then have "fst ((ms @ rs) ! i) \<le> fst ((ms @ rs) ! j)" using coalesced_nth [OF co, of i j] h by auto
    then show ?thesis using h(3) by (auto split: prod.splits option.splits)
  qed (use h in simp)
  have tw: "takeWhile ?q (ms @ rs) = ms" unfolding split(2) by (rule ms_def [symmetric])
  have 2: "partition_point ?q (ms @ rs) = length ms"
    by (subst partition_point_takeWhile) (rule q, assumption+, simp only: tw)
  have 3: "\<forall>r \<in> set ls. case nxt (snd r) of Some n \<Rightarrow> n < start | None \<Rightarrow> False"
    unfolding ls_def by (auto dest!: set_takeWhileD)
  have 4: "ms @ rs \<noteq> [] \<longrightarrow> \<not> (case nxt (snd (hd (ms @ rs))) of Some n \<Rightarrow> n < start | None \<Rightarrow> False)"
    unfolding split(2) using hd_dropWhile [of ?p ivs] by (auto simp: case_prod_beta)
  have 5: "\<forall>r \<in> set ms. case nxt stop of Some n \<Rightarrow> fst r \<le> n | None \<Rightarrow> True"
    unfolding ms_def by (auto dest!: set_takeWhileD split: option.split)
  have 6: "rs \<noteq> [] \<longrightarrow> (\<exists>n. nxt stop = Some n \<and> n < fst (hd rs))"
  proof
    assume "rs \<noteq> []"
    then have "\<not> ?q (hd rs)" unfolding rs_def by (rule hd_dropWhile)
    then show "\<exists>n. nxt stop = Some n \<and> n < fst (hd rs)" by (cases "nxt stop"; cases "hd rs") auto
  qed
  show ?thesis by (rule that [OF split(1) 1 2 3 4 5 6])
qed

lemma interval_insert_exact:
  assumes "coalesced nxt ivs" and "start \<le> stop"
  shows "\<exists>ivs'. interval_insert nxt ivs start stop = Some ivs' \<and> coalesced nxt ivs' \<and>
    ranges_set ivs' = ranges_set ivs \<union> {start..stop}"
proof -
  obtain ls ms rs where cut: "ivs = ls @ ms @ rs"
    "partition_point (\<lambda>(_, e). case nxt e of Some n \<Rightarrow> n < start | None \<Rightarrow> False) ivs = length ls"
    "partition_point (\<lambda>(s, _). case nxt stop of Some n \<Rightarrow> s \<le> n | None \<Rightarrow> True) (ms @ rs) = length ms"
    "\<forall>r \<in> set ls. case nxt (snd r) of Some n \<Rightarrow> n < start | None \<Rightarrow> False"
    "ms @ rs \<noteq> [] \<longrightarrow> \<not> (case nxt (snd (hd (ms @ rs))) of Some n \<Rightarrow> n < start | None \<Rightarrow> False)"
    "\<forall>r \<in> set ms. case nxt stop of Some n \<Rightarrow> fst r \<le> n | None \<Rightarrow> True"
    "rs \<noteq> [] \<longrightarrow> (\<exists>n. nxt stop = Some n \<and> n < fst (hd rs))"
    by (rule cut_points [OF assms(1), of start stop])
  define new where "new = (if ms = [] then (start, stop) else (min start (fst (hd ms)), max stop (snd (last ms))))"
  have res: "interval_insert nxt ivs start stop = Some (ls @ new # rs)"
  proof (cases "ms = []")
    case True
    then show ?thesis using cut(1-3) by (simp add: interval_insert_def Let_def new_def)
  next
    case False
    have "index ivs (length ls) = Some (hd ms)" using False cut(1) by (cases ms) (auto simp: index_def nth_append)
    moreover have "index ivs (length ls + length ms - 1) = Some (last ms)"
      using False cut(1) by (cases ms rule: rev_cases) (auto simp: index_def nth_append)
    ultimately show ?thesis using cut(1-3) False
      by (cases ms) (simp_all add: interval_insert_def Let_def new_def)
  qed
  have co: "coalesced nxt ls" "coalesced nxt ms" "coalesced nxt rs" using assms(1) unfolding cut(1) coalesced_append by auto
  have le: "fst new \<le> snd new" using assms(2) by (auto simp: new_def min_le_iff_disj le_max_iff_disj)
  have left: "snd (last ls) < fst new \<and> nxt (snd (last ls)) \<noteq> Some (fst new)" if "ls \<noteq> []"
  proof -
    have "last ls \<in> set ls" using that by simp
    then obtain n where n: "nxt (snd (last ls)) = Some n" "n < start" using cut(4) by (force split: option.splits)
    moreover have "snd (last ls) < n" using nxt_greater n(1) .
    moreover have "ms \<noteq> [] \<longrightarrow> snd (last ls) < fst (hd ms) \<and> nxt (snd (last ls)) \<noteq> Some (fst (hd ms))"
      using assms(1) that unfolding cut(1) coalesced_append by auto
    ultimately show ?thesis by (auto simp: new_def min_def)
  qed
  have right: "snd new < fst (hd rs) \<and> nxt (snd new) \<noteq> Some (fst (hd rs))" if ne: "rs \<noteq> []"
  proof -
    obtain n where n: "nxt stop = Some n" "n < fst (hd rs)" using cut(7) ne by blast
    moreover have "stop < n" using nxt_greater n(1) .
    moreover have "ms \<noteq> [] \<longrightarrow> snd (last ms) < fst (hd rs) \<and> nxt (snd (last ms)) \<noteq> Some (fst (hd rs))"
      using assms(1) ne unfolding cut(1) coalesced_append by auto
    ultimately show ?thesis by (auto simp: new_def max_def)
  qed
  have "coalesced nxt (ls @ [new] @ rs)"
    unfolding coalesced_append using co le left right by (cases new) auto
  moreover have "ranges_set (ls @ new # rs) = ranges_set ivs \<union> {start..stop}"
  proof (cases "ms = []")
    case False
    have m: "{min start (fst (hd ms))..max stop (snd (last ms))} = ranges_set ms \<union> {start..stop}"
      by (rule merged_set [OF co(2) False assms(2)]) (use cut(5,6) False in auto)
    show ?thesis unfolding cut(1) using m False by (auto simp: new_def)
  qed (auto simp: cut(1) new_def)
  ultimately show ?thesis using res by auto
qed

lemma interval_covers_exact:
  assumes "coalesced nxt ivs" and "start \<le> stop"
  shows "interval_covers ivs start stop = Some ({start..stop} \<subseteq> ranges_set ivs)"
proof -
  have "iv_covers \<lparr>starts = map fst ivs, ends = map snd ivs\<rparr> start stop = Some ({start..stop} \<subseteq> ranges_set ivs)"
    by (rule covers_coalesced [OF assms])
  moreover have "interval_covers ivs start stop = iv_covers \<lparr>starts = map fst ivs, ends = map snd ivs\<rparr> start stop"
  proof -
    have "partition_point (\<lambda>(s, _). s \<le> start) ivs = length (takeWhile (\<lambda>(s, _). s \<le> start) ivs)"
      by (rule partition_point_takeWhile) (use coalesced_nth [OF assms(1)] in \<open>force simp: le_eq_less_or_eq\<close>)
    then have "partition_point (\<lambda>(s, _). s \<le> start) ivs = partition_point (\<lambda>s. s \<le> start) (map fst ivs)"
      using coalesced_lookup(1) [OF assms(1), of start] by (simp add: case_prod_beta')
    then show ?thesis by (auto simp: interval_covers_def iv_covers_def Let_def index_def)
  qed
  ultimately show ?thesis by simp
qed

end

lemma word_succ_greater: "checked_succ x = Some z \<Longrightarrow> x < z"
proof -
  assume s: "checked_succ x = Some z"
  then have "x \<noteq> - 1" "z = x + 1" by (auto simp: checked_succ_def split: if_splits)
  then have "x < - 1" using word_n1_ge [of x] by (simp add: order.not_eq_order_implies_strict)
  then show "x < z" using word_succ_above s by fastforce
qed

interpretation v4s: strict_succ_order "checked_succ :: 32 word \<Rightarrow> 32 word option"
  by unfold_locales (rule word_succ_greater)

interpretation v6s: strict_succ_order "checked_succ :: 128 word \<Rightarrow> 128 word option"
  by unfold_locales (rule word_succ_greater)

subsection \<open>The addresses a coverage holds\<close>

definition coverage_ok :: "cidr_coverage \<Rightarrow> bool" where
  "coverage_ok c \<longleftrightarrow> coalesced checked_succ (cov_v4 c) \<and> coalesced checked_succ (cov_v6 c)"

definition coverage_set :: "cidr_coverage \<Rightarrow> ip_addr set" where
  "coverage_set c = V4 ` ranges_set (cov_v4 c) \<union> V6 ` ranges_set (cov_v6 c)"

lemma coverage_new_ok: "coverage_ok coverage_new" "coverage_set coverage_new = {}"
  by (simp_all add: coverage_ok_def coverage_set_def coverage_new_def)

lemma net_addresses:
  assumes "ipnet_ok E"
  shows "{ip. net_contains E (NetV4 n) ip} = V4 ` {network4 E n..broadcast4 E n}"
    and "{ip. net_contains E (NetV6 m) ip} = V6 ` {network6 E m..broadcast6 E m}"
proof -
  have "net_contains E (NetV4 n) ip \<longleftrightarrow> ip \<in> V4 ` {network4 E n..broadcast4 E n}" for ip
    by (cases ip) (auto simp: ipnet_okD [OF assms] net_range4_def)
  then show "{ip. net_contains E (NetV4 n) ip} = V4 ` {network4 E n..broadcast4 E n}" by blast
  have "net_contains E (NetV6 m) ip \<longleftrightarrow> ip \<in> V6 ` {network6 E m..broadcast6 E m}" for ip
    by (cases ip) (auto simp: ipnet_okD [OF assms] net_range6_def)
  then show "{ip. net_contains E (NetV6 m) ip} = V6 ` {network6 E m..broadcast6 E m}" by blast
qed

lemma coverage_covers_exact:
  assumes "ipnet_ok E" and "coverage_ok c"
  shows "coverage_covers E c net = Some ({ip. net_contains E net ip} \<subseteq> coverage_set c)"
proof (cases net)
  case (NetV4 n)
  have "(V4 ` {network4 E n..broadcast4 E n} \<subseteq> coverage_set c) = ({network4 E n..broadcast4 E n} \<subseteq> ranges_set (cov_v4 c))"
    by (auto simp: coverage_set_def)
  then show ?thesis
    using v4s.interval_covers_exact [of "cov_v4 c" "network4 E n" "broadcast4 E n"] assms(2) ipnet_okD(1) [OF assms(1)]
      net_addresses(1) [OF assms(1)] NetV4
    by (simp add: coverage_covers_def coverage_ok_def)
next
  case (NetV6 n)
  have "(V6 ` {network6 E n..broadcast6 E n} \<subseteq> coverage_set c) = ({network6 E n..broadcast6 E n} \<subseteq> ranges_set (cov_v6 c))"
    by (auto simp: coverage_set_def)
  then show ?thesis
    using v6s.interval_covers_exact [of "cov_v6 c" "network6 E n" "broadcast6 E n"] assms(2) ipnet_okD(2) [OF assms(1)]
      net_addresses(2) [OF assms(1)] NetV6
    by (simp add: coverage_covers_def coverage_ok_def)
qed

lemma coverage_absorb_exact:
  assumes "ipnet_ok E" and "coverage_ok c"
  shows "\<exists>c'. coverage_absorb E c net = Some c' \<and> coverage_ok c' \<and>
    coverage_set c' = coverage_set c \<union> {ip. net_contains E net ip}"
proof (cases net)
  case (NetV4 n)
  obtain ivs where "interval_insert checked_succ (cov_v4 c) (network4 E n) (broadcast4 E n) = Some ivs"
    "coalesced checked_succ ivs" "ranges_set ivs = ranges_set (cov_v4 c) \<union> {network4 E n..broadcast4 E n}"
    using v4s.interval_insert_exact [of "cov_v4 c" "network4 E n" "broadcast4 E n"] assms(2) ipnet_okD(1) [OF assms(1)]
    by (auto simp: coverage_ok_def)
  then show ?thesis
    using assms(2) net_addresses(1) [OF assms(1)] NetV4
    by (auto simp: coverage_absorb_def coverage_ok_def coverage_set_def)
next
  case (NetV6 n)
  obtain ivs where "interval_insert checked_succ (cov_v6 c) (network6 E n) (broadcast6 E n) = Some ivs"
    "coalesced checked_succ ivs" "ranges_set ivs = ranges_set (cov_v6 c) \<union> {network6 E n..broadcast6 E n}"
    using v6s.interval_insert_exact [of "cov_v6 c" "network6 E n" "broadcast6 E n"] assms(2) ipnet_okD(2) [OF assms(1)]
    by (auto simp: coverage_ok_def)
  then show ?thesis
    using assms(2) net_addresses(2) [OF assms(1)] NetV6
    by (auto simp: coverage_absorb_def coverage_ok_def coverage_set_def)
qed

text \<open>
  C9. A coverage stays in canonical form: absorbing a network never fails, keeps the interval lists
  sorted, disjoint and coalesced, and adds exactly the addresses of the network; and a network is
  reported as covered exactly when all its addresses are.
\<close>

theorem coverage_invariant:
  assumes "ipnet_ok E" and "coverage_ok c"
  shows "(\<exists>c'. coverage_absorb E c net = Some c' \<and> coverage_ok c' \<and>
      coverage_set c' = coverage_set c \<union> {ip. net_contains E net ip}) \<and>
    coverage_covers E c net = Some ({ip. net_contains E net ip} \<subseteq> coverage_set c)"
  using coverage_absorb_exact [OF assms] coverage_covers_exact [OF assms] by blast

theorem coverage_invariant_witness:
  "coverage_ok \<lparr>cov_v4 = [(167772160, 176160767)], cov_v6 = []\<rparr> \<and>
   coverage_absorb demo_lib \<lparr>cov_v4 = [(167772160, 176160767)], cov_v6 = []\<rparr> (NetV4 \<lparr>addr4 = 176160768, prefix4 = 9\<rparr>) =
     Some \<lparr>cov_v4 = [(167772160, 184549375)], cov_v6 = []\<rparr> \<and>
   coverage_ok \<lparr>cov_v4 = [(167772160, 184549375)], cov_v6 = []\<rparr>"
proof -
  let ?c = "\<lparr>cov_v4 = [(167772160, 176160767)], cov_v6 = []\<rparr>"
  let ?n = "NetV4 \<lparr>addr4 = 176160768, prefix4 = 9\<rparr>"
  have "coverage_ok ?c" by code_simp
  moreover have "coverage_absorb demo_lib ?c ?n = Some \<lparr>cov_v4 = [(167772160, 184549375)], cov_v6 = []\<rparr>" by code_simp
  ultimately show ?thesis using coverage_invariant [OF demo_lib_ok(1), of ?c ?n] by auto
qed

end
