(* ===== verification/Rule_Prune.thy ===== *)
theory Rule_Prune
  imports Rule_Fold Cidr_Coverage
begin

section \<open>Rules that can be left out\<close>

text \<open>
  The pruning passes of \<^verbatim>\<open>meow-tunnel/src/rule_ir.rs\<close>: the fingerprint that identifies duplicates
  (\<^verbatim>\<open>dedup_fingerprint\<close>) and the oracle of domain patterns covered by earlier rules (\<^verbatim>\<open>ShadowOracle\<close>).
  The lemmas are stated for one connection: \<open>K a\<close> says that some kept rule with adapter \<open>a\<close> matches
  it, and a pass is sound when it only drops rules that cannot match unless \<open>K\<close> holds of their adapter.
\<close>

subsection \<open>Fingerprints\<close>

fun port_span_text :: "port_range \<Rightarrow> string" where
  "port_span_text (PortSingle v) = show_word v"
| "port_span_text (PortSpan lo hi) = show_word lo @ ''-'' @ show_word hi"

fun port_fingerprint :: "port_matcher \<Rightarrow> string" where
  "port_fingerprint (MatchPort v) = show_word v"
| "port_fingerprint (MatchSpan lo hi) = show_word lo @ ''-'' @ show_word hi"
| "port_fingerprint (MatchPorts ranges) = join_with '','' (map port_span_text ranges)"

definition flag_digit :: "bool \<Rightarrow> char" where
  "flag_digit b = (if b then CHR ''1'' else CHR ''0'')"

definition show_bool :: "bool \<Rightarrow> string" where
  "show_bool b = (if b then ''true'' else ''false'')"

definition show_network :: "network \<Rightarrow> string" where
  "show_network n = (case n of Tcp \<Rightarrow> ''Tcp'' | Udp \<Rightarrow> ''Udp'')"

fun dedup_fingerprint :: "ext_lib \<Rightarrow> string \<Rightarrow> rule_op \<Rightarrow> string option" where
  "dedup_fingerprint E pl (OpDomain h) = Some h"
| "dedup_fingerprint E pl (OpDomainSuffix h) = Some h"
| "dedup_fingerprint E pl (OpDomainKeyword h) = Some h"
| "dedup_fingerprint E pl (OpProcessName _) = Some (to_ascii_lowercase pl)"
| "dedup_fingerprint E pl (OpDomainWildcard _) = Some (to_ascii_lowercase pl)"
| "dedup_fingerprint E pl (OpDomainRegex _) = Some pl"
| "dedup_fingerprint E pl (OpProcessPath _) = Some pl"
| "dedup_fingerprint E pl (OpInName _) = Some pl"
| "dedup_fingerprint E pl (OpInUser _) = Some pl"
| "dedup_fingerprint E pl OpMatch = Some pl"
| "dedup_fingerprint E pl (OpIpCidr net _) = Some (net_to_string E net)"
| "dedup_fingerprint E pl (OpSrcPort m) = Some (port_fingerprint m)"
| "dedup_fingerprint E pl (OpDstPort m) = Some (port_fingerprint m)"
| "dedup_fingerprint E pl (OpInPort m) = Some (port_fingerprint m)"
| "dedup_fingerprint E pl (OpDscp v) = Some (show_word v)"
| "dedup_fingerprint E pl (OpUid u) = Some (show_word u)"
| "dedup_fingerprint E pl (OpNetwork n) = Some (show_network n)"
| "dedup_fingerprint E pl (OpInType m) =
     Some [flag_digit (mask_http m), flag_digit (mask_https m), flag_digit (mask_socks5 m),
       flag_digit (mask_tproxy m), flag_digit (mask_inner m)]"
| "dedup_fingerprint E pl (OpGeoSite db keys) = Some (show_ptr (arc_ptr db) @ ''|'' @ join_with '','' keys)"
| "dedup_fingerprint E pl (OpRuleSetRef ptr _) = Some (show_ptr ptr)"
| "dedup_fingerprint E pl (OpIpRanges s src) = Some (show_ptr (arc_ptr s) @ ''|'' @ show_bool src)"
| "dedup_fingerprint E pl (OpIpSuffix _ _) = None"
| "dedup_fingerprint E pl (OpAllOf _) = None"
| "dedup_fingerprint E pl (OpAnyOf _) = None"
| "dedup_fingerprint E pl (OpNot _) = None"
| "dedup_fingerprint E pl OpTrieOwned = None"
| "dedup_fingerprint E pl OpFallback = None"

subsection \<open>The shadow oracle\<close>

record shadow_oracle =
  oracle_suffixes :: "(string \<times> nat) list"
  star_rests :: "(string \<times> nat) list"
  oracle_keywords :: "(string \<times> nat) list"

definition oracle_default :: shadow_oracle where
  "oracle_default = \<lparr>oracle_suffixes = [], star_rests = [], oracle_keywords = []\<rparr>"

definition star_rest :: "string \<Rightarrow> string option" where
  "star_rest pl =
     Option.bind (strip_prefix ''*.'' pl) (\<lambda>rest.
       if rest \<noteq> [] \<and> CHR ''*'' \<notin> set rest then Some (to_ascii_lowercase rest) else None)"

fun absorb :: "shadow_oracle \<Rightarrow> rule_op \<Rightarrow> string \<Rightarrow> nat \<Rightarrow> shadow_oracle" where
  "absorb o1 (OpDomainSuffix s) pl a =
     (if s \<noteq> [] then o1\<lparr>oracle_suffixes := AList.update s a (oracle_suffixes o1)\<rparr> else o1)"
| "absorb o1 (OpDomainKeyword k) pl a =
     (if k \<noteq> [] then o1\<lparr>oracle_keywords := oracle_keywords o1 @ [(k, a)]\<rparr> else o1)"
| "absorb o1 (OpDomainWildcard _) pl a =
     (case star_rest pl of
        Some rest \<Rightarrow> o1\<lparr>star_rests := AList.update rest a (star_rests o1)\<rparr>
      | None \<Rightarrow> o1)"
| "absorb o1 _ pl a = o1"

function suffix_covers_from :: "(string \<times> nat) list \<Rightarrow> string \<Rightarrow> nat \<Rightarrow> bool" where
  "suffix_covers_from sfx pat a =
     (if map_of sfx pat = Some a then True
      else case split_once CHR ''.'' pat of
        Some (_, rest) \<Rightarrow> suffix_covers_from sfx rest a
      | None \<Rightarrow> False)"
  by pat_completeness auto
termination
  by (relation "measure (\<lambda>(sfx, pat, a). length pat)") (auto simp: split_once_Some)

declare suffix_covers_from.simps [simp del]

definition suffix_covers :: "shadow_oracle \<Rightarrow> string \<Rightarrow> nat \<Rightarrow> bool" where
  "suffix_covers o1 pat a = (if oracle_suffixes o1 = [] then False else suffix_covers_from (oracle_suffixes o1) pat a)"

definition keyword_covers :: "shadow_oracle \<Rightarrow> string \<Rightarrow> nat \<Rightarrow> bool" where
  "keyword_covers o1 pat a \<longleftrightarrow> list_ex (\<lambda>(kw, x). x = a \<and> contains_str kw pat) (oracle_keywords o1)"

definition star_covers :: "shadow_oracle \<Rightarrow> string \<Rightarrow> nat \<Rightarrow> bool" where
  "star_covers o1 domain a =
     (if star_rests o1 = [] then False
      else case split_once CHR ''.'' domain of
        Some (label, rest) \<Rightarrow> label \<noteq> [] \<and> map_of (star_rests o1) rest = Some a
      | None \<Rightarrow> False)"

fun shadows :: "shadow_oracle \<Rightarrow> rule_op \<Rightarrow> string \<Rightarrow> nat \<Rightarrow> bool" where
  "shadows o1 (OpDomain d) pl a \<longleftrightarrow> suffix_covers o1 d a \<or> keyword_covers o1 d a \<or> star_covers o1 d a"
| "shadows o1 (OpDomainSuffix s) pl a \<longleftrightarrow> suffix_covers o1 s a \<or> keyword_covers o1 s a"
| "shadows o1 (OpDomainKeyword k) pl a \<longleftrightarrow> keyword_covers o1 k a"
| "shadows o1 (OpDomainWildcard _) pl a \<longleftrightarrow>
     (case star_rest pl of
        Some rest \<Rightarrow> suffix_covers o1 rest a \<or> keyword_covers o1 rest a
      | None \<Rightarrow> False)"
| "shadows o1 _ pl a \<longleftrightarrow> False"

subsection \<open>What the oracle knows\<close>

text \<open>Hosts by their lower-cased text: below a suffix, and one label in front of a rest.\<close>

definition under_suffix :: "string \<Rightarrow> string \<Rightarrow> bool" where
  "under_suffix s h \<longleftrightarrow> h = s \<or> suffix (CHR ''.'' # s) h"

definition one_label :: "string \<Rightarrow> string \<Rightarrow> bool" where
  "one_label rest h \<longleftrightarrow> (\<exists>label. h = label @ CHR ''.'' # rest \<and> label \<noteq> [] \<and> CHR ''.'' \<notin> set label)"

definition oracle_ok :: "shadow_oracle \<Rightarrow> string \<Rightarrow> (nat \<Rightarrow> bool) \<Rightarrow> bool" where
  "oracle_ok o1 h K \<longleftrightarrow>
     (\<forall>s a. map_of (oracle_suffixes o1) s = Some a \<longrightarrow> under_suffix s h \<longrightarrow> K a) \<and>
     (\<forall>s a. map_of (star_rests o1) s = Some a \<longrightarrow> one_label s h \<longrightarrow> K a) \<and>
     (\<forall>(k, a) \<in> set (oracle_keywords o1). sublist k h \<longrightarrow> K a)"

text \<open>The host text an operation of the domain family asks for.\<close>

fun op_hosts :: "rule_op \<Rightarrow> string \<Rightarrow> string \<Rightarrow> bool" where
  "op_hosts (OpDomain d) pl h \<longleftrightarrow> h = d"
| "op_hosts (OpDomainSuffix s) pl h \<longleftrightarrow> under_suffix s h"
| "op_hosts (OpDomainKeyword k) pl h \<longleftrightarrow> sublist k h"
| "op_hosts (OpDomainWildcard _) pl h \<longleftrightarrow> (case star_rest pl of Some rest \<Rightarrow> one_label rest h | None \<Rightarrow> True)"
| "op_hosts _ pl h \<longleftrightarrow> True"

lemma under_suffix_trans: "under_suffix s p \<Longrightarrow> under_suffix p h \<Longrightarrow> under_suffix s h"
  unfolding under_suffix_def by (metis suffix_ConsD2 suffix_order.order_trans suffix_Cons)

lemma under_suffix_sublist: "under_suffix s h \<Longrightarrow> sublist s h"
  by (auto simp: under_suffix_def dest: suffix_ConsD suffix_imp_sublist)

lemma one_label_under: "one_label rest h \<Longrightarrow> under_suffix rest h"
  by (auto simp: one_label_def under_suffix_def suffix_def)

lemma suffix_covers_from_sound:
  "suffix_covers_from sfx pat a \<Longrightarrow> \<exists>s. map_of sfx s = Some a \<and> under_suffix s pat"
proof (induction sfx pat a rule: suffix_covers_from.induct)
  case (1 sfx pat a)
  show ?case
  proof (cases "map_of sfx pat = Some a")
    case True
    then show ?thesis by (auto simp: under_suffix_def)
  next
    case False
    then obtain l rest where sp: "split_once CHR ''.'' pat = Some (l, rest)" "suffix_covers_from sfx rest a"
      using "1.prems" by (subst (asm) suffix_covers_from.simps) (auto split: option.splits)
    then obtain s where s: "map_of sfx s = Some a" "under_suffix s rest" using "1.IH" [OF False sp(1) refl] by blast
    have "under_suffix rest pat" using sp(1) by (auto simp: split_once_Some under_suffix_def suffix_def)
    then show ?thesis using s under_suffix_trans by blast
  qed
qed

lemma shadows_sound:
  assumes "oracle_ok o1 h K" and "shadows o1 op pl a" and "op_hosts op pl h"
  shows "K a"
proof -
  have sfx: "K a" if c: "suffix_covers o1 p a" "under_suffix p h" for p
  proof -
    obtain s where "map_of (oracle_suffixes o1) s = Some a" "under_suffix s p"
      using c(1) suffix_covers_from_sound by (auto simp: suffix_covers_def split: if_splits)
    then show ?thesis using assms(1) c(2) under_suffix_trans unfolding oracle_ok_def by blast
  qed
  have kw: "K a" if c: "keyword_covers o1 p a" "sublist p h" for p
  proof -
    obtain k where "(k, a) \<in> set (oracle_keywords o1)" "sublist k p"
      using c(1) by (auto simp: keyword_covers_def list_ex_iff contains_str_sublist)
    then show ?thesis using assms(1) c(2) sublist_order.order_trans unfolding oracle_ok_def by blast
  qed
  have star: "K a" if c: "star_covers o1 d a" "h = d" for d
  proof -
    obtain label rest where "d = label @ CHR ''.'' # rest" "CHR ''.'' \<notin> set label" "label \<noteq> []"
      "map_of (star_rests o1) rest = Some a"
      using c(1) by (auto simp: star_covers_def split_once_Some split: if_splits option.splits)
    then show ?thesis using assms(1) c(2) unfolding oracle_ok_def one_label_def by blast
  qed
  show ?thesis
    using assms(2,3) sfx kw star under_suffix_sublist one_label_under
    by (cases op) (auto simp: under_suffix_def split: option.splits)
qed

text \<open>The operations the oracle records.\<close>

fun absorbed_op :: "rule_op \<Rightarrow> string \<Rightarrow> bool" where
  "absorbed_op (OpDomainSuffix s) pl \<longleftrightarrow> True"
| "absorbed_op (OpDomainKeyword k) pl \<longleftrightarrow> True"
| "absorbed_op (OpDomainWildcard m) pl \<longleftrightarrow> star_rest pl \<noteq> None"
| "absorbed_op _ pl \<longleftrightarrow> False"

lemma absorb_ok:
  assumes "oracle_ok o1 h K" and "absorbed_op op pl \<Longrightarrow> op_hosts op pl h \<Longrightarrow> K a"
  shows "oracle_ok (absorb o1 op pl a) h K"
  using assms
  by (cases op) (auto simp: oracle_ok_def update_conv' split: option.split)

lemma oracle_ok_mono: "oracle_ok o1 h K \<Longrightarrow> (\<And>a. K a \<Longrightarrow> K' a) \<Longrightarrow> oracle_ok o1 h K'"
  unfolding oracle_ok_def by blast

lemma oracle_default_ok: "oracle_ok oracle_default h K"
  by (simp add: oracle_ok_def oracle_default_def)

text \<open>A compiled operation of the domain family matches exactly the hosts of its text.\<close>

lemma split_on_none: "c \<notin> set s \<Longrightarrow> split_on c s = [s]"
  by (induction s) auto

lemma one_label_lower:
  "one_label (to_ascii_lowercase r) (to_ascii_lowercase h) \<longleftrightarrow>
     (\<exists>label x. h = label @ CHR ''.'' # x \<and> label \<noteq> [] \<and> CHR ''.'' \<notin> set label \<and> to_ascii_lowercase x = to_ascii_lowercase r)"
proof
  assume "one_label (to_ascii_lowercase r) (to_ascii_lowercase h)"
  then obtain l where l: "map lower_byte h = l @ CHR ''.'' # to_ascii_lowercase r" "l \<noteq> []" "CHR ''.'' \<notin> set l"
    by (auto simp: one_label_def to_ascii_lowercase_def)
  then obtain label y where y: "h = label @ y" "map lower_byte label = l" "map lower_byte y = CHR ''.'' # to_ascii_lowercase r"
    by (metis map_eq_append_conv)
  then obtain c x where c: "y = c # x" by (cases y) auto
  then have h: "h = label @ c # x" "map lower_byte label = l" "lower_byte c = CHR ''.''"
    "map lower_byte x = to_ascii_lowercase r" using y by simp_all
  have "CHR ''.'' \<notin> set label"
  proof
    assume "CHR ''.'' \<in> set label"
    then have "lower_byte CHR ''.'' \<in> set (map lower_byte label)" unfolding set_map by (rule imageI)
    moreover have "lower_byte CHR ''.'' = CHR ''.''" by code_simp
    ultimately show False using h(2) l(3) by metis
  qed
  then show "\<exists>label x. h = label @ CHR ''.'' # x \<and> label \<noteq> [] \<and> CHR ''.'' \<notin> set label \<and> to_ascii_lowercase x = to_ascii_lowercase r"
    using h l(2) by (intro exI [of _ label] exI [of _ x]) (auto simp: to_ascii_lowercase_def)
next
  assume "\<exists>label x. h = label @ CHR ''.'' # x \<and> label \<noteq> [] \<and> CHR ''.'' \<notin> set label \<and> to_ascii_lowercase x = to_ascii_lowercase r"
  then obtain label x where l: "h = label @ CHR ''.'' # x" "label \<noteq> []" "CHR ''.'' \<notin> set label"
    "to_ascii_lowercase x = to_ascii_lowercase r" by blast
  have dot: "lower_byte CHR ''.'' = CHR ''.''" by code_simp
  have "CHR ''.'' \<notin> set (to_ascii_lowercase label)" using l(3) lower_byte_dot unfolding to_ascii_lowercase_def set_map by (metis imageE)
  moreover have "to_ascii_lowercase h = to_ascii_lowercase label @ CHR ''.'' # to_ascii_lowercase r"
    using l(1,4) by (simp add: to_ascii_lowercase_def dot)
  moreover have "to_ascii_lowercase label \<noteq> []" using l(2) by (simp add: to_ascii_lowercase_def)
  ultimately show "one_label (to_ascii_lowercase r) (to_ascii_lowercase h)" unfolding one_label_def by blast
qed

lemma star_glob:
  assumes "star_rest pl = Some rest" and "compile_domain_wildcard E pl = Some m"
  shows "wildcard_matcher_matches E m h \<longleftrightarrow> one_label rest (to_ascii_lowercase h)"
proof -
  obtain r where r: "pl = ''*.'' @ r" "r \<noteq> []" "CHR ''*'' \<notin> set r" "rest = to_ascii_lowercase r"
    using assms(1) by (auto simp: star_rest_def bind_eq_Some_conv strip_prefix_def prefix_def split: if_splits)
  have "split_on CHR ''*'' pl = [[], CHR ''.'' # r]" using r(1,3) split_on_none [of "CHR ''*''" r] by simp
  then have "glob_compile pl = Some [[], CHR ''.'' # r]" by (simp add: glob_compile_def)
  then have "wildcard_matcher_matches E m h \<longleftrightarrow> tokens_match (glob_tokens pl) h"
    using assms(2) glob_matches_tokens by (auto simp: compile_domain_wildcard_def)
  also have "\<dots> \<longleftrightarrow> (\<exists>label x. h = label @ CHR ''.'' # x \<and> label \<noteq> [] \<and> CHR ''.'' \<notin> set label \<and>
      to_ascii_lowercase x = to_ascii_lowercase r)"
    unfolding r(1) by (rule star_tokens_match [OF r(3)])
  also have "\<dots> \<longleftrightarrow> one_label rest (to_ascii_lowercase h)" unfolding r(4) by (rule one_label_lower [symmetric])
  finally show ?thesis .
qed

lemma under_suffix_text: "suffix_matches s md \<longleftrightarrow> under_suffix (to_ascii_lowercase s) (to_ascii_lowercase (rule_host md))"
  by (simp add: suffix_matches_text Let_def under_suffix_def)

lemma compiled_hosts:
  assumes "compile_op E ty pl = Some op"
  shows "matches_op E P md op \<Longrightarrow> op_hosts op pl (to_ascii_lowercase (rule_host md))"
    and "absorbed_op op pl \<Longrightarrow> op_hosts op pl (to_ascii_lowercase (rule_host md)) \<Longrightarrow> matches_op E P md op"
  using assms star_glob
  by (cases ty; auto simp: compile_op_def eq_ignore_ascii_case_iff suffix_op keyword_op under_suffix_text
      keyword_matches_text compile_in_port_def compile_network_def Let_def bind_eq_Some_conv split: option.split if_splits)+

subsection \<open>Equal fingerprints\<close>

definition ranges_of :: "port_matcher \<Rightarrow> port_range list" where
  "ranges_of m = (case m of MatchPort v \<Rightarrow> [PortSingle v] | MatchSpan lo hi \<Rightarrow> [PortSpan lo hi] | MatchPorts rs \<Rightarrow> rs)"

lemma ranges_of_matches: "port_matcher_matches m p \<longleftrightarrow> list_ex (port_range_matches p) (ranges_of m)"
  by (cases m) (simp_all add: ranges_of_def)

lemma ranges_of_text: "port_fingerprint m = join_with '','' (map port_span_text (ranges_of m))"
  by (cases m) (simp_all add: ranges_of_def)

lemma join_comma_inject:
  assumes "join_with '','' xs = join_with '','' ys" and "\<forall>x \<in> set xs. CHR '','' \<notin> set x \<and> x \<noteq> []"
    and "\<forall>y \<in> set ys. CHR '','' \<notin> set y \<and> y \<noteq> []"
  shows "xs = ys"
proof -
  have split: "split_on CHR '','' (join_with '','' zs) = zs" if "zs \<noteq> []" "\<forall>z \<in> set zs. CHR '','' \<notin> set z" for zs
    using that
  proof (induction zs)
    case (Cons z zs)
    then show ?case
      using split_on_sep [of "CHR '',''" z] split_on_none [of "CHR '',''" z] by (cases zs) auto
  qed simp
  have nil: "join_with '','' zs = [] \<longleftrightarrow> zs = []" if "\<forall>z \<in> set zs. z \<noteq> []" for zs
  proof (cases zs)
    case (Cons z zs')
    then show ?thesis using that by (cases zs') auto
  qed simp
  show ?thesis
  proof (cases "xs = [] \<or> ys = []")
    case True
    have "join_with '','' xs = [] \<longleftrightarrow> xs = []" "join_with '','' ys = [] \<longleftrightarrow> ys = []" using nil assms(2,3) by blast+
    then show ?thesis using True assms(1) by metis
  next
    case False
    then have "split_on CHR '','' (join_with '','' xs) = xs" "split_on CHR '','' (join_with '','' ys) = ys"
      using split assms(2,3) by blast+
    then show ?thesis using assms(1) by metis
  qed
qed

lemma show_word_chars: "c \<in> set (show_word w) \<Longrightarrow> is_ascii_digit c"
  using show_nat_digits unfolding show_word_def list_all_iff by blast

lemma no_digit: "\<not> is_ascii_digit CHR '',''" "\<not> is_ascii_digit CHR ''-''" by code_simp+

lemma port_span_chars: "CHR '','' \<notin> set (port_span_text r)" "port_span_text r \<noteq> []"
  using no_digit show_word_chars by (cases r; auto simp: show_word_def)+

lemma port_span_inject: "port_span_text r = port_span_text r' \<Longrightarrow> r = r'"
proof -
  have nd: "CHR ''-'' \<notin> set (show_word (w :: 16 word))" for w using no_digit show_word_chars by blast
  have cut: "a = c \<and> b = d" if "show_word (a :: 16 word) @ CHR ''-'' # show_word (b :: 16 word) = show_word (c :: 16 word) @ CHR ''-'' # show_word (d :: 16 word)" for a b c d
  proof -
    have "split_once CHR ''-'' (show_word a @ CHR ''-'' # show_word b) = Some (show_word a, show_word b)"
      "split_once CHR ''-'' (show_word c @ CHR ''-'' # show_word d) = Some (show_word c, show_word d)"
      using nd by (simp_all add: split_once_Some)
    then show ?thesis using that show_word_inject by (metis option.inject prod.inject)
  qed
  have mixed: "show_word (a :: 16 word) \<noteq> show_word (b :: 16 word) @ CHR ''-'' # x" for a b x
    using nd [of a] by (metis in_set_conv_decomp)
  show "port_span_text r = port_span_text r' \<Longrightarrow> r = r'"
    using cut mixed mixed [symmetric] by (cases r; cases r') (auto simp: show_word_inject)
qed

lemma port_fingerprint_sound:
  assumes "port_fingerprint m = port_fingerprint m'"
  shows "port_matcher_matches m p = port_matcher_matches m' p"
proof -
  have "map port_span_text (ranges_of m) = map port_span_text (ranges_of m')"
    by (rule join_comma_inject) (use assms port_span_chars in \<open>auto simp: ranges_of_text\<close>)
  then have "ranges_of m = ranges_of m'" using port_span_inject by (metis list.inj_map_strong)
  then show ?thesis by (simp add: ranges_of_matches)
qed

lemma ptr_text_inject: "show_ptr p @ CHR ''|'' # x = show_ptr q @ CHR ''|'' # y \<Longrightarrow> p = q \<and> x = y"
proof -
  have nb: "CHR ''|'' \<notin> set (show_ptr k)" for k using show_hex_alnum by (fastforce simp: show_ptr_def byte_val_def)
  have "split_once CHR ''|'' (show_ptr k @ CHR ''|'' # z) = Some (show_ptr k, z)" for k z using nb by (simp add: split_once_Some)
  then show "show_ptr p @ CHR ''|'' # x = show_ptr q @ CHR ''|'' # y \<Longrightarrow> p = q \<and> x = y"
    by (metis option.inject prod.inject show_ptr_inject)
qed

lemma glob_tokens_lower: "tokens_match (glob_tokens (to_ascii_lowercase pat)) h = tokens_match (glob_tokens pat) h"
proof (induction pat arbitrary: h)
  case (Cons c pat)
  show ?case
  proof (cases "c = CHR ''*''")
    case True
    have "lower_byte CHR ''*'' = CHR ''*''" by code_simp
    then show ?thesis using Cons True by (simp add: glob_tokens_Cons tokens_match_Run)
  next
    case False
    then show ?thesis using Cons by (cases h) (simp_all add: glob_tokens_Cons)
  qed
qed simp

lemma wildcard_op_tokens:
  assumes "regex_ok E" and "is_ascii pat" "is_ascii h" and "compile_domain_wildcard E pat = Some m"
  shows "wildcard_matcher_matches E m h = tokens_match (glob_tokens pat) h"
proof (cases "glob_compile pat")
  case (Some pieces)
  then show ?thesis using assms(4) glob_matches_tokens by (auto simp: compile_domain_wildcard_def)
next
  case None
  then have "m = WildRegex \<lparr>rm_regex = wildcard_regex E pat, required_literal = required_literal_from_wildcard pat\<rparr>"
    using assms(4) by (auto simp: compile_domain_wildcard_def wildcard_regex_def Let_def split: if_splits)
  then show ?thesis using wildcard_regex_match [OF assms(1-3)] wildcard_literal
    by (auto simp: regex_matcher_matches_def split: option.split)
qed

lemma flag_digit_inject: "flag_digit a = flag_digit b \<longleftrightarrow> a = b"
  by (auto simp: flag_digit_def)

lemma show_network_inject: "show_network a = show_network b \<longleftrightarrow> a = b"
  by (cases a; cases b) (auto simp: show_network_def)

lemma compile_op_dedup:
  assumes "lib_ok E" and "compile_op E ty p1 = Some op1" "compile_op E ty p2 = Some op2"
    and "dedup_fingerprint E p1 op1 = Some fp" "dedup_fingerprint E p2 op2 = Some fp"
    and "ty = RtDomainWildcard \<Longrightarrow> is_ascii p1 \<and> is_ascii p2" and "is_ascii (rule_host md)"
  shows "matches_op E P md op1 = matches_op E P md op2"
proof (cases ty)
  case RtDomainWildcard
  obtain m1 m2 where m: "op1 = OpDomainWildcard m1" "compile_domain_wildcard E p1 = Some m1"
    "op2 = OpDomainWildcard m2" "compile_domain_wildcard E p2 = Some m2"
    using assms(2,3) RtDomainWildcard by (auto simp: compile_op_def)
  have ra: "regex_ok E" "is_ascii p1" "is_ascii p2" using assms(1,6) RtDomainWildcard by (auto simp: lib_ok_def)
  have "to_ascii_lowercase p1 = to_ascii_lowercase p2" using assms(4,5) m by simp
  then have "tokens_match (glob_tokens p1) (rule_host md) = tokens_match (glob_tokens p2) (rule_host md)"
    by (metis glob_tokens_lower)
  then show ?thesis using wildcard_op_tokens ra m assms(7) by simp
next
  case RtProcessName
  then show ?thesis using assms(2-5) by (auto simp: compile_op_def eq_ignore_ascii_case_iff)
next
  case RtIpCidr
  then show ?thesis using assms(1-5) by (auto simp: compile_op_def lib_ok_def net_print_ok_def inj_eq)
next
  case RtSrcIpCidr
  then show ?thesis using assms(1-5) by (auto simp: compile_op_def lib_ok_def net_print_ok_def inj_eq)
next
  case RtSrcPort
  then show ?thesis using assms(2-5) by (auto simp: compile_op_def intro: port_fingerprint_sound [THEN iffD1] port_fingerprint_sound [THEN iffD2])
next
  case RtDstPort
  then show ?thesis using assms(2-5) by (auto simp: compile_op_def intro: port_fingerprint_sound [THEN iffD1] port_fingerprint_sound [THEN iffD2])
next
  case RtInPort
  then show ?thesis using assms(2-5) by (auto simp: compile_op_def compile_in_port_def intro: port_fingerprint_sound [THEN iffD1] port_fingerprint_sound [THEN iffD2])
next
  case RtNetwork
  then show ?thesis using assms(2-5)
    by (auto simp: compile_op_def compile_network_def Let_def show_network_inject split: if_splits)
next
  case RtInType
  then show ?thesis using assms(2-5)
    by (auto simp: compile_op_def in_type_matches_def flag_digit_inject split: conn_type.split)
qed (use assms(2-5) in \<open>auto simp: compile_op_def show_word_inject bind_eq_Some_conv split: if_splits\<close>)

text \<open>Two handles with one address share their content.\<close>

definition arcs_agree :: "rule \<Rightarrow> rule \<Rightarrow> bool" where
  "arcs_agree r r' =
     (case r of
        GeoSiteRule _ _ _ (Some d) \<Rightarrow>
          (case r' of GeoSiteRule _ _ _ (Some d') \<Rightarrow> arc_ptr d = arc_ptr d' \<longrightarrow> d = d' | _ \<Rightarrow> True)
      | GeoIpRule _ _ _ s \<Rightarrow> (case r' of GeoIpRule _ _ _ s' \<Rightarrow> arc_ptr s = arc_ptr s' \<longrightarrow> s = s' | _ \<Rightarrow> True)
      | SrcGeoIpRule _ _ s \<Rightarrow> (case r' of SrcGeoIpRule _ _ s' \<Rightarrow> arc_ptr s = arc_ptr s' \<longrightarrow> s = s' | _ \<Rightarrow> True)
      | IpAsnRule _ _ s _ _ \<Rightarrow> (case r' of IpAsnRule _ _ s' _ _ \<Rightarrow> arc_ptr s = arc_ptr s' \<longrightarrow> s = s' | _ \<Rightarrow> True)
      | RuleSetRule _ p s _ _ \<Rightarrow> (case r' of RuleSetRule _ p' s' _ _ \<Rightarrow> p = p' \<longrightarrow> s = s' | _ \<Rightarrow> True)
      | _ \<Rightarrow> True)"

end
