(* ===== verification/Rule_IR.thy ===== *)
theory Rule_IR
  imports Rule_Prune
begin

section \<open>The compiled rule set\<close>

text \<open>
  \<^verbatim>\<open>CompiledRuleSet\<close> of \<^verbatim>\<open>meow-tunnel/src/rule_ir.rs\<close>: compilation of a rule list to slots with the four
  clean-up passes, the choice between a linear scan and a domain index, the strict match and the
  demand-driven match. \<^const>\<open>None\<close> at the outermost level is a panic (an index out of bounds, or an
  index beyond 32 bits). A match also returns the skipped matches that are warned about. Counters
  that only feed a log line are left out.
\<close>

definition LINEAR_SCAN_RULE_LIMIT :: nat where
  "LINEAR_SCAN_RULE_LIMIT = 64"

datatype target_plan = StaticAdapter | DynamicAdapter

datatype execution_plan = LinearScan | DomainIndexed

record compiled_rule_slot =
  slot_index :: "32 word"
  slot_type :: rule_type
  slot_adapter :: "32 word"
  slot_target :: target_plan
  demands_ip :: bool
  demands_process :: bool
  slot_op :: rule_op

record compiled_rule_set =
  ir_slots :: "compiled_rule_slot list"
  source_rule_count :: nat
  adapter_names :: "string list"
  adapter_lookup :: "(string \<times> nat) list"
  ir_index :: domain_index
  ir_plan :: execution_plan
  needs_ip_resolution :: bool
  needs_process_lookup :: bool

record compiled_match_result =
  cm_adapter_name :: string
  cm_adapter_index :: "nat option"
  cm_rule_type :: rule_type
  cm_rule_payload :: string
  cm_rule_index :: nat

datatype scan_outcome = ScanMatched compiled_match_result | ScanBlocked nat | ScanExhausted

datatype lazy_match_outcome =
    LazyMatched compiled_match_result
  | NeedsEnrichment bool bool nat
  | LazyNoMatch

definition ir_empty :: compiled_rule_set where
  "ir_empty = \<lparr>ir_slots = [], source_rule_count = 0, adapter_names = [], adapter_lookup = [],
     ir_index = index_empty, ir_plan = LinearScan, needs_ip_resolution = False, needs_process_lookup = False\<rparr>"

subsection \<open>Compilation\<close>

definition intern_adapter ::
  "string list \<Rightarrow> (string \<times> nat) list \<Rightarrow> string \<Rightarrow> nat \<times> string list \<times> (string \<times> nat) list" where
  "intern_adapter names lookup name =
     (case map_of lookup name of
        Some i \<Rightarrow> (i, names, lookup)
      | None \<Rightarrow> let i = length names in (i, names @ [name], AList.update name i lookup))"

definition target_plan_for :: "rule_type \<Rightarrow> target_plan" where
  "target_plan_for ty = (case ty of RtSubRule \<Rightarrow> DynamicAdapter | _ \<Rightarrow> StaticAdapter)"

definition select_execution_plan :: "nat \<Rightarrow> execution_plan" where
  "select_execution_plan n = (if n \<le> LINEAR_SCAN_RULE_LIMIT then LinearScan else DomainIndexed)"

text \<open>
  Lowering and folding of one rule: \<^const>\<open>None\<close> when the rule can never match, otherwise the
  operation with the demands on destination address and process.
\<close>

definition compile_rule :: "ext_lib \<Rightarrow> platform \<Rightarrow> rule \<Rightarrow> (rule_op \<times> bool \<times> bool) option" where
  "compile_rule E P r =
     (if never_matches P r then None
      else let op = (case or_else (compile_op E (type_of_rule r) (payload r)) (lower_native E r) of
                       Some op \<Rightarrow> op | None \<Rightarrow> OpFallback) in
        case fold_op P op of
          FoldNever \<Rightarrow> None
        | FoldAlways \<Rightarrow> Some (OpMatch, False, False)
        | FoldOp op \<Rightarrow> Some (op, should_resolve_ip P r, should_find_process P r))"

record build_state =
  b_slots :: "compiled_rule_slot list"
  b_adapter_names :: "string list"
  b_adapter_lookup :: "(string \<times> nat) list"
  b_needs_ip :: bool
  b_needs_process :: bool
  b_seen_ops :: "(rule_type \<times> bool \<times> bool \<times> string \<times> nat) list"
  b_oracle :: shadow_oracle
  b_dst_coverage :: "(nat \<times> cidr_coverage) list"
  b_src_coverage :: "(nat \<times> cidr_coverage) list"
  b_seen_ip_demand :: bool

definition build_init :: build_state where
  "build_init = \<lparr>b_slots = [], b_adapter_names = [], b_adapter_lookup = [], b_needs_ip = False, b_needs_process = False,
     b_seen_ops = [], b_oracle = oracle_default, b_dst_coverage = [], b_src_coverage = [], b_seen_ip_demand = False\<rparr>"

text \<open>Duplicate elimination: whether the key was seen, and the state with the key recorded.\<close>

definition dedup_pass ::
  "ext_lib \<Rightarrow> build_state \<Rightarrow> rule \<Rightarrow> rule_op \<Rightarrow> bool \<Rightarrow> bool \<Rightarrow> nat \<Rightarrow> bool \<times> build_state" where
  "dedup_pass E st r op dip dproc a =
     (case dedup_fingerprint E (payload r) op of
        None \<Rightarrow> (False, st)
      | Some fp \<Rightarrow>
          let key = (type_of_rule r, dip, dproc, fp, a) in
          if key \<in> set (b_seen_ops st) then (True, st)
          else (False, st\<lparr>b_seen_ops := key # b_seen_ops st\<rparr>))"

definition shadow_pass :: "build_state \<Rightarrow> rule \<Rightarrow> rule_op \<Rightarrow> nat \<Rightarrow> bool \<times> build_state" where
  "shadow_pass st r op a =
     (if shadows (b_oracle st) op (payload r) a then (True, st)
      else (False, st\<lparr>b_oracle := absorb (b_oracle st) op (payload r) a\<rparr>))"

definition cidr_covered :: "ext_lib \<Rightarrow> (nat \<times> cidr_coverage) list \<Rightarrow> nat \<Rightarrow> ip_net \<Rightarrow> bool panics" where
  "cidr_covered E covs a net = (case map_of covs a of Some c \<Rightarrow> coverage_covers E c net | None \<Rightarrow> Some False)"

definition cidr_absorb ::
  "ext_lib \<Rightarrow> (nat \<times> cidr_coverage) list \<Rightarrow> nat \<Rightarrow> ip_net \<Rightarrow> (nat \<times> cidr_coverage) list panics" where
  "cidr_absorb E covs a net =
     map_option (\<lambda>c. AList.update a c covs)
       (coverage_absorb E (case map_of covs a of Some c \<Rightarrow> c | None \<Rightarrow> coverage_new) net)"

definition cidr_pass ::
  "ext_lib \<Rightarrow> build_state \<Rightarrow> rule_op \<Rightarrow> bool \<Rightarrow> nat \<Rightarrow> (bool \<times> build_state) panics" where
  "cidr_pass E st op dip a =
     (case op of
        OpIpCidr net src \<Rightarrow>
          let covs = (if src then b_src_coverage st else b_dst_coverage st) in
          Option.bind (cidr_covered E covs a net) (\<lambda>covered.
            if covered \<and> (\<not> dip \<or> b_seen_ip_demand st) then Some (True, st)
            else Option.bind (cidr_absorb E covs a net) (\<lambda>covs.
              Some (False, if src then st\<lparr>b_src_coverage := covs\<rparr> else st\<lparr>b_dst_coverage := covs\<rparr>)))
      | _ \<Rightarrow> Some (False, st))"

definition push_slot ::
  "build_state \<Rightarrow> nat \<Rightarrow> rule \<Rightarrow> rule_op \<Rightarrow> bool \<Rightarrow> bool \<Rightarrow> nat \<Rightarrow> build_state panics" where
  "push_slot st i r op dip dproc a =
     (if 2 ^ 32 \<le> i \<or> 2 ^ 32 \<le> a then None
      else Some (st\<lparr>b_needs_ip := b_needs_ip st \<or> dip, b_needs_process := b_needs_process st \<or> dproc,
        b_seen_ip_demand := b_seen_ip_demand st \<or> dip,
        b_slots := b_slots st @ [\<lparr>slot_index = word_of_nat i, slot_type = type_of_rule r,
          slot_adapter = word_of_nat a, slot_target = target_plan_for (type_of_rule r),
          demands_ip = dip, demands_process = dproc, slot_op = op\<rparr>]\<rparr>))"

text \<open>The body of the loop over the rules; the flag tells whether the loop ends here.\<close>

definition build_step :: "ext_lib \<Rightarrow> platform \<Rightarrow> build_state \<Rightarrow> nat \<Rightarrow> rule \<Rightarrow> (build_state \<times> bool) panics" where
  "build_step E P st i r =
     (case compile_rule E P r of
        None \<Rightarrow> Some (st, False)
      | Some (op, dip, dproc) \<Rightarrow>
          let (a, names, lookup) = intern_adapter (b_adapter_names st) (b_adapter_lookup st) (adapter r);
              st = st\<lparr>b_adapter_names := names, b_adapter_lookup := lookup\<rparr>;
              (duplicate, st) = dedup_pass E st r op dip dproc a in
          if duplicate then Some (st, False)
          else let (shadowed, st) = shadow_pass st r op a in
            if shadowed then Some (st, False)
            else Option.bind (cidr_pass E st op dip a) (\<lambda>(covered, st).
              if covered then Some (st, False)
              else map_option (\<lambda>st. (st, op = OpMatch \<and> adapter r = ''DIRECT'')) (push_slot st i r op dip dproc a)))"

fun build_loop :: "ext_lib \<Rightarrow> platform \<Rightarrow> build_state \<Rightarrow> nat \<Rightarrow> rule list \<Rightarrow> build_state panics" where
  "build_loop E P st i [] = Some st"
| "build_loop E P st i (r # rs) =
     Option.bind (build_step E P st i r) (\<lambda>(st, stop). if stop then Some st else build_loop E P st (i + 1) rs)"

text \<open>Handing the fully indexed patterns over to the trie.\<close>

definition trie_op :: "rule_op \<Rightarrow> bool" where
  "trie_op op = (case op of OpDomain _ \<Rightarrow> True | OpDomainSuffix _ \<Rightarrow> True | OpDomainWildcard _ \<Rightarrow> True | _ \<Rightarrow> False)"

fun own_slots ::
  "ext_lib \<Rightarrow> rule list \<Rightarrow> domain_index \<Rightarrow> compiled_rule_slot list \<Rightarrow> (domain_index \<times> compiled_rule_slot list) panics" where
  "own_slots E rules ix [] = Some (ix, [])"
| "own_slots E rules ix (slot # ss) =
     Option.bind
       (if trie_op (slot_op slot)
        then Option.bind (index rules (unat (slot_index slot)))
               (\<lambda>r. insert_rule E ix (unat (slot_index slot)) (slot_type slot) (payload r))
        else Some (False, ix)) (\<lambda>(owned, ix).
     map_option (\<lambda>(ix, ss). (ix, (if owned then slot\<lparr>slot_op := OpTrieOwned\<rparr> else slot) # ss))
       (own_slots E rules ix ss))"

definition ir_build :: "ext_lib \<Rightarrow> platform \<Rightarrow> rule list \<Rightarrow> compiled_rule_set panics" where
  "ir_build E P rules =
     Option.bind (build_loop E P build_init 0 rules) (\<lambda>st.
       let plan = select_execution_plan (length (b_slots st)) in
       Option.bind
         (if plan = DomainIndexed
          then Option.bind (own_slots E rules index_empty (b_slots st)) (\<lambda>(ix, ss).
                 map_option (\<lambda>ix. (ix, ss)) (index_seal ix))
          else Some (index_empty, b_slots st)) (\<lambda>(ix, ss).
       Some \<lparr>ir_slots = ss, source_rule_count = length rules, adapter_names = b_adapter_names st,
         adapter_lookup = b_adapter_lookup st, ir_index = ix, ir_plan = plan,
         needs_ip_resolution = b_needs_ip st, needs_process_lookup = b_needs_process st\<rparr>))"

definition ir_len :: "compiled_rule_set \<Rightarrow> nat" where
  "ir_len ir = length (ir_slots ir)"

definition ir_is_empty :: "compiled_rule_set \<Rightarrow> bool" where
  "ir_is_empty ir \<longleftrightarrow> ir_slots ir = []"

definition is_compatible_with :: "compiled_rule_set \<Rightarrow> rule list \<Rightarrow> bool" where
  "is_compatible_with ir rules \<longleftrightarrow> source_rule_count ir = length rules"

definition uses_linear_scan_plan :: "compiled_rule_set \<Rightarrow> bool" where
  "uses_linear_scan_plan ir \<longleftrightarrow> ir_plan ir = LinearScan"

definition has_dynamic_adapter :: "compiled_rule_slot \<Rightarrow> bool" where
  "has_dynamic_adapter slot \<longleftrightarrow> slot_target slot = DynamicAdapter"

definition is_lowered :: "compiled_rule_slot \<Rightarrow> bool" where
  "is_lowered slot \<longleftrightarrow> slot_op slot \<noteq> OpFallback"

definition is_trie_owned :: "compiled_rule_slot \<Rightarrow> bool" where
  "is_trie_owned slot \<longleftrightarrow> slot_op slot = OpTrieOwned"

subsection \<open>Matching\<close>

definition ip_missing :: "metadata \<Rightarrow> bool" where
  "ip_missing md \<longleftrightarrow> dst_ip md = None \<and> host md \<noteq> []"

definition process_missing :: "metadata \<Rightarrow> bool" where
  "process_missing md \<longleftrightarrow> process md = [] \<and> src_ip md \<noteq> None \<and> src_port md \<noteq> 0"

definition slot_blocked :: "compiled_rule_slot \<Rightarrow> metadata \<Rightarrow> bool" where
  "slot_blocked slot md \<longleftrightarrow> demands_ip slot \<and> ip_missing md \<or> demands_process slot \<and> process_missing md"

definition make_match :: "compiled_rule_slot \<Rightarrow> rule list \<Rightarrow> string \<Rightarrow> nat option \<Rightarrow> compiled_match_result" where
  "make_match slot rules name ai =
     \<lparr>cm_adapter_name = name, cm_adapter_index = ai, cm_rule_type = slot_type slot,
      cm_rule_payload = (if unat (slot_index slot) < length rules then payload (rules ! unat (slot_index slot)) else []),
      cm_rule_index = unat (slot_index slot)\<rparr>"

definition static_match :: "compiled_rule_set \<Rightarrow> compiled_rule_slot \<Rightarrow> rule list \<Rightarrow> compiled_match_result panics" where
  "static_match ir slot rules =
     map_option (\<lambda>name. make_match slot rules name (Some (unat (slot_adapter slot))))
       (index (adapter_names ir) (unat (slot_adapter slot)))"

text \<open>\<^verbatim>\<open>cond.then(|| static_match)\<close>.\<close>

definition then_static ::
  "bool \<Rightarrow> compiled_rule_set \<Rightarrow> compiled_rule_slot \<Rightarrow> rule list \<Rightarrow> compiled_match_result option panics" where
  "then_static c ir slot rules = (if c then map_option Some (static_match ir slot rules) else Some None)"

definition slot_match ::
  "bool \<Rightarrow> ext_lib \<Rightarrow> platform \<Rightarrow> target_probe \<Rightarrow> metadata \<Rightarrow> compiled_rule_set \<Rightarrow> rule list \<Rightarrow> compiled_rule_slot \<Rightarrow>
   compiled_match_result option panics" where
  "slot_match eval_trie E P pr md ir rules slot =
     (let i = unat (slot_index slot) in
      case slot_op slot of
        OpTrieOwned \<Rightarrow>
          if eval_trie \<and> i < length rules then then_static (match_metadata E P md (rules ! i)) ir slot rules
          else Some None
      | OpFallback \<Rightarrow>
          (case slot_target slot of
             StaticAdapter \<Rightarrow> then_static (match_metadata E P md (rules ! i)) ir slot rules
           | DynamicAdapter \<Rightarrow>
               Some (map_option (\<lambda>name. make_match slot rules name (map_of (adapter_lookup ir) name))
                 (match_and_resolve E P pr md (rules ! i))))
      | op \<Rightarrow> then_static (matches_op E P md op) ir slot rules)"

fun scan_range_ctl ::
  "bool \<Rightarrow> bool \<Rightarrow> ext_lib \<Rightarrow> platform \<Rightarrow> target_probe \<Rightarrow> metadata \<Rightarrow> compiled_rule_set \<Rightarrow> rule list \<Rightarrow>
   compiled_rule_slot list \<Rightarrow> nat \<Rightarrow> (scan_outcome \<times> compiled_match_result list) panics" where
  "scan_range_ctl stop eval_trie E P pr md ir rules [] pos = Some (ScanExhausted, [])"
| "scan_range_ctl stop eval_trie E P pr md ir rules (slot # ss) pos =
     (if stop \<and> slot_blocked slot md then Some (ScanBlocked pos, [])
      else if slot_op slot = OpFallback \<and> length rules \<le> unat (slot_index slot) then Some (ScanExhausted, [])
      else Option.bind (slot_match eval_trie E P pr md ir rules slot) (\<lambda>matched.
        let rest = scan_range_ctl stop eval_trie E P pr md ir rules ss (pos + 1) in
        case matched of
          None \<Rightarrow> rest
        | Some m \<Rightarrow>
            (case check pr (cm_adapter_name m) of
               Usable \<Rightarrow> Some (ScanMatched m, [])
             | Pass \<Rightarrow> rest
             | Missing \<Rightarrow> map_option (\<lambda>(out, skipped). (out, m # skipped)) rest)))"

definition scan_slice ::
  "bool \<Rightarrow> bool \<Rightarrow> ext_lib \<Rightarrow> platform \<Rightarrow> target_probe \<Rightarrow> metadata \<Rightarrow> compiled_rule_set \<Rightarrow> rule list \<Rightarrow>
   nat \<Rightarrow> nat \<Rightarrow> (scan_outcome \<times> compiled_match_result list) panics" where
  "scan_slice stop eval_trie E P pr md ir rules start stop_at =
     Option.bind (slice (ir_slots ir) start stop_at) (\<lambda>ss.
       scan_range_ctl stop eval_trie E P pr md ir rules ss start)"

text \<open>The place of the trie hit among the slots: how far to scan first, and the slot that was hit.\<close>

definition trie_cut :: "metadata \<Rightarrow> compiled_rule_set \<Rightarrow> (nat \<times> compiled_rule_slot option) panics" where
  "trie_cut md ir =
     map_option (\<lambda>hit. case hit of
         Some t \<Rightarrow>
           let pos = partition_point (\<lambda>s. unat (slot_index s) < t) (ir_slots ir) in
           (pos, Option.bind (index (ir_slots ir) pos) (\<lambda>s. if unat (slot_index s) = t then Some s else None))
       | None \<Rightarrow> (length (ir_slots ir), None))
     (if rule_host md = [] then Some None else index_search (ir_index ir) (rule_host md))"

text \<open>
  The common shape of the strict and the lazy match over the indexed plan: the prefix scan, the
  slot that was hit, the scan of the tail. The list holds the skipped matches in their order.
\<close>

definition add_skipped ::
  "compiled_match_result list \<Rightarrow> ('a \<times> compiled_match_result list) panics \<Rightarrow> ('a \<times> compiled_match_result list) panics" where
  "add_skipped sk = map_option (\<lambda>(out, sk'). (out, sk @ sk'))"

definition indexed_scan ::
  "bool \<Rightarrow> ext_lib \<Rightarrow> platform \<Rightarrow> target_probe \<Rightarrow> metadata \<Rightarrow> compiled_rule_set \<Rightarrow> rule list \<Rightarrow>
   (scan_outcome \<times> compiled_match_result list) panics" where
  "indexed_scan stop E P pr md ir rules =
     Option.bind (trie_cut md ir) (\<lambda>(scan_end, hit_slot).
     Option.bind (scan_slice stop False E P pr md ir rules 0 scan_end) (\<lambda>(out, sk).
       case out of
         ScanMatched m \<Rightarrow> Some (ScanMatched m, sk)
       | ScanBlocked pos \<Rightarrow> Some (ScanBlocked pos, sk)
       | ScanExhausted \<Rightarrow>
           (case hit_slot of
              None \<Rightarrow> add_skipped sk (scan_slice stop True E P pr md ir rules scan_end (length (ir_slots ir)))
            | Some slot \<Rightarrow>
                Option.bind (static_match ir slot rules) (\<lambda>m.
                  let tail = scan_slice stop True E P pr md ir rules (scan_end + 1) (length (ir_slots ir)) in
                  case check pr (cm_adapter_name m) of
                    Usable \<Rightarrow> Some (ScanMatched m, sk)
                  | Pass \<Rightarrow> add_skipped sk tail
                  | Missing \<Rightarrow> add_skipped (sk @ [m]) tail))))"

definition planned_scan ::
  "bool \<Rightarrow> ext_lib \<Rightarrow> platform \<Rightarrow> target_probe \<Rightarrow> metadata \<Rightarrow> compiled_rule_set \<Rightarrow> rule list \<Rightarrow>
   (scan_outcome \<times> compiled_match_result list) panics" where
  "planned_scan stop E P pr md ir rules =
     (if ir_plan ir = LinearScan then scan_slice stop True E P pr md ir rules 0 (length (ir_slots ir))
      else indexed_scan stop E P pr md ir rules)"

definition match_rules ::
  "ext_lib \<Rightarrow> platform \<Rightarrow> target_probe \<Rightarrow> metadata \<Rightarrow> compiled_rule_set \<Rightarrow> rule list \<Rightarrow>
   (compiled_match_result option \<times> compiled_match_result list) panics" where
  "match_rules E P pr md ir rules =
     map_option (\<lambda>(out, sk). (case out of ScanMatched m \<Rightarrow> Some m | _ \<Rightarrow> None, sk))
       (planned_scan False E P pr md ir rules)"

definition enrichment_needs :: "compiled_rule_set \<Rightarrow> nat \<Rightarrow> metadata \<Rightarrow> lazy_match_outcome panics" where
  "enrichment_needs ir from_pos md =
     Option.bind (slice (ir_slots ir) from_pos (length (ir_slots ir))) (\<lambda>ss.
     Option.bind (index (ir_slots ir) from_pos) (\<lambda>slot.
       Some (NeedsEnrichment (list_ex demands_ip ss \<and> ip_missing md) (list_ex demands_process ss \<and> process_missing md)
         (unat (slot_index slot)))))"

definition match_rules_lazy ::
  "ext_lib \<Rightarrow> platform \<Rightarrow> target_probe \<Rightarrow> metadata \<Rightarrow> compiled_rule_set \<Rightarrow> rule list \<Rightarrow>
   (lazy_match_outcome \<times> compiled_match_result list) panics" where
  "match_rules_lazy E P pr md ir rules =
     Option.bind (planned_scan True E P pr md ir rules) (\<lambda>(out, sk).
       case out of
         ScanMatched m \<Rightarrow> Some (LazyMatched m, sk)
       | ScanExhausted \<Rightarrow> Some (LazyNoMatch, sk)
       | ScanBlocked pos \<Rightarrow> map_option (\<lambda>needs. (needs, [])) (enrichment_needs ir pos md))"

end
