(* ===== verification/IR_Build.thy ===== *)
theory IR_Build
  imports Rule_IR
begin

section \<open>Compilation keeps the outcome\<close>

text \<open>
  What the compilation of a rule list establishes for one connection: the slots are in rule order
  and carry what was compiled from their rule, and every rule that was left out either cannot
  match or has the target of an earlier slot that matches too. Consequently the first usable match
  among the slots is the first usable match among all rules.
\<close>

subsection \<open>Rules the theorems speak about\<close>

definition logic_type :: "rule_type \<Rightarrow> bool" where
  "logic_type ty \<longleftrightarrow> ty = RtAnd \<or> ty = RtOr \<or> ty = RtNot"

definition logic_op :: "rule_op \<Rightarrow> bool" where
  "logic_op op = (case op of OpAllOf _ \<Rightarrow> True | OpAnyOf _ \<Rightarrow> True | OpNot _ \<Rightarrow> True | _ \<Rightarrow> False)"

text \<open>A logic rule that does not collapse to one of its legs when it is folded.\<close>

definition no_collapse :: "ext_lib \<Rightarrow> platform \<Rightarrow> rule \<Rightarrow> bool" where
  "no_collapse E P r \<longleftrightarrow>
     (case compile_rule E P r of
        None \<Rightarrow> True
      | Some (op, _, _) \<Rightarrow> logic_type (type_of_rule r) \<longrightarrow> logic_op op \<or> op = OpMatch \<or> op = OpFallback)"

text \<open>Payloads of domain rules without surrounding space, GEOSITE categories without a comma.\<close>

definition clean_payload :: "rule \<Rightarrow> bool" where
  "clean_payload r =
     (case r of
        DomainRule d _ \<Rightarrow> trim d = d
      | DomainSuffixRule d _ \<Rightarrow> trim d = d
      | DomainWildcardRule _ d _ \<Rightarrow> trim d = d
      | GeoSiteRule category _ _ _ \<Rightarrow> CHR '','' \<notin> set category
      | _ \<Rightarrow> True)"

definition ir_ok :: "ext_lib \<Rightarrow> platform \<Rightarrow> rule \<Rightarrow> bool" where
  "ir_ok E P r \<longleftrightarrow> wf_rule E r \<and> plain_wildcards r \<and> no_collapse E P r \<and> clean_payload r"

subsection \<open>One rule\<close>

lemma fold_leaf: "\<not> logic_op op \<Longrightarrow> fold_op P op = FoldOp op' \<Longrightarrow> op' = op \<and> op \<noteq> OpMatch"
  by (cases op) (auto simp: logic_op_def fold_op.simps split: if_splits)

lemma fold_leaf_always: "\<not> logic_op op \<Longrightarrow> fold_op P op = FoldAlways \<Longrightarrow> op = OpMatch"
  by (cases op) (auto simp: logic_op_def fold_op.simps split: if_splits)

lemma compile_op_leaf: "compile_op E ty pl = Some op \<Longrightarrow> \<not> logic_op op \<and> \<not> logic_type ty \<and> op \<noteq> OpTrieOwned \<and> op \<noteq> OpFallback"
  by (cases ty) (auto simp: compile_op_def logic_op_def logic_type_def compile_in_port_def compile_network_def Let_def
      bind_eq_Some_conv split: if_splits)

lemma lower_native_leaf:
  "lower_native E r = Some op \<Longrightarrow> \<not> logic_type (type_of_rule r) \<Longrightarrow>
     \<not> logic_op op \<and> op \<noteq> OpTrieOwned \<and> op \<noteq> OpFallback \<and> op \<noteq> OpMatch"
  by (cases r) (auto simp: lower_native.simps logic_op_def logic_type_def bind_eq_Some_conv split: if_splits)

lemma lower_logic: "logic_type (type_of_rule r) \<Longrightarrow> compile_op E (type_of_rule r) pl = None"
  by (auto simp: logic_type_def compile_op_def)

lemma lower_not_sub: "lower_rule E r = Some op \<Longrightarrow> type_of_rule r \<noteq> RtSubRule"
  by (cases r) (auto simp: lower_rule.simps lower_native.simps compile_op_def or_else_def)

lemma native_not_compiled: "lower_native E r = Some op \<Longrightarrow> compile_op E (type_of_rule r) pl = None"
  by (cases r) (auto simp: lower_native.simps compile_op_def)

text \<open>Where the operation of a slot comes from.\<close>

lemma compile_rule_shape:
  assumes "compile_rule E P r = Some (op, dip, dproc)" and "no_collapse E P r" and "op \<noteq> OpFallback"
  shows "logic_type (type_of_rule r) \<and> (logic_op op \<or> op = OpMatch) \<or>
    \<not> logic_type (type_of_rule r) \<and> \<not> logic_op op \<and>
      (compile_op E (type_of_rule r) (payload r) = Some op \<or> lower_native E r = Some op)"
proof (cases "logic_type (type_of_rule r)")
  case True
  then show ?thesis using assms by (auto simp: no_collapse_def)
next
  case False
  let ?low = "or_else (compile_op E (type_of_rule r) (payload r)) (lower_native E r)"
  show ?thesis
  proof (cases ?low)
    case None
    then show ?thesis using assms(1,3)
      by (auto simp: compile_rule_def Let_def fold_op.simps split: if_splits)
  next
    case (Some op0)
    then have src: "compile_op E (type_of_rule r) (payload r) = Some op0 \<or> lower_native E r = Some op0"
      by (auto simp: or_else_eq_Some)
    then have leaf: "\<not> logic_op op0" using compile_op_leaf lower_native_leaf False by blast
    have "op = op0"
      using assms(1) Some fold_leaf [OF leaf, of P] fold_leaf_always [OF leaf, of P]
      by (auto simp: compile_rule_def Let_def split: if_splits folded.splits)
    then show ?thesis using src leaf False by blast
  qed
qed

lemma compile_rule_matches:
  assumes "lib_ok E" and "wf_rule E r" "plain_wildcards r" and "is_ascii (rule_host md)" and "metadata_on P md"
    and "compile_rule E P r = Some (op, dip, dproc)" and "op \<noteq> OpFallback"
  shows "type_of_rule r \<noteq> RtSubRule \<and> matches_op E P md op = match_metadata E P md r"
proof -
  obtain op0 where op0: "lower_rule E r = Some op0"
    "folded_matches E P md (fold_op P op0) = matches_op E P md op"
  proof (cases "lower_rule E r")
    case None
    then show ?thesis using assms(6,7)
      by (auto simp: compile_rule_def Let_def lower_rule.simps fold_op.simps split: if_splits)
  next
    case (Some op0)
    then have "folded_matches E P md (fold_op P op0) = matches_op E P md op" using assms(6)
      by (auto simp: compile_rule_def Let_def lower_rule.simps folded_matches_def split: if_splits folded.splits)
    then show ?thesis using that Some by blast
  qed
  have "matches_op E P md op0 = match_metadata E P md r" by (rule lower_exact [OF assms(1,4,2,3) op0(1)])
  then show ?thesis using op0 lower_not_sub fold_matches(1) [OF assms(5), of E op0] by auto
qed

lemma compile_rule_never:
  assumes "lib_ok E" and "wf_rule E r" "plain_wildcards r" and "is_ascii (rule_host md)" and "metadata_on P md"
    and "compile_rule E P r = None"
  shows "match_and_resolve E P pr md r = None"
proof (cases "never_matches P r")
  case True
  then show ?thesis using never_matches_no_target assms(2,5) by blast
next
  case False
  then obtain op0 where op0: "lower_rule E r = Some op0" "fold_op P op0 = FoldNever"
    using assms(6)
    by (cases "lower_rule E r") (auto simp: compile_rule_def Let_def lower_rule.simps fold_op.simps split: if_splits folded.splits)
  have "matches_op E P md op0 = match_metadata E P md r" by (rule lower_exact [OF assms(1,4,2,3) op0(1)])
  then show ?thesis
    using op0 lower_not_sub [OF op0(1)] fold_matches(1) [OF assms(5), of E op0]
    by (simp add: folded_matches_def match_and_resolve_static)
qed

subsection \<open>Equal keys, equal predicates\<close>

lemma resolve_keys_chars:
  assumes "resolve_keys db c = Some keys" and "k \<in> set keys"
  shows "k \<noteq> []" and "CHR '','' \<notin> set c \<Longrightarrow> CHR '','' \<notin> set k"
proof -
  obtain base attrs where ba: "split_category_attrs c = (base, attrs)" by (cases "split_category_attrs c")
  have base: "base \<noteq> []" using assms(1) ba by (auto simp: resolve_keys_def split: if_splits)
  have "map (\<lambda>key. Option.bind (category_key db key) (\<lambda>canon. if bucket_exists db canon then Some canon else None)) (needed_keys c) = map Some keys"
    using assms(1) by (simp add: resolve_keys_needed collect_options_Some split: if_splits)
  then obtain n where n: "n \<in> set (needed_keys c)" "category_key db n = Some k"
    using assms(2) map_eq_list_all2 [of _ "needed_keys c" keys]
    by (fastforce simp: list_all2_conv_all_nth in_set_conv_nth bind_eq_Some_conv split: if_splits)
  have low: "to_ascii_lowercase k = to_ascii_lowercase n" by (rule category_key_eq [OF n(2)])
  have needed: "n = base \<or> (\<exists>a \<in> set attrs. n = base @ ''@'' @ a)"
    using n(1) ba by (auto simp: needed_keys_def split: if_splits)
  then have "n \<noteq> []" using base by auto
  then show "k \<noteq> []" using low by (metis length_0_conv length_to_ascii_lowercase)
  assume c: "CHR '','' \<notin> set c"
  have comma: "CHR '','' \<in> set (to_ascii_lowercase x) \<longleftrightarrow> CHR '','' \<in> set x" for x
  proof -
    have "lower_byte y = CHR '','' \<longleftrightarrow> y = CHR '',''" for y
      by (rule lower_byte_eq_iff_nonletter) (simp add: byte_val_def)
    then show ?thesis unfolding to_ascii_lowercase_def set_map image_iff by metis
  qed
  have piece: "CHR '','' \<notin> set (trim p)" if "p \<in> set (split_on CHR ''@'' (trim c))" for p
    using c set_trim split_on_subset [OF that] by blast
  obtain p ps where ps: "split_on CHR ''@'' (trim c) = p # ps" by (cases "split_on CHR ''@'' (trim c)") auto
  then have b: "base = trim p" "attrs = map to_ascii_lowercase (filter (\<lambda>a. a \<noteq> []) (map trim ps))"
    using ba by (simp_all add: split_category_attrs_def)
  have "CHR '','' \<notin> set base" using b(1) piece ps by simp
  moreover have "CHR '','' \<notin> set a" if "a \<in> set attrs" for a
  proof -
    obtain q where "q \<in> set ps" "a = to_ascii_lowercase (trim q)" using \<open>a \<in> set attrs\<close> b(2) by auto
    then show ?thesis using piece [of q] ps comma by simp
  qed
  moreover have "CHR '','' \<notin> set ''@''" by simp
  ultimately have "CHR '','' \<notin> set n" using needed by (metis Un_iff set_append)
  then have "CHR '','' \<notin> set (to_ascii_lowercase k)" unfolding low comma .
  then show "CHR '','' \<notin> set k" unfolding comma .
qed

lemma range_fingerprint:
  assumes "dedup_fingerprint E p (OpIpRanges s src) = Some fp" "dedup_fingerprint E p' (OpIpRanges s' src') = Some fp"
  shows "arc_ptr s = arc_ptr s'"
proof -
  have "show_ptr (arc_ptr s) @ CHR ''|'' # show_bool src = show_ptr (arc_ptr s') @ CHR ''|'' # show_bool src'"
    using assms by simp
  then show ?thesis using ptr_text_inject by blast
qed

lemma native_dedup:
  assumes "lower_native E r = Some op" "lower_native E r' = Some op'" and "type_of_rule r = type_of_rule r'"
    and "\<not> logic_type (type_of_rule r)" and "arcs_agree r r'" and "clean_payload r" "clean_payload r'"
    and "dedup_fingerprint E (payload r) op = Some fp" "dedup_fingerprint E (payload r') op' = Some fp"
  shows "matches_op E P md op = matches_op E P md op'"
proof (cases r)
  case (GeoSiteRule c pl a db)
  then obtain c' pl' a' db' where r': "r' = GeoSiteRule c' pl' a' db'" using assms(3) by (cases r') (auto split: if_splits)
  obtain d keys d' keys' where k: "db = Some d" "resolve_keys (arc_get d) c = Some keys" "op = OpGeoSite d keys"
    "db' = Some d'" "resolve_keys (arc_get d') c' = Some keys'" "op' = OpGeoSite d' keys'"
    using assms(1,2) GeoSiteRule r' by (auto simp: lower_native.simps bind_eq_Some_conv)
  have eq: "show_ptr (arc_ptr d) @ CHR ''|'' # join_with '','' keys = show_ptr (arc_ptr d') @ CHR ''|'' # join_with '','' keys'"
    using assms(8,9) k by simp
  have "join_with '','' keys = join_with '','' keys'" using ptr_text_inject [OF eq] by blast
  then have "keys = keys'"
    by (rule join_comma_inject) (use resolve_keys_chars k(2,5) assms(6,7) GeoSiteRule r' in \<open>auto simp: clean_payload_def\<close>)
  moreover have "d = d'" using ptr_text_inject [OF eq] assms(5) GeoSiteRule r' k by (simp add: arcs_agree_def)
  ultimately show ?thesis using k by simp
next
  case (RuleSetRule n p s a fl)
  then obtain n' p' s' a' fl' where r': "r' = RuleSetRule n' p' s' a' fl'" using assms(3) by (cases r') (auto split: if_splits)
  then show ?thesis using assms(1,2,5,8,9) RuleSetRule
    by (auto simp: lower_native.simps arcs_agree_def show_ptr_inject split: if_splits)
next
  case (GeoIpRule c a nr s)
  then obtain c' a' nr' s' where r': "r' = GeoIpRule c' a' nr' s'" using assms(3) by (cases r') (auto split: if_splits)
  have op: "op = OpIpRanges s False" "op' = OpIpRanges s' False"
    using assms(1,2) GeoIpRule r' by (simp_all add: lower_native.simps)
  have "arc_ptr s = arc_ptr s'" using range_fingerprint assms(8,9) unfolding op by blast
  then have "s = s'" using assms(5) GeoIpRule r' by (simp add: arcs_agree_def)
  then show ?thesis using op by simp
next
  case (SrcGeoIpRule c a s)
  then obtain c' a' s' where r': "r' = SrcGeoIpRule c' a' s'" using assms(3) by (cases r') (auto split: if_splits)
  have op: "op = OpIpRanges s True" "op' = OpIpRanges s' True"
    using assms(1,2) SrcGeoIpRule r' by (simp_all add: lower_native.simps)
  have "arc_ptr s = arc_ptr s'" using range_fingerprint assms(8,9) unfolding op by blast
  then have "s = s'" using assms(5) SrcGeoIpRule r' by (simp add: arcs_agree_def)
  then show ?thesis using op by simp
next
  case (IpAsnRule raw a s src nr)
  then obtain raw' a' s' src' nr' where r': "r' = IpAsnRule raw' a' s' src' nr'" using assms(3) by (cases r') (auto split: if_splits)
  have same: "src = src'" using assms(3) IpAsnRule r' by (auto split: if_splits)
  have op: "op = OpIpRanges s src" "op' = OpIpRanges s' src"
    using assms(1,2) IpAsnRule r' same by (simp_all add: lower_native.simps)
  have "arc_ptr s = arc_ptr s'" using range_fingerprint assms(8,9) unfolding op by blast
  then have "s = s'" using assms(5) IpAsnRule r' by (simp add: arcs_agree_def)
  then show ?thesis using op by simp
qed (use assms(1,4,8) in \<open>auto simp: lower_native.simps logic_type_def\<close>)

lemma same_key_same_match:
  assumes "lib_ok E" and "ir_ok E P r" "ir_ok E P r'" and "is_ascii (rule_host md)" and "metadata_on P md"
    and "compile_rule E P r = Some (op, d1, d2)" "compile_rule E P r' = Some (op', d1', d2')"
    and "type_of_rule r = type_of_rule r'" and "arcs_agree r r'"
    and "dedup_fingerprint E (payload r) op = Some fp" "dedup_fingerprint E (payload r') op' = Some fp"
  shows "match_metadata E P md r = match_metadata E P md r'"
proof -
  have nf: "op \<noteq> OpFallback" "op' \<noteq> OpFallback" "\<not> logic_op op" "\<not> logic_op op'"
    using assms(10,11) by (auto simp: logic_op_def split: rule_op.splits)
  have m: "matches_op E P md op = match_metadata E P md r" "matches_op E P md op' = match_metadata E P md r'"
    using compile_rule_matches [OF assms(1) _ _ assms(4,5)] assms(2,3,6,7) nf by (auto simp: ir_ok_def)
  note shapes = compile_rule_shape [OF assms(6) _ nf(1)] compile_rule_shape [OF assms(7) _ nf(2)]
  have shape: "logic_type (type_of_rule r) \<and> op = OpMatch \<and> op' = OpMatch \<or>
      \<not> logic_type (type_of_rule r) \<and>
      (compile_op E (type_of_rule r) (payload r) = Some op \<or> lower_native E r = Some op) \<and>
      (compile_op E (type_of_rule r) (payload r') = Some op' \<or> lower_native E r' = Some op')"
    using shapes nf(3,4) assms(2,3,8) by (auto simp: ir_ok_def)
  show ?thesis
  proof (cases "logic_type (type_of_rule r)")
    case True
    then show ?thesis using shape m by auto
  next
    case False
    consider (Compiled) "compile_op E (type_of_rule r) (payload r) = Some op" "compile_op E (type_of_rule r) (payload r') = Some op'"
      | (Native) "lower_native E r = Some op" "lower_native E r' = Some op'"
      using shape False native_not_compiled assms(8) by (metis option.distinct(1))
    then have "matches_op E P md op = matches_op E P md op'"
    proof cases
      case Compiled
      have "is_ascii (payload r) \<and> is_ascii (payload r')" if "type_of_rule r = RtDomainWildcard"
        using that assms(2,3,8) by (cases r; cases r') (auto simp: ir_ok_def split: if_splits)
      then show ?thesis by (rule compile_op_dedup [OF assms(1) Compiled assms(10,11) _ assms(4)])
    next
      case Native
      then show ?thesis
        by (rule native_dedup [OF _ _ assms(8) False assms(9) _ _ assms(10,11)]) (use assms(2,3) in \<open>auto simp: ir_ok_def\<close>)
    qed
    then show ?thesis using m by simp
  qed
qed

subsection \<open>The invariant of the loop\<close>

abbreviation slot_nat :: "compiled_rule_slot \<Rightarrow> nat" where
  "slot_nat slot \<equiv> unat (slot_index slot)"

definition run_ok :: "ext_lib \<Rightarrow> platform \<Rightarrow> metadata \<Rightarrow> rule list \<Rightarrow> bool" where
  "run_ok E P md rules \<longleftrightarrow>
     lib_ok E \<and> is_ascii (rule_host md) \<and> metadata_on P md \<and> list_all (ir_ok E P) rules \<and>
     list_all (\<lambda>r. list_all (arcs_agree r) rules) rules"

text \<open>Some slot with this adapter and a target of its own matches the connection.\<close>

definition static_hit :: "ext_lib \<Rightarrow> platform \<Rightarrow> metadata \<Rightarrow> rule list \<Rightarrow> compiled_rule_slot list \<Rightarrow> nat \<Rightarrow> bool" where
  "static_hit E P md rules ss a \<longleftrightarrow>
     (\<exists>slot \<in> set ss. unat (slot_adapter slot) = a \<and> type_of_rule (rules ! slot_nat slot) \<noteq> RtSubRule \<and>
        match_metadata E P md (rules ! slot_nat slot))"

definition names_ok :: "string list \<Rightarrow> (string \<times> nat) list \<Rightarrow> bool" where
  "names_ok names lookup \<longleftrightarrow>
     distinct names \<and> (\<forall>n k. map_of lookup n = Some k \<longleftrightarrow> k < length names \<and> names ! k = n)"

definition slot_ok :: "ext_lib \<Rightarrow> platform \<Rightarrow> rule list \<Rightarrow> string list \<Rightarrow> compiled_rule_slot \<Rightarrow> bool" where
  "slot_ok E P rules names slot \<longleftrightarrow>
     (let r = rules ! slot_nat slot in
      slot_type slot = type_of_rule r \<and> slot_target slot = target_plan_for (type_of_rule r) \<and>
      compile_rule E P r = Some (slot_op slot, demands_ip slot, demands_process slot) \<and>
      unat (slot_adapter slot) < length names \<and> names ! unat (slot_adapter slot) = adapter r)"

definition slots_ok :: "ext_lib \<Rightarrow> platform \<Rightarrow> rule list \<Rightarrow> string list \<Rightarrow> compiled_rule_slot list \<Rightarrow> nat \<Rightarrow> bool" where
  "slots_ok E P rules names ss i \<longleftrightarrow>
     sorted_wrt (<) (map slot_nat ss) \<and> (\<forall>slot \<in> set ss. slot_nat slot < i \<and> slot_ok E P rules names slot)"

definition covs_ok :: "(nat \<times> cidr_coverage) list \<Rightarrow> ip_addr option \<Rightarrow> (nat \<Rightarrow> bool) \<Rightarrow> bool" where
  "covs_ok covs ip K \<longleftrightarrow>
     (\<forall>a c. map_of covs a = Some c \<longrightarrow> coverage_ok c \<and> (\<forall>x. ip = Some x \<longrightarrow> x \<in> coverage_set c \<longrightarrow> K a))"

text \<open>A recorded key belongs to an earlier rule whose matches are accounted for.\<close>

definition key_ok ::
  "ext_lib \<Rightarrow> platform \<Rightarrow> metadata \<Rightarrow> rule list \<Rightarrow> nat \<Rightarrow> (nat \<Rightarrow> bool) \<Rightarrow> rule_type \<times> bool \<times> bool \<times> string \<times> nat \<Rightarrow> bool" where
  "key_ok E P md rules i K = (\<lambda>(ty, _, _, fp, a).
     \<exists>j op e1 e2. j < i \<and> ty = type_of_rule (rules ! j) \<and> compile_rule E P (rules ! j) = Some (op, e1, e2) \<and>
       dedup_fingerprint E (payload (rules ! j)) op = Some fp \<and> (match_metadata E P md (rules ! j) \<longrightarrow> K a))"

text \<open>A rule without a slot has no target, or the target of an earlier slot that matches.\<close>

definition left_out ::
  "ext_lib \<Rightarrow> platform \<Rightarrow> target_probe \<Rightarrow> metadata \<Rightarrow> rule list \<Rightarrow> compiled_rule_slot list \<Rightarrow> nat \<Rightarrow> bool" where
  "left_out E P pr md rules ss i \<longleftrightarrow>
     (\<forall>j < i. j \<notin> slot_nat ` set ss \<longrightarrow>
        match_and_resolve E P pr md (rules ! j) = None \<or>
        (\<exists>slot \<in> set ss. slot_nat slot < j \<and>
           match_and_resolve E P pr md (rules ! slot_nat slot) = match_and_resolve E P pr md (rules ! j)))"

definition build_inv :: "ext_lib \<Rightarrow> platform \<Rightarrow> target_probe \<Rightarrow> metadata \<Rightarrow> rule list \<Rightarrow> build_state \<Rightarrow> nat \<Rightarrow> bool" where
  "build_inv E P pr md rules st i \<longleftrightarrow>
     (let K = static_hit E P md rules (b_slots st) in
      names_ok (b_adapter_names st) (b_adapter_lookup st) \<and>
      slots_ok E P rules (b_adapter_names st) (b_slots st) i \<and>
      oracle_ok (b_oracle st) (to_ascii_lowercase (rule_host md)) K \<and>
      covs_ok (b_dst_coverage st) (dst_ip md) K \<and> covs_ok (b_src_coverage st) (src_ip md) K \<and>
      list_all (key_ok E P md rules i K) (b_seen_ops st) \<and>
      left_out E P pr md rules (b_slots st) i)"

subsection \<open>The passes\<close>

lemma intern_adapter_ok:
  assumes "names_ok names lookup" and "intern_adapter names lookup n = (a, names', lookup')"
  shows "names_ok names' lookup'" "a < length names'" "names' ! a = n" "\<exists>ext. names' = names @ ext"
proof -
  have "names_ok names' lookup' \<and> a < length names' \<and> names' ! a = n \<and> (\<exists>ext. names' = names @ ext)"
  proof (cases "map_of lookup n")
    case (Some k)
    then show ?thesis using assms by (auto simp: intern_adapter_def names_ok_def)
  next
    case None
    then have e: "a = length names" "names' = names @ [n]" "lookup' = AList.update n (length names) lookup"
      using assms(2) by (auto simp: intern_adapter_def Let_def)
    have new: "n \<notin> set names" using assms(1) None unfolding names_ok_def by (metis in_set_conv_nth option.distinct(1))
    have "map_of lookup' m = Some k \<longleftrightarrow> k < length names' \<and> names' ! k = m" for m k
    proof (cases "m = n")
      case True
      then show ?thesis using e new by (auto simp: update_conv' nth_append less_Suc_eq)
    next
      case False
      then show ?thesis using e assms(1) by (auto simp: update_conv' names_ok_def nth_append less_Suc_eq)
    qed
    then show ?thesis using e new assms(1) by (auto simp: names_ok_def)
  qed
  then show "names_ok names' lookup'" "a < length names'" "names' ! a = n" "\<exists>ext. names' = names @ ext" by auto
qed

lemma slots_ok_mono:
  assumes "slots_ok E P rules names ss i" and "names' = names @ ext" and "i \<le> i'"
  shows "slots_ok E P rules names' ss i'"
  using assms by (fastforce simp: slots_ok_def slot_ok_def Let_def nth_append)

lemma static_hit_mono: "static_hit E P md rules ss a \<Longrightarrow> static_hit E P md rules (ss @ ss') a"
  by (auto simp: static_hit_def)

lemma covs_ok_mono: "covs_ok covs ip K \<Longrightarrow> (\<And>a. K a \<Longrightarrow> K' a) \<Longrightarrow> covs_ok covs ip K'"
  unfolding covs_ok_def by blast

lemma key_ok_mono:
  assumes "key_ok E P md rules i K key" and "\<And>a. K a \<Longrightarrow> K' a" and "i \<le> i'"
  shows "key_ok E P md rules i' K' key"
proof -
  obtain ty d1 d2 fp a where key: "key = (ty, d1, d2, fp, a)" by (cases key)
  then obtain j op e1 e2 where "j < i" "ty = type_of_rule (rules ! j)" "compile_rule E P (rules ! j) = Some (op, e1, e2)"
    "dedup_fingerprint E (payload (rules ! j)) op = Some fp" "match_metadata E P md (rules ! j) \<longrightarrow> K a"
    using assms(1) by (auto simp: key_ok_def)
  moreover have "j < i'" using \<open>j < i\<close> assms(3) by simp
  ultimately show ?thesis unfolding key_ok_def key split using assms(2) by blast
qed

lemma cidr_covered_sound:
  assumes "ipnet_ok E" and "covs_ok covs ip K" and "cidr_covered E covs a net = Some True"
    and "ip = Some x" and "net_contains E net x"
  shows "K a"
  using assms coverage_covers_exact [OF assms(1)]
  by (auto simp: cidr_covered_def covs_ok_def split: option.splits)

lemma cidr_absorb_ok:
  assumes "ipnet_ok E" and "covs_ok covs ip K" and "cidr_absorb E covs a net = Some covs'"
    and "\<And>x. ip = Some x \<Longrightarrow> net_contains E net x \<Longrightarrow> K a"
  shows "covs_ok covs' ip K"
proof -
  let ?c = "case map_of covs a of Some c \<Rightarrow> c | None \<Rightarrow> coverage_new"
  have ok: "coverage_ok ?c" and k: "\<And>x. ip = Some x \<Longrightarrow> x \<in> coverage_set ?c \<Longrightarrow> K a"
    using assms(2) coverage_new_ok unfolding covs_ok_def by (cases "map_of covs a"; simp)+
  obtain c' where c': "coverage_absorb E ?c net = Some c'" "coverage_ok c'"
    "coverage_set c' = coverage_set ?c \<union> {ip. net_contains E net ip}"
    using coverage_absorb_exact [OF assms(1) ok] by blast
  then have "covs' = AList.update a c' covs" using assms(3) by (simp add: cidr_absorb_def)
  then show ?thesis using assms(2,4) c'(2,3) k by (auto simp: covs_ok_def update_conv')
qed

lemma hit_same_target:
  assumes "slots_ok E P rules names ss i" and "static_hit E P md rules ss a" and "names ! a = adapter r"
    and "type_of_rule r \<noteq> RtSubRule" and "match_metadata E P md r"
  shows "\<exists>slot \<in> set ss. slot_nat slot < i \<and>
    match_and_resolve E P pr md (rules ! slot_nat slot) = match_and_resolve E P pr md r"
proof -
  obtain slot where slot: "slot \<in> set ss" "unat (slot_adapter slot) = a" "type_of_rule (rules ! slot_nat slot) \<noteq> RtSubRule"
    "match_metadata E P md (rules ! slot_nat slot)" using assms(2) by (auto simp: static_hit_def)
  then have "slot_nat slot < i" "adapter (rules ! slot_nat slot) = names ! a"
    using assms(1) by (auto simp: slots_ok_def slot_ok_def Let_def)
  then show ?thesis using slot assms(3-5) by (intro bexI [of _ slot]) (simp_all add: match_and_resolve_static)
qed

text \<open>Operations that only compilation from the payload gives.\<close>

definition payload_op :: "rule_op \<Rightarrow> bool" where
  "payload_op op = (case op of OpDomain _ \<Rightarrow> True | OpDomainSuffix _ \<Rightarrow> True | OpDomainKeyword _ \<Rightarrow> True
     | OpDomainWildcard _ \<Rightarrow> True | OpIpCidr _ _ \<Rightarrow> True | _ \<Rightarrow> False)"

lemma payload_opI:
  "absorbed_op op pl \<Longrightarrow> payload_op op" "shadows o1 op pl a \<Longrightarrow> payload_op op" "trie_op op \<Longrightarrow> payload_op op"
  "payload_op (OpIpCidr net src)"
  by (cases op; simp add: payload_op_def trie_op_def)+

lemma payload_op_compiled:
  assumes "compile_rule E P r = Some (op, d1, d2)" and "no_collapse E P r" and "payload_op op"
  shows "compile_op E (type_of_rule r) (payload r) = Some op"
proof -
  have "op \<noteq> OpFallback" "\<not> logic_op op" "op \<noteq> OpMatch" using assms(3) by (auto simp: payload_op_def logic_op_def split: rule_op.splits)
  moreover have "lower_native E r \<noteq> Some op" if "\<not> logic_type (type_of_rule r)"
    using that assms(3) by (cases r) (auto simp: lower_native.simps payload_op_def logic_type_def bind_eq_Some_conv split: if_splits)
  ultimately show ?thesis using compile_rule_shape [OF assms(1,2)] by blast
qed

text \<open>A rule of the run, with what was compiled from it.\<close>

definition compiled_from ::
  "ext_lib \<Rightarrow> platform \<Rightarrow> metadata \<Rightarrow> rule list \<Rightarrow> nat \<Rightarrow> rule_op \<Rightarrow> bool \<Rightarrow> bool \<Rightarrow> bool" where
  "compiled_from E P md rules i op d1 d2 \<longleftrightarrow>
     run_ok E P md rules \<and> i < length rules \<and> compile_rule E P (rules ! i) = Some (op, d1, d2)"

lemma run_okD:
  assumes "run_ok E P md rules" and "i < length rules"
  shows "lib_ok E" "is_ascii (rule_host md)" "metadata_on P md" "ir_ok E P (rules ! i)"
    "j < length rules \<Longrightarrow> arcs_agree (rules ! i) (rules ! j)" "ipnet_ok E"
  using assms by (auto simp: run_ok_def list_all_length lib_ok_def)

lemma compiled_match:
  assumes "compiled_from E P md rules i op d1 d2" and "op \<noteq> OpFallback"
  shows "type_of_rule (rules ! i) \<noteq> RtSubRule" "matches_op E P md op = match_metadata E P md (rules ! i)"
proof -
  have c: "run_ok E P md rules" "i < length rules" "compile_rule E P (rules ! i) = Some (op, d1, d2)"
    using assms(1) by (auto simp: compiled_from_def)
  have "wf_rule E (rules ! i)" "plain_wildcards (rules ! i)" using run_okD(4) [OF c(1,2)] by (auto simp: ir_ok_def)
  then show "type_of_rule (rules ! i) \<noteq> RtSubRule" "matches_op E P md op = match_metadata E P md (rules ! i)"
    using compile_rule_matches [OF run_okD(1) [OF c(1,2)] _ _ run_okD(2,3) [OF c(1,2)] c(3) assms(2)] by blast+
qed

lemma compiled_payload_op:
  assumes "compiled_from E P md rules i op d1 d2" and "payload_op op"
  shows "compile_op E (type_of_rule (rules ! i)) (payload (rules ! i)) = Some op" and "op \<noteq> OpFallback"
  using payload_op_compiled [OF _ _ assms(2)] assms run_okD(4)
  by (auto simp: compiled_from_def ir_ok_def payload_op_def)

lemma dedup_hit:
  assumes "compiled_from E P md rules i op d1 d2" and "dedup_fingerprint E (payload (rules ! i)) op = Some fp"
    and "key_ok E P md rules i K (type_of_rule (rules ! i), d1, d2, fp, a)" and "match_metadata E P md (rules ! i)"
  shows "K a"
proof -
  obtain j op' e1 e2 where j: "j < i" "type_of_rule (rules ! i) = type_of_rule (rules ! j)"
    "compile_rule E P (rules ! j) = Some (op', e1, e2)" "dedup_fingerprint E (payload (rules ! j)) op' = Some fp"
    "match_metadata E P md (rules ! j) \<longrightarrow> K a"
    using assms(3) by (auto simp: key_ok_def)
  have i: "run_ok E P md rules" "i < length rules" "compile_rule E P (rules ! i) = Some (op, d1, d2)" "j < length rules"
    using assms(1) j(1) by (auto simp: compiled_from_def)
  note ok = run_okD [OF i(1,2)] run_okD [OF i(1,4)]
  have "match_metadata E P md (rules ! i) = match_metadata E P md (rules ! j)"
    by (rule same_key_same_match [OF ok(1,4) ok(10,2,3) i(3) j(3,2) ok(5) assms(2) j(4)]) (rule i(4))
  then show ?thesis using j(5) assms(4) by simp
qed

lemma shadow_hit:
  assumes "compiled_from E P md rules i op d1 d2" and "oracle_ok o1 (to_ascii_lowercase (rule_host md)) K"
    and "shadows o1 op (payload (rules ! i)) a" and "match_metadata E P md (rules ! i)"
  shows "K a"
proof -
  note c = compiled_payload_op [OF assms(1) payload_opI(2) [OF assms(3)]]
  have "matches_op E P md op" using compiled_match(2) [OF assms(1) c(2)] assms(4) by simp
  then show ?thesis using shadows_sound [OF assms(2,3)] compiled_hosts(1) [OF c(1)] by blast
qed

lemma absorb_inv:
  assumes "compiled_from E P md rules i op d1 d2" and "oracle_ok o1 (to_ascii_lowercase (rule_host md)) K"
    and "match_metadata E P md (rules ! i) \<Longrightarrow> type_of_rule (rules ! i) \<noteq> RtSubRule \<Longrightarrow> K a"
  shows "oracle_ok (absorb o1 op (payload (rules ! i)) a) (to_ascii_lowercase (rule_host md)) K"
proof (rule absorb_ok [OF assms(2)])
  assume "absorbed_op op (payload (rules ! i))" "op_hosts op (payload (rules ! i)) (to_ascii_lowercase (rule_host md))"
  moreover note c = compiled_payload_op [OF assms(1) payload_opI(1) [OF this(1)]]
  ultimately show "K a" using compiled_hosts(2) [OF c(1)] compiled_match [OF assms(1) c(2)] assms(3) by blast
qed

lemma cidr_hit:
  assumes "compiled_from E P md rules i (OpIpCidr net src) d1 d2" and "match_metadata E P md (rules ! i)"
  shows "\<exists>x. side_ip src md = Some x \<and> net_contains E net x"
  using compiled_match(2) [OF assms(1)] assms(2) by (auto simp: is_some_and_iff)

text \<open>How a step of the loop ends.\<close>

lemma build_step_cases:
  assumes "build_step E P st i r = Some (st', stop)"
  obtains
    (Never) "compile_rule E P r = None" "st' = st" "\<not> stop"
  | (Pruned) op d1 d2 a names lookup st1 where
      "compile_rule E P r = Some (op, d1, d2)"
      "intern_adapter (b_adapter_names st) (b_adapter_lookup st) (adapter r) = (a, names, lookup)"
      "st1 = st\<lparr>b_adapter_names := names, b_adapter_lookup := lookup\<rparr>"
      "st' = snd (dedup_pass E st1 r op d1 d2 a)"
      "fst (dedup_pass E st1 r op d1 d2 a) \<or> shadows (b_oracle st) op (payload r) a" "\<not> stop"
  | (Later) op d1 d2 a names lookup st1 st2 st3 covered where
      "compile_rule E P r = Some (op, d1, d2)"
      "intern_adapter (b_adapter_names st) (b_adapter_lookup st) (adapter r) = (a, names, lookup)"
      "st1 = st\<lparr>b_adapter_names := names, b_adapter_lookup := lookup\<rparr>"
      "dedup_pass E st1 r op d1 d2 a = (False, st2)" "\<not> shadows (b_oracle st) op (payload r) a"
      "cidr_pass E (st2\<lparr>b_oracle := absorb (b_oracle st) op (payload r) a\<rparr>) op d1 a = Some (covered, st3)"
      "if covered then st' = st3 \<and> \<not> stop
       else push_slot st3 i r op d1 d2 a = Some st' \<and> stop = (op = OpMatch \<and> adapter r = ''DIRECT'')"
proof (cases "compile_rule E P r")
  case None
  then show ?thesis using that(1) assms by (simp add: build_step_def)
next
  case (Some c)
  obtain op d1 d2 where c: "c = (op, d1, d2)" by (cases c)
  obtain a names lookup where ia: "intern_adapter (b_adapter_names st) (b_adapter_lookup st) (adapter r) = (a, names, lookup)"
    by (cases "intern_adapter (b_adapter_names st) (b_adapter_lookup st) (adapter r)")
  define st1 where "st1 = st\<lparr>b_adapter_names := names, b_adapter_lookup := lookup\<rparr>"
  obtain dup st2 where dp: "dedup_pass E st1 r op d1 d2 a = (dup, st2)" by (cases "dedup_pass E st1 r op d1 d2 a")
  have orc: "b_oracle st2 = b_oracle st"
    using dp by (auto simp: dedup_pass_def st1_def Let_def split: option.splits if_splits)
  note step = assms [unfolded build_step_def Some c option.case prod.case ia Let_def, folded st1_def, unfolded dp prod.case]
  consider (A) "dup \<or> shadows (b_oracle st) op (payload r) a" | (B) "\<not> dup" "\<not> shadows (b_oracle st) op (payload r) a" by blast
  then show ?thesis
  proof cases
    case A
    have "st' = st2 \<and> \<not> stop" using step A orc by (auto simp: shadow_pass_def split: if_splits)
    then show ?thesis using that(2) [of op d1 d2 a names lookup st1] Some c ia st1_def dp A by simp
  next
    case B
    let ?st = "st2\<lparr>b_oracle := absorb (b_oracle st) op (payload r) a\<rparr>"
    have "Option.bind (cidr_pass E ?st op d1 a) (\<lambda>(covered, st).
        if covered then Some (st, False)
        else map_option (\<lambda>st. (st, op = OpMatch \<and> adapter r = ''DIRECT'')) (push_slot st i r op d1 d2 a)) = Some (st', stop)"
      using step B orc by (simp add: shadow_pass_def)
    then obtain covered st3 where cp: "cidr_pass E ?st op d1 a = Some (covered, st3)"
      "(if covered then Some (st3, False)
        else map_option (\<lambda>st. (st, op = OpMatch \<and> adapter r = ''DIRECT'')) (push_slot st3 i r op d1 d2 a)) = Some (st', stop)"
      unfolding bind_eq_Some_conv by auto
    have fin: "if covered then st' = st3 \<and> \<not> stop
       else push_slot st3 i r op d1 d2 a = Some st' \<and> stop = (op = OpMatch \<and> adapter r = ''DIRECT'')"
      using cp(2) by (cases covered) auto
    show ?thesis using that(3) [OF _ ia st1_def _ B(2) cp(1) fin] Some c dp B(1) by simp
  qed
qed

lemma dedup_pass_cases:
  assumes "dedup_pass E st r op d1 d2 a = (dup, st')"
  shows "b_slots st' = b_slots st" "b_adapter_names st' = b_adapter_names st" "b_adapter_lookup st' = b_adapter_lookup st"
    "b_oracle st' = b_oracle st" "b_dst_coverage st' = b_dst_coverage st" "b_src_coverage st' = b_src_coverage st"
    "dup \<Longrightarrow> \<exists>fp. dedup_fingerprint E (payload r) op = Some fp \<and> (type_of_rule r, d1, d2, fp, a) \<in> set (b_seen_ops st)"
    "\<And>key. key \<in> set (b_seen_ops st') \<Longrightarrow> key \<in> set (b_seen_ops st) \<or>
       (\<exists>fp. dedup_fingerprint E (payload r) op = Some fp \<and> key = (type_of_rule r, d1, d2, fp, a))"
  using assms by (auto simp: dedup_pass_def Let_def split: option.splits if_splits)

text \<open>The invariant after a step, from what the step did to each part of the state.\<close>

lemma inv_next:
  assumes inv: "build_inv E P pr md rules st i"
    and names: "names_ok (b_adapter_names st') (b_adapter_lookup st')" "b_adapter_names st' = b_adapter_names st @ ext"
    and slots: "b_slots st' = b_slots st @ new" "\<And>slot. slot \<in> set new \<Longrightarrow> slot_nat slot = i \<and> slot_ok E P rules (b_adapter_names st') slot"
      "length new \<le> 1"
    and parts: "oracle_ok (b_oracle st') (to_ascii_lowercase (rule_host md)) (static_hit E P md rules (b_slots st'))"
      "covs_ok (b_dst_coverage st') (dst_ip md) (static_hit E P md rules (b_slots st'))"
      "covs_ok (b_src_coverage st') (src_ip md) (static_hit E P md rules (b_slots st'))"
      "\<And>key. key \<in> set (b_seen_ops st') \<Longrightarrow> key \<in> set (b_seen_ops st) \<or>
         key_ok E P md rules (i + 1) (static_hit E P md rules (b_slots st')) key"
    and left: "new = [] \<Longrightarrow> match_and_resolve E P pr md (rules ! i) = None \<or> (\<exists>slot \<in> set (b_slots st). slot_nat slot < i \<and>
      match_and_resolve E P pr md (rules ! slot_nat slot) = match_and_resolve E P pr md (rules ! i))"
  shows "build_inv E P pr md rules st' (i + 1)"
proof -
  let ?K = "static_hit E P md rules (b_slots st)" and ?K' = "static_hit E P md rules (b_slots st')"
  have old: "slots_ok E P rules (b_adapter_names st) (b_slots st) i" "list_all (key_ok E P md rules i ?K) (b_seen_ops st)"
    "left_out E P pr md rules (b_slots st) i"
    using inv by (simp_all add: build_inv_def Let_def)
  have grow: "?K' a" if "?K a" for a using that static_hit_mono slots(1) by metis
  have so: "slots_ok E P rules (b_adapter_names st') (b_slots st) (i + 1)"
    by (rule slots_ok_mono [OF old(1) names(2)]) simp
  have before: "slot_nat slot < i" if "slot \<in> set (b_slots st)" for slot using old(1) that by (auto simp: slots_ok_def)
  have "sorted_wrt (<) (map slot_nat (b_slots st @ new))"
    using so before slots(2,3) by (cases new) (auto simp: slots_ok_def sorted_wrt_append)
  then have "slots_ok E P rules (b_adapter_names st') (b_slots st') (i + 1)"
    using so slots(1,2) by (auto simp: slots_ok_def)
  moreover have "list_all (key_ok E P md rules (i + 1) ?K') (b_seen_ops st')"
  proof -
    have "key_ok E P md rules (i + 1) ?K' key" if "key \<in> set (b_seen_ops st)" for key
      by (rule key_ok_mono [of E P md rules i ?K]) (use old(2) that grow in \<open>auto simp: list_all_iff\<close>)
    then show ?thesis using parts(4) unfolding list_all_iff by blast
  qed
  moreover have "left_out E P pr md rules (b_slots st') (i + 1)"
    unfolding left_out_def
  proof (intro allI impI)
    fix j
    assume j: "j < i + 1" "j \<notin> slot_nat ` set (b_slots st')"
    show "match_and_resolve E P pr md (rules ! j) = None \<or> (\<exists>slot \<in> set (b_slots st'). slot_nat slot < j \<and>
        match_and_resolve E P pr md (rules ! slot_nat slot) = match_and_resolve E P pr md (rules ! j))"
    proof (cases "j < i")
      case True
      then show ?thesis using old(3) j(2) slots(1) by (auto simp: left_out_def)
    next
      case False
      then have "j = i" using j(1) by simp
      moreover from this have "new = []" using j(2) slots(1,2) by (cases new) auto
      ultimately show ?thesis using left slots(1) by auto
    qed
  qed
  ultimately show ?thesis using names(1) parts(1-3) by (simp add: build_inv_def Let_def)
qed

lemma key_of_rule:
  assumes "compiled_from E P md rules i op d1 d2" and "match_metadata E P md (rules ! i) \<longrightarrow> K a"
    and "dedup_fingerprint E (payload (rules ! i)) op = Some fp"
  shows "key_ok E P md rules (i + 1) K (type_of_rule (rules ! i), e1, e2, fp, a)"
  unfolding key_ok_def split using assms by (auto simp: compiled_from_def)

lemma fingerprint_not_fallback: "dedup_fingerprint E pl op = Some fp \<Longrightarrow> op \<noteq> OpFallback"
  by auto

lemma pruned_inv:
  assumes run: "run_ok E P md rules" "i < length rules" and inv: "build_inv E P pr md rules st i"
    and step: "compile_rule E P (rules ! i) = Some (op, d1, d2)"
      "intern_adapter (b_adapter_names st) (b_adapter_lookup st) (adapter (rules ! i)) = (a, names, lookup)"
      "st1 = st\<lparr>b_adapter_names := names, b_adapter_lookup := lookup\<rparr>"
      "st' = snd (dedup_pass E st1 (rules ! i) op d1 d2 a)"
      "fst (dedup_pass E st1 (rules ! i) op d1 d2 a) \<or> shadows (b_oracle st) op (payload (rules ! i)) a"
  shows "build_inv E P pr md rules st' (i + 1)"
proof -
  let ?K = "static_hit E P md rules (b_slots st)"
  obtain dup where dp: "dedup_pass E st1 (rules ! i) op d1 d2 a = (dup, st')" using step(4) by (metis prod.collapse)
  note d = dedup_pass_cases [OF dp]
  have cf: "compiled_from E P md rules i op d1 d2" using run step(1) by (simp add: compiled_from_def)
  have inv': "names_ok (b_adapter_names st) (b_adapter_lookup st)" "slots_ok E P rules (b_adapter_names st) (b_slots st) i"
    "oracle_ok (b_oracle st) (to_ascii_lowercase (rule_host md)) ?K" "covs_ok (b_dst_coverage st) (dst_ip md) ?K"
    "covs_ok (b_src_coverage st) (src_ip md) ?K" "list_all (key_ok E P md rules i ?K) (b_seen_ops st)"
    using inv by (simp_all add: build_inv_def Let_def)
  note ia = intern_adapter_ok [OF inv'(1) step(2)]
  obtain ext where ext: "names = b_adapter_names st @ ext" using ia(4) by blast
  have nf: "op \<noteq> OpFallback" using step(5) d(7) dp by auto
  have hit: "match_metadata E P md (rules ! i) \<longrightarrow> ?K a"
  proof
    assume m: "match_metadata E P md (rules ! i)"
    show "?K a"
    proof (cases dup)
      case True
      then obtain fp where fp: "dedup_fingerprint E (payload (rules ! i)) op = Some fp"
        "(type_of_rule (rules ! i), d1, d2, fp, a) \<in> set (b_seen_ops st)" using d(7) step(3) by auto
      then have "key_ok E P md rules i ?K (type_of_rule (rules ! i), d1, d2, fp, a)" using inv'(6) by (simp only: list_all_iff)
      then show ?thesis using dedup_hit [OF cf fp(1) _ m] by blast
    next
      case False
      then show ?thesis using step(5) dp shadow_hit [OF cf inv'(3) _ m] by simp
    qed
  qed
  have so: "slots_ok E P rules names (b_slots st) i" by (rule slots_ok_mono [OF inv'(2) ext]) simp
  show ?thesis
  proof (rule inv_next [OF inv, where new = "[]" and ext = ext])
    show "key \<in> set (b_seen_ops st) \<or> key_ok E P md rules (i + 1) (static_hit E P md rules (b_slots st')) key"
      if "key \<in> set (b_seen_ops st')" for key
      using d(8) [OF that] key_of_rule [where K = ?K, OF cf hit] step(3) d(1) by auto
    show "match_and_resolve E P pr md (rules ! i) = None \<or> (\<exists>slot \<in> set (b_slots st). slot_nat slot < i \<and>
        match_and_resolve E P pr md (rules ! slot_nat slot) = match_and_resolve E P pr md (rules ! i))"
    proof (cases "match_metadata E P md (rules ! i)")
      case True
      then show ?thesis using hit_same_target [OF so _ ia(3) compiled_match(1) [OF cf nf]] hit by blast
    next
      case False
      then show ?thesis using compiled_match(1) [OF cf nf] by (simp add: match_and_resolve_static)
    qed
  qed (use d step(3) ia(1) ext inv' in auto)
qed

lemma cidr_pass_cases:
  assumes "cidr_pass E st op d a = Some (covered, st')"
  shows "b_slots st' = b_slots st" "b_adapter_names st' = b_adapter_names st" "b_adapter_lookup st' = b_adapter_lookup st"
    "b_oracle st' = b_oracle st" "b_seen_ops st' = b_seen_ops st"
    "covered \<Longrightarrow> \<exists>net src. op = OpIpCidr net src \<and>
       cidr_covered E (if src then b_src_coverage st else b_dst_coverage st) a net = Some True"
  using assms
  by (auto simp: cidr_pass_def Let_def bind_eq_Some_conv split: rule_op.splits if_splits)

lemma cidr_pass_covs:
  assumes "cidr_pass E st op d a = Some (covered, st')" and "ipnet_ok E"
    and "covs_ok (b_dst_coverage st) (dst_ip md) K" "covs_ok (b_src_coverage st) (src_ip md) K"
    and "\<And>net src x. op = OpIpCidr net src \<Longrightarrow> side_ip src md = Some x \<Longrightarrow> net_contains E net x \<Longrightarrow> K a"
  shows "covs_ok (b_dst_coverage st') (dst_ip md) K" "covs_ok (b_src_coverage st') (src_ip md) K"
proof -
  have "covs_ok (b_dst_coverage st') (dst_ip md) K \<and> covs_ok (b_src_coverage st') (src_ip md) K"
  proof (cases "\<exists>net src. op = OpIpCidr net src \<and> \<not> covered")
    case True
    then obtain net src where op: "op = OpIpCidr net src" "\<not> covered" by blast
    obtain covs where c: "cidr_absorb E (if src then b_src_coverage st else b_dst_coverage st) a net = Some covs"
      "st' = (if src then st\<lparr>b_src_coverage := covs\<rparr> else st\<lparr>b_dst_coverage := covs\<rparr>)"
      using assms(1) op by (auto simp: cidr_pass_def Let_def bind_eq_Some_conv split: if_splits)
    have "covs_ok covs (side_ip src md) K"
      by (rule cidr_absorb_ok [OF assms(2) _ c(1)]) (use assms(3-5) op in \<open>auto simp: side_ip_def\<close>)
    then show ?thesis using c(2) assms(3,4) by (auto simp: side_ip_def)
  next
    case False
    then have "st' = st" using assms(1)
      by (auto simp: cidr_pass_def Let_def bind_eq_Some_conv split: rule_op.splits if_splits)
    then show ?thesis using assms(3,4) by simp
  qed
  then show "covs_ok (b_dst_coverage st') (dst_ip md) K" "covs_ok (b_src_coverage st') (src_ip md) K" by auto
qed

lemma push_slot_cases:
  assumes "push_slot st i r op d1 d2 a = Some st'"
  obtains slot where "b_slots st' = b_slots st @ [slot]" "slot_nat slot = i" "unat (slot_adapter slot) = a"
    "slot_type slot = type_of_rule r" "slot_target slot = target_plan_for (type_of_rule r)"
    "slot_op slot = op" "demands_ip slot = d1" "demands_process slot = d2"
    "b_adapter_names st' = b_adapter_names st" "b_adapter_lookup st' = b_adapter_lookup st" "b_oracle st' = b_oracle st"
    "b_seen_ops st' = b_seen_ops st" "b_dst_coverage st' = b_dst_coverage st" "b_src_coverage st' = b_src_coverage st"
proof -
  have "i < 2 ^ 32" "a < 2 ^ 32" using assms by (auto simp: push_slot_def split: if_splits)
  then have "unat (word_of_nat i :: 32 word) = i" "unat (word_of_nat a :: 32 word) = a"
    by (simp_all add: unsigned_of_nat take_bit_nat_eq_self)
  then show ?thesis using assms
    by (intro that [of "last (b_slots st')"]) (auto simp: push_slot_def split: if_splits)
qed

lemma later_inv:
  assumes run: "run_ok E P md rules" "i < length rules" and inv: "build_inv E P pr md rules st i"
    and step: "compile_rule E P (rules ! i) = Some (op, d1, d2)"
      "intern_adapter (b_adapter_names st) (b_adapter_lookup st) (adapter (rules ! i)) = (a, names, lookup)"
      "st1 = st\<lparr>b_adapter_names := names, b_adapter_lookup := lookup\<rparr>"
      "dedup_pass E st1 (rules ! i) op d1 d2 a = (False, st2)"
      "cidr_pass E (st2\<lparr>b_oracle := absorb (b_oracle st) op (payload (rules ! i)) a\<rparr>) op d1 a = Some (covered, st3)"
      "if covered then st' = st3 else push_slot st3 i (rules ! i) op d1 d2 a = Some st'"
  shows "build_inv E P pr md rules st' (i + 1)" and "\<not> covered \<Longrightarrow> i \<in> slot_nat ` set (b_slots st')"
proof -
  let ?r = "rules ! i" and ?K = "static_hit E P md rules (b_slots st)" and ?K' = "static_hit E P md rules (b_slots st')"
  note d = dedup_pass_cases [OF step(4)] and c = cidr_pass_cases [OF step(5)]
  have cf: "compiled_from E P md rules i op d1 d2" using run step(1) by (simp add: compiled_from_def)
  have inv': "names_ok (b_adapter_names st) (b_adapter_lookup st)" "slots_ok E P rules (b_adapter_names st) (b_slots st) i"
    "oracle_ok (b_oracle st) (to_ascii_lowercase (rule_host md)) ?K" "covs_ok (b_dst_coverage st) (dst_ip md) ?K"
    "covs_ok (b_src_coverage st) (src_ip md) ?K" "list_all (key_ok E P md rules i ?K) (b_seen_ops st)"
    using inv by (simp_all add: build_inv_def Let_def)
  note ia = intern_adapter_ok [OF inv'(1) step(2)]
  obtain ext where ext: "names = b_adapter_names st @ ext" using ia(4) by blast
  have slots3: "b_slots st3 = b_slots st" using c(1) d(1) step(3) by simp
  obtain new where new: "b_slots st' = b_slots st @ new" "length new \<le> 1" "new = [] \<longleftrightarrow> covered"
    "\<And>slot. slot \<in> set new \<Longrightarrow> slot_nat slot = i \<and> unat (slot_adapter slot) = a \<and> slot_ok E P rules names slot"
    and same: "b_adapter_names st' = b_adapter_names st3" "b_adapter_lookup st' = b_adapter_lookup st3"
      "b_oracle st' = b_oracle st3" "b_seen_ops st' = b_seen_ops st3" "b_dst_coverage st' = b_dst_coverage st3"
      "b_src_coverage st' = b_src_coverage st3"
  proof (cases covered)
    case True
    then show ?thesis using that [of "[]"] step(6) slots3 by simp
  next
    case False
    then have ps: "push_slot st3 i ?r op d1 d2 a = Some st'" using step(6) by simp
    obtain slot where s: "b_slots st' = b_slots st3 @ [slot]" "slot_nat slot = i" "unat (slot_adapter slot) = a"
      "slot_type slot = type_of_rule ?r" "slot_target slot = target_plan_for (type_of_rule ?r)"
      "slot_op slot = op" "demands_ip slot = d1" "demands_process slot = d2"
      "b_adapter_names st' = b_adapter_names st3" "b_adapter_lookup st' = b_adapter_lookup st3" "b_oracle st' = b_oracle st3"
      "b_seen_ops st' = b_seen_ops st3" "b_dst_coverage st' = b_dst_coverage st3" "b_src_coverage st' = b_src_coverage st3"
      by (rule push_slot_cases [OF ps])
    then show ?thesis using that [of "[slot]"] slots3 step(1) ia(2,3) False by (simp add: slot_ok_def Let_def)
  qed
  have grow: "?K' b" if "?K b" for b using that static_hit_mono new(1) by metis
  have hit: "?K' a" if m: "match_metadata E P md ?r" "type_of_rule ?r \<noteq> RtSubRule"
  proof (cases covered)
    case True
    then obtain net src where ic: "op = OpIpCidr net src"
      "cidr_covered E (if src then b_src_coverage st else b_dst_coverage st) a net = Some True"
      using c(6) d(5,6) step(3) by (auto cong: if_cong)
    obtain x where x: "side_ip src md = Some x" "net_contains E net x" using cidr_hit [of E P md rules i] cf m(1) unfolding ic(1) by blast
    have "covs_ok (if src then b_src_coverage st else b_dst_coverage st) (side_ip src md) ?K"
      using inv'(4,5) by (simp add: side_ip_def)
    then have "?K a" using cidr_covered_sound [OF run_okD(6) [OF run] _ ic(2) x] by blast
    then show ?thesis by (rule grow)
  next
    case False
    then obtain slot where "slot \<in> set new" using new(3) by (cases new) auto
    then show ?thesis using new(1,4) m by (auto simp: static_hit_def)
  qed
  show "build_inv E P pr md rules st' (i + 1)"
  proof (rule inv_next [OF inv, where new = new and ext = ext])
    show "oracle_ok (b_oracle st') (to_ascii_lowercase (rule_host md)) ?K'"
      using absorb_inv [OF cf oracle_ok_mono [OF inv'(3) grow]] hit same(3) c(4) by simp
    have h: "?K' a" if "op = OpIpCidr net src" "side_ip src md = Some x" "net_contains E net x" for net src x
      using compiled_match [OF cf] hit that by (auto simp: is_some_and_iff)
    note covs = cidr_pass_covs [OF step(5) run_okD(6) [OF run], of md ?K']
    show "covs_ok (b_dst_coverage st') (dst_ip md) ?K'" "covs_ok (b_src_coverage st') (src_ip md) ?K'"
      using covs covs_ok_mono [OF inv'(4) grow] covs_ok_mono [OF inv'(5) grow] h d(5,6) step(3) same by auto
    show "key \<in> set (b_seen_ops st) \<or> key_ok E P md rules (i + 1) ?K' key" if k: "key \<in> set (b_seen_ops st')" for key
    proof (cases "key \<in> set (b_seen_ops st)")
      case False
      then obtain fp where fp: "dedup_fingerprint E (payload ?r) op = Some fp" "key = (type_of_rule ?r, d1, d2, fp, a)"
        using d(8) [of key] k same(4) c(5) step(3) by auto
      have "match_metadata E P md ?r \<longrightarrow> ?K' a"
        using hit compiled_match(1) [OF cf fingerprint_not_fallback [OF fp(1)]] by blast
      then show ?thesis using key_of_rule [where K = ?K', OF cf _ fp(1)] fp(2) by simp
    qed simp
    show "match_and_resolve E P pr md ?r = None \<or> (\<exists>slot \<in> set (b_slots st). slot_nat slot < i \<and>
        match_and_resolve E P pr md (rules ! slot_nat slot) = match_and_resolve E P pr md ?r)" if n: "new = []"
    proof -
      have "covered" using n new(3) by simp
      then have st: "type_of_rule ?r \<noteq> RtSubRule" using c(6) compiled_match(1) [OF cf] by auto
      have so: "slots_ok E P rules names (b_slots st) i" by (rule slots_ok_mono [OF inv'(2) ext]) simp
      show ?thesis
        using hit_same_target [OF so _ ia(3) st] hit [OF _ st] n new(1) st
        by (cases "match_metadata E P md ?r") (auto simp: match_and_resolve_static)
    qed
  qed (use same c d step(3) ia(1) ext new in auto)
  show "\<not> covered \<Longrightarrow> i \<in> slot_nat ` set (b_slots st')"
    using new by (cases new) force+
qed

lemma step_inv:
  assumes "run_ok E P md rules" "i < length rules" and "build_inv E P pr md rules st i"
    and "build_step E P st i (rules ! i) = Some (st', stop)"
  shows "build_inv E P pr md rules st' (i + 1) \<and>
    (stop \<longrightarrow> i \<in> slot_nat ` set (b_slots st') \<and> match_and_resolve E P pr md (rules ! i) = Some ''DIRECT'')"
  using assms(4)
proof (cases rule: build_step_cases)
  case Never
  have "wf_rule E (rules ! i)" "plain_wildcards (rules ! i)" using run_okD(4) [OF assms(1,2)] by (auto simp: ir_ok_def)
  then have "match_and_resolve E P pr md (rules ! i) = None"
    using compile_rule_never [OF run_okD(1) [OF assms(1,2)] _ _ run_okD(2,3) [OF assms(1,2)] Never(1)] by blast
  moreover have "build_inv E P pr md rules st (i + 1)"
    by (rule inv_next [OF assms(3), where new = "[]" and ext = "[]"]) (use assms(3) calculation in \<open>auto simp: build_inv_def Let_def\<close>)
  ultimately show ?thesis using Never by simp
next
  case (Pruned op d1 d2 a names lookup st1)
  then show ?thesis using pruned_inv [OF assms(1-3)] by blast
next
  case (Later op d1 d2 a names lookup st1 st2 st3 covered)
  have fin: "if covered then st' = st3 else push_slot st3 i (rules ! i) op d1 d2 a = Some st'" using Later(7) by (auto split: if_splits)
  note l = later_inv [OF assms(1-3) Later(1-4,6) fin]
  have "match_and_resolve E P pr md (rules ! i) = Some ''DIRECT''" if "stop"
  proof -
    have "op = OpMatch" "adapter (rules ! i) = ''DIRECT''" using that Later(7) by (auto split: if_splits)
    moreover have "compiled_from E P md rules i op d1 d2" using assms(1,2) Later(1) by (simp add: compiled_from_def)
    ultimately show ?thesis using compiled_match [of E P md rules i op d1 d2] by (simp add: match_and_resolve_static)
  qed
  moreover have "stop \<longrightarrow> \<not> covered" using Later(7) by (auto split: if_splits)
  ultimately show ?thesis using l by blast
qed

subsection \<open>The whole loop\<close>

lemma init_inv: "build_inv E P pr md rules build_init 0"
  by (auto simp: build_inv_def build_init_def Let_def names_ok_def slots_ok_def oracle_default_ok covs_ok_def left_out_def)

lemma loop_inv:
  assumes "run_ok E P md rules" and "build_inv E P pr md rules st i" and "i \<le> length rules"
    and "build_loop E P st i (drop i rules) = Some st'"
  shows "\<exists>n \<le> length rules. build_inv E P pr md rules st' n \<and>
    (n = length rules \<or> (\<exists>k \<in> slot_nat ` set (b_slots st'). k < n \<and> match_and_resolve E P pr md (rules ! k) = Some ''DIRECT''))"
  using assms(2-4)
proof (induction "length rules - i" arbitrary: st i)
  case 0
  then show ?case by (intro exI [of _ i]) simp
next
  case (Suc k)
  then have i: "i < length rules" by simp
  then have d: "drop i rules = rules ! i # drop (i + 1) rules" by (simp add: Cons_nth_drop_Suc)
  obtain st1 stop where s: "build_step E P st i (rules ! i) = Some (st1, stop)"
    "(if stop then Some st1 else build_loop E P st1 (i + 1) (drop (i + 1) rules)) = Some st'"
    using Suc.prems(3) unfolding d by (auto simp: bind_eq_Some_conv simp del: One_nat_def)
  note inv = step_inv [OF assms(1) i Suc.prems(1) s(1)]
  show ?case
  proof (cases stop)
    case True
    then have "st1 = st'" using s(2) by simp
    then show ?thesis using inv True i by (intro exI [of _ "i + 1"]) auto
  next
    case False
    then show ?thesis using Suc.hyps(1) [of "i + 1" st1] Suc.hyps(2) inv s(2) i by simp
  qed
qed

subsection \<open>The first usable match\<close>

definition usable :: "ext_lib \<Rightarrow> platform \<Rightarrow> target_probe \<Rightarrow> metadata \<Rightarrow> rule \<Rightarrow> bool" where
  "usable E P pr md r \<longleftrightarrow> (\<exists>a. match_and_resolve E P pr md r = Some a \<and> check pr a = Usable)"

definition rule_result :: "ext_lib \<Rightarrow> platform \<Rightarrow> target_probe \<Rightarrow> metadata \<Rightarrow> rule \<Rightarrow> match_result" where
  "rule_result E P pr md r =
     \<lparr>adapter_name = the (match_and_resolve E P pr md r), result_type = type_of_rule r, result_payload = payload r\<rparr>"

lemma first_match_Cons:
  "first_match E P pr md (r # rs) =
     (if usable E P pr md r then Some (rule_result E P pr md r) else first_match E P pr md rs)"
  by (auto simp: usable_def rule_result_def split: option.split target_check.split)

lemma first_match_none: "first_match E P pr md rs = None \<longleftrightarrow> (\<forall>r \<in> set rs. \<not> usable E P pr md r)"
  by (induction rs) (auto simp: first_match_Cons simp del: first_match.simps(2))

lemma first_match_at:
  assumes "j < length rs" and "usable E P pr md (rs ! j)" and "\<And>k. k < j \<Longrightarrow> \<not> usable E P pr md (rs ! k)"
  shows "first_match E P pr md rs = Some (rule_result E P pr md (rs ! j))"
  using assms
proof (induction rs arbitrary: j)
  case (Cons r rs)
  show ?case
  proof (cases j)
    case 0
    then show ?thesis using Cons.prems(2) by (simp add: first_match_Cons del: first_match.simps(2))
  next
    case (Suc i)
    have "\<not> usable E P pr md r" using Cons.prems(3) [of 0] Suc by simp
    moreover have "first_match E P pr md rs = Some (rule_result E P pr md (rs ! i))"
    proof (rule Cons.IH)
      show "\<not> usable E P pr md (rs ! k)" if "k < i" for k using Cons.prems(3) [of "Suc k"] that Suc by simp
    qed (use Cons.prems Suc in auto)
    ultimately show ?thesis using Suc by (simp add: first_match_Cons del: first_match.simps(2))
  qed
qed simp

lemma first_match_selection:
  assumes "sorted_wrt (<) js" and "\<And>j. j \<in> set js \<Longrightarrow> j < length rules"
    and "\<And>j. j < length rules \<Longrightarrow> usable E P pr md (rules ! j) \<Longrightarrow> \<exists>k \<in> set js. k \<le> j \<and> usable E P pr md (rules ! k)"
  shows "first_match E P pr md (map ((!) rules) js) = first_match E P pr md rules"
proof (cases "\<exists>j < length rules. usable E P pr md (rules ! j)")
  case False
  then have "first_match E P pr md rules = None" by (auto simp: first_match_none in_set_conv_nth)
  moreover have "first_match E P pr md (map ((!) rules) js) = None" using False assms(2) by (auto simp: first_match_none)
  ultimately show ?thesis by simp
next
  case True
  define j where "j = (LEAST j. j < length rules \<and> usable E P pr md (rules ! j))"
  have j: "j < length rules" "usable E P pr md (rules ! j)" using LeastI_ex [OF True] by (auto simp: j_def)
  have least: "\<not> usable E P pr md (rules ! k)" if "k < j" for k
    using not_less_Least [of k "\<lambda>j. j < length rules \<and> usable E P pr md (rules ! j)"] that j(1) by (simp add: j_def)
  obtain k where "k \<in> set js" "k \<le> j" "usable E P pr md (rules ! k)" using assms(3) j by blast
  then have "j \<in> set js" using least by (metis le_neq_implies_less)
  then obtain p where p: "p < length js" "js ! p = j" by (metis in_set_conv_nth)
  have "\<not> usable E P pr md (map ((!) rules) js ! q)" if "q < p" for q
    using sorted_wrt_nth_less [OF assms(1) that p(1)] p least that by simp
  then have "first_match E P pr md (map ((!) rules) js) = Some (rule_result E P pr md (rules ! j))"
    using first_match_at [of p "map ((!) rules) js" E P pr md] p j(2) by simp
  moreover have "first_match E P pr md rules = Some (rule_result E P pr md (rules ! j))"
    by (rule first_match_at [OF j least])
  ultimately show ?thesis by simp
qed

lemma slots_first_match:
  assumes "run_ok E P md rules" and "check pr ''DIRECT'' = Usable" and "build_loop E P build_init 0 rules = Some st"
  shows "first_match E P pr md (map ((!) rules) (map slot_nat (b_slots st))) = first_match E P pr md rules"
proof -
  obtain n where n: "n \<le> length rules" "build_inv E P pr md rules st n"
    "n = length rules \<or> (\<exists>k \<in> slot_nat ` set (b_slots st). k < n \<and> match_and_resolve E P pr md (rules ! k) = Some ''DIRECT'')"
    using loop_inv [OF assms(1) init_inv [of E P pr md rules]] assms(3) by auto
  have so: "sorted_wrt (<) (map slot_nat (b_slots st))" "\<And>slot. slot \<in> set (b_slots st) \<Longrightarrow> slot_nat slot < n"
    and lo: "left_out E P pr md rules (b_slots st) n"
    using n(2) by (auto simp: build_inv_def Let_def slots_ok_def)
  show ?thesis
  proof (rule first_match_selection [OF so(1)])
    show "j < length rules" if "j \<in> set (map slot_nat (b_slots st))" for j using that so(2) n(1) by fastforce
    show "\<exists>k \<in> set (map slot_nat (b_slots st)). k \<le> j \<and> usable E P pr md (rules ! k)"
      if u: "j < length rules" "usable E P pr md (rules ! j)" for j
    proof (cases "j < n")
      case True
      show ?thesis
      proof (cases "j \<in> slot_nat ` set (b_slots st)")
        case False
        then obtain slot where s: "slot \<in> set (b_slots st)" "slot_nat slot < j"
          "match_and_resolve E P pr md (rules ! slot_nat slot) = match_and_resolve E P pr md (rules ! j)"
          using lo True u(2) unfolding left_out_def usable_def by (metis option.distinct(1))
        have "usable E P pr md (rules ! slot_nat slot)" using u(2) s(3) by (simp add: usable_def)
        then show ?thesis using s by (intro bexI [of _ "slot_nat slot"]) auto
      qed (use u in auto)
    next
      case False
      then obtain k where "k \<in> slot_nat ` set (b_slots st)" "k < n" "match_and_resolve E P pr md (rules ! k) = Some ''DIRECT''"
        using n u(1) by auto
      then show ?thesis using False assms(2) by (intro bexI [of _ k]) (auto simp: usable_def)
    qed
  qed
qed

end
