(* ===== verification/IR_Match.thy ===== *)
theory IR_Match
  imports IR_Build
begin

section \<open>The compiled match is the ordered match\<close>

text \<open>
  The strict match over a compiled rule set returns the rule the plain ordered scan of the source
  rules picks, for the linear plan and for the indexed plan. The demand-driven match either agrees
  with the strict one or names a field that is missing.
\<close>

definition result_of :: "compiled_match_result \<Rightarrow> match_result" where
  "result_of m = \<lparr>adapter_name = cm_adapter_name m, result_type = cm_rule_type m, result_payload = cm_rule_payload m\<rparr>"

subsection \<open>Slots after the index took its share\<close>

lemma own_slots_shape:
  "own_slots E rules ix ss = Some (ix', ss') \<Longrightarrow>
   list_all2 (\<lambda>s s'. s' = s \<or> trie_op (slot_op s) \<and> s' = s\<lparr>slot_op := OpTrieOwned\<rparr> \<and>
     index_key (slot_type s) (payload (rules ! slot_nat s)) \<noteq> None) ss ss'"
proof (induction ss arbitrary: ix ss')
  case (Cons s ss)
  obtain owned ix1 ss1 where s: "(if trie_op (slot_op s)
      then Option.bind (index rules (slot_nat s)) (\<lambda>r. insert_rule E ix (slot_nat s) (slot_type s) (payload r))
      else Some (False, ix)) = Some (owned, ix1)"
    "own_slots E rules ix1 ss = Some (ix', ss1)" "ss' = (if owned then s\<lparr>slot_op := OpTrieOwned\<rparr> else s) # ss1"
    using Cons.prems by (auto simp: bind_eq_Some_conv)
  have "owned \<Longrightarrow> trie_op (slot_op s) \<and> index_key (slot_type s) (payload (rules ! slot_nat s)) \<noteq> None"
    using s(1) by (auto simp: bind_eq_Some_conv index_def insert_rule_key split: if_splits option.splits)
  then show ?case using Cons.IH [OF s(2)] s(3) by simp
qed simp

definition slot_items :: "rule list \<Rightarrow> compiled_rule_slot list \<Rightarrow> (nat \<times> rule_type \<times> string) list" where
  "slot_items rules ss =
     map (\<lambda>s. (slot_nat s, slot_type s, payload (rules ! slot_nat s))) (filter (\<lambda>s. trie_op (slot_op s)) ss)"

lemma own_slots_items:
  "own_slots E rules ix ss = Some (ix', ss') \<Longrightarrow>
   insert_all (to_lowercase E) (di_trie ix) (map (\<lambda>(key, v). (key, v, FirstWins)) (entry_keys (slot_items rules ss))) =
     Some (di_trie ix')"
proof (induction ss arbitrary: ix ss')
  case Nil
  then show ?case by (simp add: slot_items_def entry_keys_def map_filter_simps)
next
  case (Cons s ss)
  obtain owned ix1 ss1 where s: "(if trie_op (slot_op s)
      then Option.bind (index rules (slot_nat s)) (\<lambda>r. insert_rule E ix (slot_nat s) (slot_type s) (payload r))
      else Some (False, ix)) = Some (owned, ix1)"
    "own_slots E rules ix1 ss = Some (ix', ss1)"
    using Cons.prems by (auto simp: bind_eq_Some_conv)
  show ?case
  proof (cases "trie_op (slot_op s)")
    case True
    let ?it = "(slot_nat s, slot_type s, payload (rules ! slot_nat s))"
    have p: "insert_rule E ix (slot_nat s) (slot_type s) (payload (rules ! slot_nat s)) = Some (owned, ix1)"
      using s(1) True by (auto simp: bind_eq_Some_conv index_def split: if_splits)
    have "entry_keys (slot_items rules (s # ss)) = entry_keys [?it] @ entry_keys (slot_items rules ss)"
      using True by (simp add: slot_items_def entry_keys_append [symmetric])
    then show ?thesis by (simp only: map_append insert_all_append put_item(2) [OF p] Cons.IH [OF s(2)] bind.bind_lunit)
  next
    case False
    then show ?thesis using Cons.IH [OF s(2)] s(1) by (simp add: slot_items_def)
  qed
qed

subsection \<open>Evaluating one slot\<close>

text \<open>
  A slot of a finished rule set: compiled from its rule, or handed over to the index.
\<close>

definition final_slot :: "ext_lib \<Rightarrow> platform \<Rightarrow> rule list \<Rightarrow> string list \<Rightarrow> compiled_rule_slot \<Rightarrow> bool" where
  "final_slot E P rules names s \<longleftrightarrow>
     (\<exists>op. slot_ok E P rules names (s\<lparr>slot_op := op\<rparr>) \<and>
        (slot_op s = op \<or> slot_op s = OpTrieOwned \<and> trie_op op \<and> index_key (slot_type s) (payload (rules ! slot_nat s)) \<noteq> None))"

definition slot_faithful ::
  "bool \<Rightarrow> ext_lib \<Rightarrow> platform \<Rightarrow> target_probe \<Rightarrow> metadata \<Rightarrow> compiled_rule_set \<Rightarrow> rule list \<Rightarrow> compiled_rule_slot \<Rightarrow> bool" where
  "slot_faithful eval_trie E P pr md ir rules s \<longleftrightarrow>
     slot_nat s < length rules \<and>
     (\<exists>mo. slot_match eval_trie E P pr md ir rules s = Some mo \<and>
        map_option result_of mo = map_option (\<lambda>t. rule_result E P pr md (rules ! slot_nat s))
          (match_and_resolve E P pr md (rules ! slot_nat s)))"

lemma static_match_result:
  assumes "slot_nat s < length rules" and "slot_type s = type_of_rule (rules ! slot_nat s)"
    and "unat (slot_adapter s) < length (adapter_names ir)" and "adapter_names ir ! unat (slot_adapter s) = adapter (rules ! slot_nat s)"
    and "match_and_resolve E P pr md (rules ! slot_nat s) = Some (adapter (rules ! slot_nat s))"
  shows "\<exists>m. static_match ir s rules = Some m \<and> result_of m = rule_result E P pr md (rules ! slot_nat s) \<and>
    cm_adapter_name m = adapter (rules ! slot_nat s)"
  using assms by (auto simp: static_match_def index_def make_match_def result_of_def rule_result_def)

lemma compile_not_owned:
  assumes "compile_rule E P r = Some (op, d1, d2)" and "no_collapse E P r"
  shows "op \<noteq> OpTrieOwned"
proof (cases "op = OpFallback")
  case False
  then show ?thesis
    using compile_rule_shape [OF assms False] compile_op_leaf lower_native_leaf by (force simp: logic_op_def)
qed simp

lemma slot_match_faithful:
  assumes run: "run_ok E P md rules" and s: "slot_nat s < length rules" "final_slot E P rules (adapter_names ir) s"
    and own: "eval_trie \<or> slot_op s \<noteq> OpTrieOwned \<or> match_and_resolve E P pr md (rules ! slot_nat s) = None"
  shows "slot_faithful eval_trie E P pr md ir rules s"
proof -
  let ?r = "rules ! slot_nat s"
  obtain op where op: "slot_ok E P rules (adapter_names ir) (s\<lparr>slot_op := op\<rparr>)"
    "slot_op s = op \<or> slot_op s = OpTrieOwned \<and> trie_op op" using s(2) by (auto simp: final_slot_def)
  have ok: "slot_type s = type_of_rule ?r" "slot_target s = target_plan_for (type_of_rule ?r)"
    "compile_rule E P ?r = Some (op, demands_ip s, demands_process s)"
    "unat (slot_adapter s) < length (adapter_names ir)" "adapter_names ir ! unat (slot_adapter s) = adapter ?r"
    using op(1) by (simp_all add: slot_ok_def Let_def)
  have cf: "compiled_from E P md rules (slot_nat s) op (demands_ip s) (demands_process s)"
    using run s(1) ok(3) by (simp add: compiled_from_def)
  have static: "slot_match eval_trie E P pr md ir rules s = then_static (match_metadata E P md ?r) ir s rules \<Longrightarrow>
      type_of_rule ?r \<noteq> RtSubRule \<Longrightarrow> ?thesis"
    using static_match_result [OF s(1) ok(1,4,5), of E P pr md] s(1)
    by (auto simp: slot_faithful_def then_static_def match_and_resolve_static)
  have no: "op \<noteq> OpTrieOwned" using compile_not_owned [OF ok(3)] run_okD(4) [OF run s(1)] by (simp add: ir_ok_def)
  consider (Owned) "slot_op s = OpTrieOwned" "trie_op op" | (Fallback) "slot_op s = OpFallback" "op = OpFallback"
    | (Native) "slot_op s = op" "op \<noteq> OpFallback" "op \<noteq> OpTrieOwned" using op(2) no by blast
  then show ?thesis
  proof cases
    case Owned
    have nf: "op \<noteq> OpFallback" using Owned(2) by (auto simp: trie_op_def)
    show ?thesis
    proof (cases eval_trie)
      case True
      then show ?thesis using static compiled_match(1) [OF cf nf] Owned(1) s(1) by (simp add: slot_match_def)
    next
      case False
      then show ?thesis using own Owned(1) s(1) by (simp add: slot_faithful_def slot_match_def)
    qed
  next
    case Fallback
    show ?thesis
    proof (cases "type_of_rule ?r = RtSubRule")
      case True
      then show ?thesis using Fallback s(1) ok(1,2)
        by (cases "match_and_resolve E P pr md ?r")
          (auto simp: slot_faithful_def slot_match_def target_plan_for_def make_match_def result_of_def rule_result_def)
    next
      case False
      then have "slot_target s = StaticAdapter" using ok(2) by (auto simp: target_plan_for_def split: rule_type.split)
      then show ?thesis using static False Fallback by (simp add: slot_match_def)
    qed
  next
    case Native
    have "slot_match eval_trie E P pr md ir rules s = then_static (matches_op E P md op) ir s rules"
      using Native by (cases op) (simp_all add: slot_match_def Let_def)
    then show ?thesis using static compiled_match [OF cf Native(2)] by simp
  qed
qed

subsection \<open>Scanning\<close>

lemma scan_exact:
  assumes "\<And>s. s \<in> set ss \<Longrightarrow> slot_faithful eval_trie E P pr md ir rules s"
  shows "\<exists>out sk. scan_range_ctl False eval_trie E P pr md ir rules ss pos = Some (out, sk) \<and>
    (case out of
       ScanMatched m \<Rightarrow> first_match E P pr md (map ((!) rules) (map slot_nat ss)) = Some (result_of m)
     | ScanExhausted \<Rightarrow> first_match E P pr md (map ((!) rules) (map slot_nat ss)) = None
     | ScanBlocked _ \<Rightarrow> False)"
  using assms
proof (induction ss arbitrary: pos)
  case (Cons s ss)
  let ?r = "rules ! slot_nat s" and ?fm = "first_match E P pr md (map ((!) rules) (map slot_nat ss))"
  obtain out sk where IH: "scan_range_ctl False eval_trie E P pr md ir rules ss (pos + 1) = Some (out, sk)"
    "case out of ScanMatched m \<Rightarrow> ?fm = Some (result_of m) | ScanExhausted \<Rightarrow> ?fm = None | ScanBlocked _ \<Rightarrow> False"
    using Cons.IH [of "pos + 1"] Cons.prems by auto
  obtain mo where mo: "slot_nat s < length rules" "slot_match eval_trie E P pr md ir rules s = Some mo"
    "map_option result_of mo = map_option (\<lambda>t. rule_result E P pr md ?r) (match_and_resolve E P pr md ?r)"
    using Cons.prems [of s] by (auto simp: slot_faithful_def)
  show ?case
  proof (cases mo)
    case None
    then have "match_and_resolve E P pr md ?r = None" using mo(3) by auto
    then have fm: "first_match E P pr md (map ((!) rules) (map slot_nat (s # ss))) = ?fm" by simp
    show ?thesis unfolding fm using None mo(1,2) IH by simp
  next
    case (Some m)
    then obtain t where t: "match_and_resolve E P pr md ?r = Some t" "result_of m = rule_result E P pr md ?r"
      using mo(3) by (cases "match_and_resolve E P pr md ?r") auto
    then have name: "cm_adapter_name m = t" by (simp add: result_of_def rule_result_def)
    have fm: "first_match E P pr md (map ((!) rules) (map slot_nat (s # ss))) =
        (if check pr t = Usable then Some (result_of m) else ?fm)"
      using t by (simp add: first_match_Cons usable_def del: first_match.simps)
    show ?thesis
      unfolding fm using Some mo(1,2) name IH by (cases "check pr t") (auto split: prod.split)
  qed
qed simp

text \<open>Where the trie hit lies among the slots.\<close>

lemma sorted_cut:
  assumes "sorted_wrt (<) (map slot_nat ss)" and "s \<in> set ss"
  obtains pre post where "ss = pre @ s # post" "partition_point (\<lambda>x. slot_nat x < slot_nat s) ss = length pre"
    "\<And>x. x \<in> set pre \<Longrightarrow> slot_nat x < slot_nat s"
proof -
  obtain pre post where ss: "ss = pre @ s # post" using split_list [OF assms(2)] by blast
  have pre: "slot_nat x < slot_nat s" if "x \<in> set pre" for x using assms(1) that unfolding ss by (auto simp: sorted_wrt_append)
  have post: "\<not> slot_nat x < slot_nat s" if "x \<in> set (s # post)" for x
    using assms(1) that unfolding ss by (auto simp: sorted_wrt_append)
  have "partition_point (\<lambda>x. slot_nat x < slot_nat s) ss = length pre"
    unfolding ss by (rule partition_point_append) (use pre post in blast)+
  then show ?thesis using that ss pre by blast
qed

lemma slice_prefix: "slice (pre @ post) 0 (length pre) = Some pre"
  by (simp add: slice_def)

lemma slice_after: "n = length (pre @ s # post) \<Longrightarrow> slice (pre @ s # post) (length pre + 1) n = Some post"
  by (simp add: slice_def)

text \<open>What the finished rule set satisfies for a connection.\<close>

definition ir_ready :: "ext_lib \<Rightarrow> platform \<Rightarrow> rule list \<Rightarrow> compiled_rule_set \<Rightarrow> bool" where
  "ir_ready E P rules ir \<longleftrightarrow>
     sorted_wrt (<) (map slot_nat (ir_slots ir)) \<and>
     (\<forall>s \<in> set (ir_slots ir). slot_nat s < length rules \<and> final_slot E P rules (adapter_names ir) s)"

text \<open>The answer of the index: the least slot whose indexed pattern matches.\<close>

definition hit_ok :: "ext_lib \<Rightarrow> platform \<Rightarrow> metadata \<Rightarrow> rule list \<Rightarrow> compiled_rule_set \<Rightarrow> nat option \<Rightarrow> bool" where
  "hit_ok E P md rules ir hit \<longleftrightarrow>
     (case hit of
        None \<Rightarrow> \<forall>s \<in> set (ir_slots ir). slot_op s = OpTrieOwned \<longrightarrow> \<not> match_metadata E P md (rules ! slot_nat s)
      | Some t \<Rightarrow>
          (\<exists>s \<in> set (ir_slots ir). slot_nat s = t \<and> type_of_rule (rules ! t) \<noteq> RtSubRule \<and> match_metadata E P md (rules ! t)) \<and>
          (\<forall>s \<in> set (ir_slots ir). slot_op s = OpTrieOwned \<longrightarrow> slot_nat s < t \<longrightarrow> \<not> match_metadata E P md (rules ! slot_nat s)))"

lemma owned_static:
  assumes "run_ok E P md rules" and "slot_nat s < length rules" and "final_slot E P rules names s" and "slot_op s = OpTrieOwned"
  shows "type_of_rule (rules ! slot_nat s) \<noteq> RtSubRule"
proof -
  have "no_collapse E P (rules ! slot_nat s)" using run_okD(4) [OF assms(1,2)] by (simp add: ir_ok_def)
  then have "index_key (slot_type s) (payload (rules ! slot_nat s)) \<noteq> None \<and> slot_type s = type_of_rule (rules ! slot_nat s)"
    using assms(3,4) by (auto simp: final_slot_def slot_ok_def Let_def dest: compile_not_owned)
  then show ?thesis using index_key_static by (metis not_None_eq)
qed

lemma scan_slots_exact:
  assumes "run_ok E P md rules" and "ir_ready E P rules ir" and "set ss \<subseteq> set (ir_slots ir)"
    and "\<And>s. s \<in> set ss \<Longrightarrow> eval_trie \<or> (slot_op s = OpTrieOwned \<longrightarrow> \<not> match_metadata E P md (rules ! slot_nat s))"
  shows "\<exists>out sk. scan_range_ctl False eval_trie E P pr md ir rules ss pos = Some (out, sk) \<and>
    (case out of
       ScanMatched m \<Rightarrow> first_match E P pr md (map ((!) rules) (map slot_nat ss)) = Some (result_of m)
     | ScanExhausted \<Rightarrow> first_match E P pr md (map ((!) rules) (map slot_nat ss)) = None
     | ScanBlocked _ \<Rightarrow> False)"
proof (rule scan_exact)
  fix s
  assume s: "s \<in> set ss"
  then have f: "slot_nat s < length rules" "final_slot E P rules (adapter_names ir) s"
    using assms(2,3) by (auto simp: ir_ready_def)
  have "eval_trie \<or> slot_op s \<noteq> OpTrieOwned \<or> match_and_resolve E P pr md (rules ! slot_nat s) = None"
    using assms(4) [OF s] owned_static [OF assms(1) f] by (auto simp: match_and_resolve_static)
  then show "slot_faithful eval_trie E P pr md ir rules s" by (rule slot_match_faithful [OF assms(1) f])
qed

lemma indexed_scan_exact:
  assumes "run_ok E P md rules" and "ir_ready E P rules ir" and "hit_ok E P md rules ir hit"
    and "(if rule_host md = [] then Some None else index_search (ir_index ir) (rule_host md)) = Some hit"
  shows "\<exists>out sk. indexed_scan False E P pr md ir rules = Some (out, sk) \<and>
    (case out of
       ScanMatched m \<Rightarrow> first_match E P pr md (map ((!) rules) (map slot_nat (ir_slots ir))) = Some (result_of m)
     | ScanExhausted \<Rightarrow> first_match E P pr md (map ((!) rules) (map slot_nat (ir_slots ir))) = None
     | ScanBlocked _ \<Rightarrow> False)"
proof -
  let ?fm = "\<lambda>ss. first_match E P pr md (map ((!) rules) (map slot_nat ss))"
  note scan = scan_slots_exact [OF assms(1,2)]
  have app: "?fm (as @ bs) = (case ?fm as of None \<Rightarrow> ?fm bs | Some m \<Rightarrow> Some m)" for as bs
    by (simp only: map_append first_match_append)
  show ?thesis
  proof (cases hit)
    case None
    have cut: "trie_cut md ir = Some (length (ir_slots ir), None)" using assms(4) None by (simp add: trie_cut_def)
    obtain out sk where p: "scan_range_ctl False False E P pr md ir rules (ir_slots ir) 0 = Some (out, sk)"
      "case out of ScanMatched m \<Rightarrow> ?fm (ir_slots ir) = Some (result_of m) | ScanExhausted \<Rightarrow> ?fm (ir_slots ir) = None | ScanBlocked _ \<Rightarrow> False"
      using scan [of "ir_slots ir" False pr 0] assms(3) None by (auto simp: hit_ok_def)
    then show ?thesis
      by (cases out) (auto simp: indexed_scan_def cut scan_slice_def slice_def add_skipped_def)
  next
    case (Some t)
    then obtain s where s: "s \<in> set (ir_slots ir)" "slot_nat s = t" "type_of_rule (rules ! t) \<noteq> RtSubRule" "match_metadata E P md (rules ! t)"
      using assms(3) by (auto simp: hit_ok_def)
    obtain pre post where ss: "ir_slots ir = pre @ s # post" "partition_point (\<lambda>x. slot_nat x < slot_nat s) (ir_slots ir) = length pre"
      "\<And>x. x \<in> set pre \<Longrightarrow> slot_nat x < slot_nat s"
      using sorted_cut [of "ir_slots ir" s] assms(2) s(1) by (metis ir_ready_def)
    have cut: "trie_cut md ir = Some (length pre, Some s)"
      using assms(4) Some ss(1,2) s(2) by (simp add: trie_cut_def index_def)
    have f: "slot_nat s < length rules" "final_slot E P rules (adapter_names ir) s" using assms(2) s(1) by (auto simp: ir_ready_def)
    have res: "match_and_resolve E P pr md (rules ! slot_nat s) = Some (adapter (rules ! slot_nat s))"
      using s(2-4) by (simp add: match_and_resolve_static)
    obtain m where m: "static_match ir s rules = Some m" "result_of m = rule_result E P pr md (rules ! slot_nat s)"
      "cm_adapter_name m = adapter (rules ! slot_nat s)"
      using static_match_result [OF f(1) _ _ _ res, of ir] f(2) by (auto simp: final_slot_def slot_ok_def Let_def)
    obtain out sk where p: "scan_range_ctl False False E P pr md ir rules pre 0 = Some (out, sk)"
      "case out of ScanMatched m \<Rightarrow> ?fm pre = Some (result_of m) | ScanExhausted \<Rightarrow> ?fm pre = None | ScanBlocked _ \<Rightarrow> False"
      using scan [of pre False pr 0] assms(3) Some ss(1,3) s(2) by (auto simp: hit_ok_def)
    obtain out2 sk2 where q: "scan_range_ctl False True E P pr md ir rules post (length pre + 1) = Some (out2, sk2)"
      "case out2 of ScanMatched m \<Rightarrow> ?fm post = Some (result_of m) | ScanExhausted \<Rightarrow> ?fm post = None | ScanBlocked _ \<Rightarrow> False"
      using scan [of post True pr "length pre + 1"] ss(1) by auto
    have sl: "slice (ir_slots ir) 0 (length pre) = Some pre"
      "slice (ir_slots ir) (length pre + 1) (length (ir_slots ir)) = Some post"
      unfolding ss(1) using slice_prefix [of pre "s # post"] slice_after [of _ pre s post] by blast+
    have hd: "?fm (s # post) = (if check pr (cm_adapter_name m) = Usable then Some (result_of m) else ?fm post)"
      using res m(2,3) by (simp add: first_match_Cons usable_def del: first_match.simps)
    have fm: "?fm (ir_slots ir) = (case ?fm pre of Some x \<Rightarrow> Some x
        | None \<Rightarrow> if check pr (cm_adapter_name m) = Usable then Some (result_of m) else ?fm post)"
      unfolding ss(1) app hd by (auto split: option.split)
    have scans: "scan_slice False False E P pr md ir rules 0 (length pre) = Some (out, sk)"
      "scan_slice False True E P pr md ir rules (length pre + 1) (length (ir_slots ir)) = Some (out2, sk2)"
      using p(1) q(1) sl by (simp_all add: scan_slice_def)
    show ?thesis
    proof (cases out)
      case (ScanMatched x)
      then have "indexed_scan False E P pr md ir rules = Some (ScanMatched x, sk)"
        by (simp add: indexed_scan_def cut scans(1))
      then show ?thesis using p(2) ScanMatched fm by auto
    next
      case ScanExhausted
      then have ex: "indexed_scan False E P pr md ir rules = (case check pr (cm_adapter_name m) of
          Usable \<Rightarrow> Some (ScanMatched m, sk) | Pass \<Rightarrow> Some (out2, sk @ sk2) | Missing \<Rightarrow> Some (out2, sk @ m # sk2))"
        using scans(2) by (simp add: indexed_scan_def cut scans(1) m(1) add_skipped_def Let_def split: target_check.split)
      have pre: "?fm pre = None" using p(2) ScanExhausted by simp
      show ?thesis
      proof (cases "check pr (cm_adapter_name m) = Usable")
        case True
        then show ?thesis using ex fm pre by auto
      next
        case False
        then have "?fm (ir_slots ir) = ?fm post" using fm pre by (simp only: if_False option.case)
        then have q2: "case out2 of ScanMatched m \<Rightarrow> ?fm (ir_slots ir) = Some (result_of m)
            | ScanExhausted \<Rightarrow> ?fm (ir_slots ir) = None | ScanBlocked _ \<Rightarrow> False" using q(2) by (simp only:)
        obtain sk3 where "indexed_scan False E P pr md ir rules = Some (out2, sk3)"
          using ex False by (cases "check pr (cm_adapter_name m)") auto
        then show ?thesis using q2 by blast
      qed
    qed (use p(2) in simp)
  qed
qed

subsection \<open>The finished rule set\<close>

text \<open>
  The invariant of the compiler by itself, without any assumption on the rules: slots in rule order,
  each compiled from its rule, adapter names without repetition and indexed consistently, demand
  flags that summarise the slots.
\<close>

definition state_wf :: "ext_lib \<Rightarrow> platform \<Rightarrow> rule list \<Rightarrow> build_state \<Rightarrow> nat \<Rightarrow> bool" where
  "state_wf E P rules st i \<longleftrightarrow>
     names_ok (b_adapter_names st) (b_adapter_lookup st) \<and>
     slots_ok E P rules (b_adapter_names st) (b_slots st) i \<and>
     b_needs_ip st = list_ex demands_ip (b_slots st) \<and> b_needs_process st = list_ex demands_process (b_slots st)"

lemma dedup_pass_needs: "dedup_pass E st r op d1 d2 a = (dup, st') \<Longrightarrow> b_needs_ip st' = b_needs_ip st \<and> b_needs_process st' = b_needs_process st"
  by (auto simp: dedup_pass_def Let_def split: option.splits if_splits)

lemma cidr_pass_needs: "cidr_pass E st op d a = Some (c, st') \<Longrightarrow> b_needs_ip st' = b_needs_ip st \<and> b_needs_process st' = b_needs_process st"
  by (auto simp: cidr_pass_def Let_def bind_eq_Some_conv split: rule_op.splits if_splits)

lemma push_slot_needs:
  "push_slot st i r op d1 d2 a = Some st' \<Longrightarrow>
     b_needs_ip st' = (b_needs_ip st \<or> d1) \<and> b_needs_process st' = (b_needs_process st \<or> d2)"
  by (auto simp: push_slot_def split: if_splits)

lemma state_wf_step:
  assumes wf: "state_wf E P rules st i" and step: "build_step E P st i (rules ! i) = Some (st', stop)"
  shows "state_wf E P rules st' (i + 1)"
  using step
proof (cases rule: build_step_cases)
  case Never
  then show ?thesis using wf slots_ok_mono [of E P rules _ _ i _ "[]" "i + 1"] by (auto simp: state_wf_def)
next
  case (Pruned op d1 d2 a names lookup st1)
  have old: "names_ok (b_adapter_names st) (b_adapter_lookup st)" "slots_ok E P rules (b_adapter_names st) (b_slots st) i"
    using wf by (simp_all add: state_wf_def)
  note ia = intern_adapter_ok [OF old(1) Pruned(2)]
  obtain dup where dp: "dedup_pass E st1 (rules ! i) op d1 d2 a = (dup, st')" using Pruned(4) by (metis prod.collapse)
  have "slots_ok E P rules names (b_slots st) (i + 1)" using slots_ok_mono [OF old(2)] ia(4) by auto
  then show ?thesis using wf ia(1) dedup_pass_cases(1-3) [OF dp] dedup_pass_needs [OF dp] Pruned(3) by (simp add: state_wf_def)
next
  case (Later op d1 d2 a names lookup st1 st2 st3 covered)
  have old: "names_ok (b_adapter_names st) (b_adapter_lookup st)" "slots_ok E P rules (b_adapter_names st) (b_slots st) i"
    using wf by (simp_all add: state_wf_def)
  note ia = intern_adapter_ok [OF old(1) Later(2)]
  have so: "slots_ok E P rules names (b_slots st) (i + 1)" using slots_ok_mono [OF old(2)] ia(4) by auto
  have st3: "b_slots st3 = b_slots st" "b_adapter_names st3 = names" "b_adapter_lookup st3 = lookup"
    "b_needs_ip st3 = b_needs_ip st" "b_needs_process st3 = b_needs_process st"
    using dedup_pass_cases(1-3) [OF Later(4)] dedup_pass_needs [OF Later(4)] cidr_pass_cases(1-3) [OF Later(6)]
      cidr_pass_needs [OF Later(6)] Later(3) by simp_all
  show ?thesis
  proof (cases covered)
    case True
    then show ?thesis using Later(7) wf st3 so ia(1) by (simp add: state_wf_def)
  next
    case False
    then have ps: "push_slot st3 i (rules ! i) op d1 d2 a = Some st'" using Later(7) by simp
    obtain slot where s: "b_slots st' = b_slots st3 @ [slot]" "slot_nat slot = i" "unat (slot_adapter slot) = a"
      "slot_type slot = type_of_rule (rules ! i)" "slot_target slot = target_plan_for (type_of_rule (rules ! i))"
      "slot_op slot = op" "demands_ip slot = d1" "demands_process slot = d2"
      "b_adapter_names st' = b_adapter_names st3" "b_adapter_lookup st' = b_adapter_lookup st3"
      by (rule push_slot_cases [OF ps])
    have "slot_ok E P rules names slot" using s(2-8) Later(1) ia(2,3) by (simp add: slot_ok_def Let_def)
    moreover have "slot_nat x < i" if "x \<in> set (b_slots st)" for x using old(2) that by (auto simp: slots_ok_def)
    ultimately have "slots_ok E P rules names (b_slots st') (i + 1)"
      using so s(1,2) st3(1) by (auto simp: slots_ok_def sorted_wrt_append)
    then show ?thesis using s(1,7-10) st3 ia(1) wf push_slot_needs [OF ps] by (auto simp: state_wf_def)
  qed
qed

lemma state_wf_loop:
  assumes "state_wf E P rules st i" and "i \<le> length rules" and "build_loop E P st i (drop i rules) = Some st'"
  shows "\<exists>n \<le> length rules. state_wf E P rules st' n"
  using assms
proof (induction "length rules - i" arbitrary: st i)
  case 0
  then show ?case by (intro exI [of _ i]) simp
next
  case (Suc k)
  then have i: "i < length rules" by simp
  then have d: "drop i rules = rules ! i # drop (i + 1) rules" by (simp add: Cons_nth_drop_Suc)
  obtain st1 stop where s: "build_step E P st i (rules ! i) = Some (st1, stop)"
    "(if stop then Some st1 else build_loop E P st1 (i + 1) (drop (i + 1) rules)) = Some st'"
    using Suc.prems(3) unfolding d by (auto simp: bind_eq_Some_conv simp del: One_nat_def)
  note wf = state_wf_step [OF Suc.prems(1) s(1)]
  show ?case
  proof (cases stop)
    case True
    then show ?thesis using wf s(2) i by (intro exI [of _ "i + 1"]) simp
  next
    case False
    then show ?thesis using Suc.hyps(1) [of "i + 1" st1] Suc.hyps(2) wf s(2) i by simp
  qed
qed

lemma state_wf_init: "state_wf E P rules build_init 0"
  by (simp add: state_wf_def build_init_def names_ok_def slots_ok_def)

text \<open>What a finished rule set guarantees about itself.\<close>

definition ir_wf :: "rule list \<Rightarrow> compiled_rule_set \<Rightarrow> bool" where
  "ir_wf rules ir \<longleftrightarrow>
     sorted_wrt (<) (map slot_nat (ir_slots ir)) \<and>
     list_all (\<lambda>s. slot_nat s < length rules \<and> slot_type s = type_of_rule (rules ! slot_nat s) \<and>
       has_dynamic_adapter s = (slot_type s = RtSubRule) \<and>
       unat (slot_adapter s) < length (adapter_names ir) \<and>
       adapter_names ir ! unat (slot_adapter s) = adapter (rules ! slot_nat s)) (ir_slots ir) \<and>
     names_ok (adapter_names ir) (adapter_lookup ir) \<and>
     needs_ip_resolution ir = list_ex demands_ip (ir_slots ir) \<and>
     needs_process_lookup ir = list_ex demands_process (ir_slots ir) \<and>
     is_compatible_with ir rules \<and>
     (uses_linear_scan_plan ir \<longleftrightarrow> ir_len ir \<le> LINEAR_SCAN_RULE_LIMIT)"

definition owned_slot :: "rule list \<Rightarrow> compiled_rule_slot \<Rightarrow> compiled_rule_slot \<Rightarrow> bool" where
  "owned_slot rules s s' \<longleftrightarrow>
     s' = s \<or> trie_op (slot_op s) \<and> s' = s\<lparr>slot_op := OpTrieOwned\<rparr> \<and>
       index_key (slot_type s) (payload (rules ! slot_nat s)) \<noteq> None"

lemma owned_slot_sel:
  assumes "owned_slot rules s s'"
  shows "slot_index s' = slot_index s" "slot_type s' = slot_type s" "slot_adapter s' = slot_adapter s"
    "slot_target s' = slot_target s" "demands_ip s' = demands_ip s" "demands_process s' = demands_process s"
  using assms by (auto simp: owned_slot_def)

lemma owned_slot_final:
  assumes "owned_slot rules s s'" and "slot_ok E P rules names s"
  shows "final_slot E P rules names s'"
proof -
  have "s'\<lparr>slot_op := slot_op s\<rparr> = s" using assms(1) unfolding owned_slot_def by (elim disjE conjE) simp_all
  then have "slot_ok E P rules names (s'\<lparr>slot_op := slot_op s\<rparr>)" using assms(2) by simp
  moreover have "slot_op s' = slot_op s \<or> slot_op s' = OpTrieOwned \<and> trie_op (slot_op s) \<and>
      index_key (slot_type s') (payload (rules ! slot_nat s')) \<noteq> None"
    using assms(1) by (auto simp: owned_slot_def)
  ultimately show ?thesis unfolding final_slot_def by blast
qed

lemma bind_pairE:
  assumes "Option.bind x (\<lambda>(a, b). Some (f a b)) = Some y"
    and "\<And>a b. x = Some (a, b) \<Longrightarrow> y = f a b \<Longrightarrow> thesis"
  shows thesis
  using assms by (auto simp: bind_eq_Some_conv)

lemma ir_build_cases:
  assumes "ir_build E P rules = Some ir"
  obtains st where "build_loop E P build_init 0 rules = Some st" "list_all2 (owned_slot rules) (b_slots st) (ir_slots ir)"
    "adapter_names ir = b_adapter_names st" "adapter_lookup ir = b_adapter_lookup st"
    "needs_ip_resolution ir = b_needs_ip st" "needs_process_lookup ir = b_needs_process st"
    "source_rule_count ir = length rules" "ir_plan ir = select_execution_plan (length (b_slots st))"
    "ir_plan ir = LinearScan \<Longrightarrow> ir_slots ir = b_slots st"
    "ir_plan ir = DomainIndexed \<Longrightarrow> \<exists>ix. own_slots E rules index_empty (b_slots st) = Some (ix, ir_slots ir) \<and> index_seal ix = Some (ir_index ir)"
proof -
  obtain st where st: "build_loop E P build_init 0 rules = Some st" using assms by (auto simp: ir_build_def bind_eq_Some_conv)
  let ?plan = "select_execution_plan (length (b_slots st))"
  obtain ix ss where ss: "(if ?plan = DomainIndexed
      then Option.bind (own_slots E rules index_empty (b_slots st)) (\<lambda>(ix, ss). map_option (\<lambda>ix. (ix, ss)) (index_seal ix))
      else Some (index_empty, b_slots st)) = Some (ix, ss)"
    "ir = \<lparr>ir_slots = ss, source_rule_count = length rules, adapter_names = b_adapter_names st,
         adapter_lookup = b_adapter_lookup st, ir_index = ix, ir_plan = ?plan,
         needs_ip_resolution = b_needs_ip st, needs_process_lookup = b_needs_process st\<rparr>"
    using assms by (auto simp: ir_build_def st Let_def elim!: bind_pairE)
  have same: "list_all2 (owned_slot rules) xs xs" for xs by (rule list_all2_refl) (simp add: owned_slot_def)
  have ind: "\<exists>ix0. own_slots E rules index_empty (b_slots st) = Some (ix0, ss) \<and> index_seal ix0 = Some ix" if "?plan = DomainIndexed"
    using ss(1) that by (auto simp: bind_eq_Some_conv)
  have lin: "ss = b_slots st" if "?plan = LinearScan" using ss(1) that by simp
  have "list_all2 (owned_slot rules) (b_slots st) ss"
  proof (cases ?plan)
    case LinearScan
    then show ?thesis using lin same by simp
  next
    case DomainIndexed
    then obtain ix0 where "own_slots E rules index_empty (b_slots st) = Some (ix0, ss)" using ind by blast
    then show ?thesis using own_slots_shape unfolding owned_slot_def by blast
  qed
  then show ?thesis using that [OF st] ss(2) lin ind by simp
qed

lemma owned_maps:
  assumes "list_all2 (owned_slot rules) ss ss'"
  shows "map slot_nat ss' = map slot_nat ss" "list_ex demands_ip ss' = list_ex demands_ip ss"
    "list_ex demands_process ss' = list_ex demands_process ss" "length ss' = length ss"
  using assms by (induction rule: list_all2_induct) (auto dest: owned_slot_sel)

lemma owned_slotD:
  assumes "list_all2 (owned_slot rules) ss ss'" and "s' \<in> set ss'"
  shows "\<exists>s \<in> set ss. owned_slot rules s s'"
  using assms by (induction rule: list_all2_induct) auto

lemma owned_slotD2:
  assumes "list_all2 (owned_slot rules) ss ss'" and "s \<in> set ss"
  shows "\<exists>s' \<in> set ss'. owned_slot rules s s'"
  using assms by (induction rule: list_all2_induct) auto

lemma ir_build_ready:
  assumes "ir_build E P rules = Some ir"
  shows "ir_ready E P rules ir" and "ir_wf rules ir"
proof -
  obtain st where st: "build_loop E P build_init 0 rules = Some st" "list_all2 (owned_slot rules) (b_slots st) (ir_slots ir)"
    "adapter_names ir = b_adapter_names st" "adapter_lookup ir = b_adapter_lookup st"
    "needs_ip_resolution ir = b_needs_ip st" "needs_process_lookup ir = b_needs_process st"
    "source_rule_count ir = length rules" "ir_plan ir = select_execution_plan (length (b_slots st))"
    by (rule ir_build_cases [OF assms])
  obtain n where n: "n \<le> length rules" "state_wf E P rules st n"
    using state_wf_loop [OF state_wf_init, of rules E P st] st(1) by auto
  note maps = owned_maps [OF st(2)]
  have sorted: "sorted_wrt (<) (map slot_nat (ir_slots ir))" using n(2) maps(1) by (simp add: state_wf_def slots_ok_def)
  have each: "slot_nat s' < length rules \<and> slot_ok E P rules (adapter_names ir) s \<and> owned_slot rules s s'"
    if "owned_slot rules s s'" "s \<in> set (b_slots st)" for s s'
    using that n st(3) owned_slot_sel(1) [OF that(1)] by (fastforce simp: state_wf_def slots_ok_def)
  show "ir_ready E P rules ir"
    using sorted each owned_slotD [OF st(2)] owned_slot_final unfolding ir_ready_def by blast
  have "slot_nat s' < length rules \<and> slot_type s' = type_of_rule (rules ! slot_nat s') \<and>
       has_dynamic_adapter s' = (slot_type s' = RtSubRule) \<and> unat (slot_adapter s') < length (adapter_names ir) \<and>
       adapter_names ir ! unat (slot_adapter s') = adapter (rules ! slot_nat s')" if s': "s' \<in> set (ir_slots ir)" for s'
  proof -
    obtain s where s: "s \<in> set (b_slots st)" "owned_slot rules s s'" using owned_slotD [OF st(2) s'] by blast
    then show ?thesis using each [OF s(2,1)] owned_slot_sel [OF s(2)]
      by (auto simp: slot_ok_def Let_def has_dynamic_adapter_def target_plan_for_def split: rule_type.splits)
  qed
  then show "ir_wf rules ir"
    using sorted n(2) maps st(3-8)
    by (auto simp: ir_wf_def list_all_iff state_wf_def is_compatible_with_def uses_linear_scan_plan_def ir_len_def
        select_execution_plan_def)
qed

subsection \<open>The index over the slots\<close>

lemma index_key_ok:
  assumes "ir_ok E P r" and "index_key (type_of_rule r) (payload r) \<noteq> None"
  shows "indexed_ok E r"
  using assms by (cases r) (auto simp: ir_ok_def indexed_ok_def clean_payload_def index_key_def split: if_splits)

lemma index_key_no_host:
  assumes "index_key (type_of_rule r) (payload r) \<noteq> None" and "rule_host md = []"
  shows "\<not> match_metadata E P md r"
  using assms
  by (cases r)
    (auto simp: index_key_def indexable_pattern_def domain_matches_def suffix_matches_def wildcard_matches_def
      eq_ignore_ascii_case_def to_ascii_lowercase_def split: if_splits)

lemma built_slots:
  assumes "build_loop E P build_init 0 rules = Some st"
  shows "slots_ok E P rules (b_adapter_names st) (b_slots st) (length rules)"
proof -
  obtain n where "n \<le> length rules" "state_wf E P rules st n"
    using state_wf_loop [OF state_wf_init, of rules E P st] assms by auto
  then show ?thesis by (auto simp: state_wf_def slots_ok_def intro: less_le_trans)
qed

text \<open>The slots the index answers for: a domain operation and an indexable pattern.\<close>

definition indexed_slot :: "rule list \<Rightarrow> compiled_rule_slot \<Rightarrow> bool" where
  "indexed_slot rules s \<longleftrightarrow> trie_op (slot_op s) \<and> index_key (slot_type s) (payload (rules ! slot_nat s)) \<noteq> None"

lemma index_over_slots:
  assumes run: "run_ok E P md rules" and host: "live_host (rule_host md)"
    and ss: "slots_ok E P rules names ss (length rules)"
    and own: "own_slots E rules index_empty ss = Some (ix, ss')" "index_seal ix = Some ix'"
  shows "\<exists>r. index_search ix' (rule_host md) = Some r \<and>
    is_min_of r {slot_nat s | s. s \<in> set ss \<and> indexed_slot rules s \<and> match_metadata E P md (rules ! slot_nat s)}"
proof -
  let ?I = "{i. \<exists>ty pl k. (i, ty, pl) \<in> set (slot_items rules ss) \<and> index_key ty pl = Some k \<and>
      key_matches (normal_key (to_lowercase E) k) (rule_host md)}"
  have E: "case_ok E" "regex_ok E" using run by (auto simp: run_ok_def lib_ok_def)
  have srt: "sorted (map fst (slot_items rules ss))"
    using ss sorted_wrt_filter [of "\<lambda>a b. slot_nat a < slot_nat b" ss "\<lambda>s. trie_op (slot_op s)"]
    by (auto simp: slot_items_def slots_ok_def sorted_wrt_map comp_def less_imp_le elim!: sorted_wrt_mono_rel [rotated])
  have ins: "insert_all (to_lowercase E) trie_new (map (\<lambda>(key, v). (key, v, FirstWins)) (entry_keys (slot_items rules ss))) = Some (di_trie ix)"
    using own_slots_items [OF own(1)] by (simp add: index_empty_def)
  obtain t where t: "seal (di_trie ix) = Some t" "di_trie ix' = t" using own(2) by (auto simp: index_seal_def)
  have small: "i < 2 ^ 32" if "(i, ty, pl) \<in> set (slot_items rules ss)" for i ty pl
    using that unsigned_less [where ?'a = nat and ?'b = 32] by (auto simp: slot_items_def)
  have "\<exists>r. index_search ix' (rule_host md) = Some r \<and> is_min_of r ?I"
    by (rule index_search_min [OF ins t(1,2) srt _ host]) (rule small)
  then obtain r where r: "index_search ix' (rule_host md) = Some r" "is_min_of r ?I" by blast
  have exact: "key_matches (normal_key (to_lowercase E) k) (rule_host md) \<longleftrightarrow> match_metadata E P md (rules ! slot_nat s)"
    if h: "s \<in> set ss" "index_key (slot_type s) (payload (rules ! slot_nat s)) = Some k" for s k
  proof -
    have s: "slot_nat s < length rules" "slot_type s = type_of_rule (rules ! slot_nat s)"
      using ss h(1) by (auto simp: slots_ok_def slot_ok_def Let_def)
    then have "indexed_ok E (rules ! slot_nat s)" using index_key_ok [OF run_okD(4) [OF run s(1)]] h(2) by simp
    then show ?thesis using index_key_exact [OF E _ host] h(2) s(2) by simp
  qed
  have "?I = {slot_nat s | s. s \<in> set ss \<and> indexed_slot rules s \<and> match_metadata E P md (rules ! slot_nat s)}"
    unfolding slot_items_def indexed_slot_def using exact by fastforce
  then show ?thesis using r by auto
qed

lemma index_hit_ok:
  assumes run: "run_ok E P md rules" and host: "normal_host (rule_host md)" and ir: "ir_build E P rules = Some ir"
    and plan: "ir_plan ir = DomainIndexed"
  shows "\<exists>hit. (if rule_host md = [] then Some None else index_search (ir_index ir) (rule_host md)) = Some hit \<and>
    hit_ok E P md rules ir hit"
proof -
  obtain st ix where st: "build_loop E P build_init 0 rules = Some st" "list_all2 (owned_slot rules) (b_slots st) (ir_slots ir)"
    "own_slots E rules index_empty (b_slots st) = Some (ix, ir_slots ir)" "index_seal ix = Some (ir_index ir)"
    by (rule ir_build_cases [OF ir]) (use plan in blast)
  note ok = built_slots [OF st(1)]
  have slot: "slot_nat s < length rules \<and> slot_type s = type_of_rule (rules ! slot_nat s) \<and> slot_op s \<noteq> OpTrieOwned"
    if "s \<in> set (b_slots st)" for s
    using ok that compile_not_owned run_okD(4) [OF run, of "slot_nat s"]
    by (auto simp: slots_ok_def slot_ok_def Let_def ir_ok_def)
  have own: "\<exists>s \<in> set (b_slots st). indexed_slot rules s \<and> slot_nat s = slot_nat s'"
    if h: "s' \<in> set (ir_slots ir)" "slot_op s' = OpTrieOwned" for s'
  proof -
    obtain s where s: "s \<in> set (b_slots st)" "owned_slot rules s s'" using owned_slotD [OF st(2) h(1)] by blast
    then have "indexed_slot rules s" using slot [OF s(1)] h(2) by (auto simp: owned_slot_def indexed_slot_def)
    then show ?thesis using s owned_slot_sel(1) [OF s(2)] by auto
  qed
  show ?thesis
  proof (cases "rule_host md = []")
    case True
    have "\<not> match_metadata E P md (rules ! slot_nat s')" if h: "s' \<in> set (ir_slots ir)" "slot_op s' = OpTrieOwned" for s'
      using own [OF h] slot index_key_no_host [OF _ True] by (fastforce simp: indexed_slot_def)
    then show ?thesis using True by (auto simp: hit_ok_def)
  next
    case False
    then have "live_host (rule_host md)" using host by (simp add: live_host_def)
    then obtain r where r: "index_search (ir_index ir) (rule_host md) = Some r"
      "is_min_of r {slot_nat s | s. s \<in> set (b_slots st) \<and> indexed_slot rules s \<and> match_metadata E P md (rules ! slot_nat s)}"
      using index_over_slots [OF run _ ok st(3,4)] by blast
    have "hit_ok E P md rules ir r"
    proof (cases r)
      case None
      then show ?thesis using r(2) own by (fastforce simp: hit_ok_def is_min_of_def)
    next
      case (Some t)
      obtain s where s: "s \<in> set (b_slots st)" "indexed_slot rules s" "match_metadata E P md (rules ! slot_nat s)" "slot_nat s = t"
        using r(2) Some by (auto simp: is_min_of_def)
      obtain s' where s': "s' \<in> set (ir_slots ir)" "owned_slot rules s s'" using owned_slotD2 [OF st(2) s(1)] by blast
      have "slot_nat s' = t" using owned_slot_sel(1) [OF s'(2)] s(4) by simp
      moreover have "type_of_rule (rules ! t) \<noteq> RtSubRule"
        using s(2,4) slot [OF s(1)] index_key_static by (auto simp: indexed_slot_def)
      moreover have "\<not> match_metadata E P md (rules ! slot_nat x)"
        if x: "x \<in> set (ir_slots ir)" "slot_op x = OpTrieOwned" "slot_nat x < t" for x
        using own [OF x(1,2)] x(3) r(2) Some by (force simp: is_min_of_def)
      ultimately show ?thesis using Some s(3,4) s'(1) by (auto simp: hit_ok_def)
    qed
    then show ?thesis using r(1) False by simp
  qed
qed

subsection \<open>The strict match\<close>

lemma planned_scan_exact:
  assumes run: "run_ok E P md rules" and host: "normal_host (rule_host md)" and ir: "ir_build E P rules = Some ir"
  shows "\<exists>out sk. planned_scan False E P pr md ir rules = Some (out, sk) \<and>
    (case out of
       ScanMatched m \<Rightarrow> first_match E P pr md (map ((!) rules) (map slot_nat (ir_slots ir))) = Some (result_of m)
     | ScanExhausted \<Rightarrow> first_match E P pr md (map ((!) rules) (map slot_nat (ir_slots ir))) = None
     | ScanBlocked _ \<Rightarrow> False)"
proof (cases "ir_plan ir")
  case LinearScan
  have "slice (ir_slots ir) 0 (length (ir_slots ir)) = Some (ir_slots ir)" by (simp add: slice_def)
  then show ?thesis
    using scan_slots_exact [OF run ir_build_ready(1) [OF ir], of "ir_slots ir" True pr 0] LinearScan
    by (simp add: planned_scan_def scan_slice_def)
next
  case DomainIndexed
  obtain hit where "(if rule_host md = [] then Some None else index_search (ir_index ir) (rule_host md)) = Some hit"
    "hit_ok E P md rules ir hit"
    using index_hit_ok [OF run host ir DomainIndexed] by blast
  then have "\<exists>out sk. indexed_scan False E P pr md ir rules = Some (out, sk) \<and>
    (case out of
       ScanMatched m \<Rightarrow> first_match E P pr md (map ((!) rules) (map slot_nat (ir_slots ir))) = Some (result_of m)
     | ScanExhausted \<Rightarrow> first_match E P pr md (map ((!) rules) (map slot_nat (ir_slots ir))) = None
     | ScanBlocked _ \<Rightarrow> False)"
    by (intro indexed_scan_exact [OF run ir_build_ready(1) [OF ir]])
  then show ?thesis using DomainIndexed by (simp add: planned_scan_def)
qed

lemma match_rules_exact:
  assumes "run_ok E P md rules" and "normal_host (rule_host md)" and "check pr ''DIRECT'' = Usable"
    and "ir_build E P rules = Some ir"
  shows "\<exists>m sk. match_rules E P pr md ir rules = Some (m, sk) \<and> map_option result_of m = first_match E P pr md rules"
proof -
  obtain st where st: "build_loop E P build_init 0 rules = Some st" "list_all2 (owned_slot rules) (b_slots st) (ir_slots ir)"
    by (rule ir_build_cases [OF assms(4)])
  have fm: "first_match E P pr md (map ((!) rules) (map slot_nat (ir_slots ir))) = first_match E P pr md rules"
    using slots_first_match [OF assms(1,3) st(1)] owned_maps(1) [OF st(2)] by (simp only:)
  obtain out sk where p: "planned_scan False E P pr md ir rules = Some (out, sk)"
    "case out of ScanMatched m \<Rightarrow> first_match E P pr md rules = Some (result_of m)
     | ScanExhausted \<Rightarrow> first_match E P pr md rules = None | ScanBlocked _ \<Rightarrow> False"
    using planned_scan_exact [OF assms(1,2,4), of pr] unfolding fm by blast
  then show ?thesis by (cases out) (auto simp: match_rules_def)
qed

subsection \<open>The demand-driven match\<close>

lemma scan_step:
  assumes "\<not> (stop \<and> slot_blocked s md)" and "\<not> (slot_op s = OpFallback \<and> length rules \<le> slot_nat s)"
    and "slot_match ev E P pr md ir rules s = Some x"
  shows "scan_range_ctl stop ev E P pr md ir rules (s # ss) pos =
    (case x of
       None \<Rightarrow> scan_range_ctl stop ev E P pr md ir rules ss (pos + 1)
     | Some m \<Rightarrow>
         (case check pr (cm_adapter_name m) of
            Usable \<Rightarrow> Some (ScanMatched m, [])
          | Pass \<Rightarrow> scan_range_ctl stop ev E P pr md ir rules ss (pos + 1)
          | Missing \<Rightarrow> map_option (\<lambda>(out, skipped). (out, m # skipped)) (scan_range_ctl stop ev E P pr md ir rules ss (pos + 1))))"
  using assms by (simp only: scan_range_ctl.simps Let_def if_False bind.bind_lunit)

lemma scan_blocked_later:
  assumes "\<not> slot_blocked s md" and "scan_range_ctl True ev E P pr md ir rules (s # ss) pos = Some (ScanBlocked p, sk)"
  obtains sk' where "scan_range_ctl True ev E P pr md ir rules ss (pos + 1) = Some (ScanBlocked p, sk')"
proof -
  have go: "\<not> (slot_op s = OpFallback \<and> length rules \<le> slot_nat s)" using assms by auto
  then obtain x where x: "slot_match ev E P pr md ir rules s = Some x" using assms by (auto simp: bind_eq_Some_conv)
  show ?thesis
    using assms that scan_step [OF _ go x, of True] by (auto split: option.splits target_check.splits simp del: scan_range_ctl.simps)
qed

lemma scan_lazy:
  assumes "scan_range_ctl True ev E P pr md ir rules ss pos = Some (out, sk)"
  shows "(\<forall>p. out \<noteq> ScanBlocked p) \<longrightarrow> scan_range_ctl False ev E P pr md ir rules ss pos = Some (out, sk)"
    and "out = ScanBlocked p \<Longrightarrow> pos \<le> p \<and> p < pos + length ss \<and> slot_blocked (ss ! (p - pos)) md"
proof -
  show "(\<forall>p. out \<noteq> ScanBlocked p) \<longrightarrow> scan_range_ctl False ev E P pr md ir rules ss pos = Some (out, sk)"
    using assms
  proof (induction ss arbitrary: pos out sk)
    case (Cons s ss)
    show ?case
    proof (cases "slot_blocked s md \<or> slot_op s = OpFallback \<and> length rules \<le> slot_nat s")
      case True
      then show ?thesis using Cons.prems by (auto split: if_splits)
    next
      case False
      then obtain x where x: "slot_match ev E P pr md ir rules s = Some x" using Cons.prems by (auto simp: bind_eq_Some_conv)
      show ?thesis using Cons.prems Cons.IH False unfolding scan_step [OF _ _ x]
        by (auto simp: scan_step [OF _ _ x] simp del: scan_range_ctl.simps split: option.splits target_check.splits)
    qed
  qed simp
  show "pos \<le> p \<and> p < pos + length ss \<and> slot_blocked (ss ! (p - pos)) md" if "out = ScanBlocked p"
    using assms that
  proof (induction ss arbitrary: pos sk out)
    case (Cons s ss)
    show ?case
    proof (cases "slot_blocked s md")
      case True
      then show ?thesis using Cons.prems by simp
    next
      case False
      then obtain sk' where "scan_range_ctl True ev E P pr md ir rules ss (pos + 1) = Some (ScanBlocked p, sk')"
        by (rule scan_blocked_later [OF _ Cons.prems(1) [unfolded Cons.prems(2)]])
      then have "pos + 1 \<le> p \<and> p < pos + 1 + length ss \<and> slot_blocked (ss ! (p - (pos + 1))) md"
        using Cons.IH by blast
      then show ?thesis by (auto simp: nth_Cons')
    qed
  qed simp
qed

text \<open>A scan that stops at a missing field: it names a blocked slot, or it is the full scan.\<close>

definition lazy_agrees ::
  "compiled_rule_set \<Rightarrow> metadata \<Rightarrow> scan_outcome \<times> compiled_match_result list \<Rightarrow>
   (scan_outcome \<times> compiled_match_result list) panics \<Rightarrow> bool" where
  "lazy_agrees ir md r full =
     (case fst r of ScanBlocked p \<Rightarrow> p < length (ir_slots ir) \<and> slot_blocked (ir_slots ir ! p) md | _ \<Rightarrow> full = Some r)"

lemma lazy_agrees_simps [simp]:
  "lazy_agrees ir md (ScanMatched m, sk) full = (full = Some (ScanMatched m, sk))"
  "lazy_agrees ir md (ScanExhausted, sk) full = (full = Some (ScanExhausted, sk))"
  "lazy_agrees ir md (ScanBlocked p, sk) full = (p < length (ir_slots ir) \<and> slot_blocked (ir_slots ir ! p) md)"
  by (simp_all add: lazy_agrees_def)

lemma slice_lazy:
  assumes "scan_slice True ev E P pr md ir rules a b = Some r"
  shows "lazy_agrees ir md r (scan_slice False ev E P pr md ir rules a b)"
proof -
  obtain ss out sk where ss: "slice (ir_slots ir) a b = Some ss" "scan_range_ctl True ev E P pr md ir rules ss a = Some (out, sk)"
    "r = (out, sk)"
    using assms by (cases r) (auto simp: scan_slice_def bind_eq_Some_conv)
  show ?thesis
  proof (cases out)
    case (ScanBlocked p)
    then show ?thesis using scan_lazy(2) [OF ss(2) ScanBlocked] ss(1,3) by (auto simp: slice_def split: if_splits)
  qed (use scan_lazy(1) [OF ss(2)] ss in \<open>auto simp: scan_slice_def\<close>)
qed

lemma add_skipped_lazy:
  assumes "add_skipped sk (scan_slice True ev E P pr md ir rules a b) = Some r"
  shows "lazy_agrees ir md r (add_skipped sk (scan_slice False ev E P pr md ir rules a b))"
proof -
  obtain out sk' where p: "scan_slice True ev E P pr md ir rules a b = Some (out, sk')" "r = (out, sk @ sk')"
    using assms by (auto simp: add_skipped_def)
  show ?thesis using slice_lazy [OF p(1)] p(2) by (cases out) (simp_all add: add_skipped_def)
qed

lemma indexed_lazy:
  assumes "indexed_scan True E P pr md ir rules = Some r"
  shows "lazy_agrees ir md r (indexed_scan False E P pr md ir rules)"
proof -
  let ?n = "length (ir_slots ir)"
  obtain e hit out sk where p: "trie_cut md ir = Some (e, hit)" "scan_slice True False E P pr md ir rules 0 e = Some (out, sk)"
    using assms by (auto simp: indexed_scan_def bind_eq_Some_conv)
  note lz = slice_lazy [OF p(2)]
  show ?thesis
  proof (cases out)
    case ScanExhausted
    then have full: "scan_slice False False E P pr md ir rules 0 e = Some (ScanExhausted, sk)" using lz by simp
    show ?thesis
    proof (cases hit)
      case None
      have "indexed_scan stop E P pr md ir rules = add_skipped sk (scan_slice stop True E P pr md ir rules e ?n)" for stop
        using p ScanExhausted None full by (cases stop) (simp_all add: indexed_scan_def)
      then show ?thesis using add_skipped_lazy assms by simp
    next
      case (Some s)
      then obtain m where m: "static_match ir s rules = Some m" using assms p ScanExhausted by (auto simp: indexed_scan_def bind_eq_Some_conv)
      have eq: "indexed_scan stop E P pr md ir rules =
          (let tail = scan_slice stop True E P pr md ir rules (e + 1) ?n in
           case check pr (cm_adapter_name m) of Usable \<Rightarrow> Some (ScanMatched m, sk) | Pass \<Rightarrow> add_skipped sk tail
           | Missing \<Rightarrow> add_skipped (sk @ [m]) tail)" for stop
        using p ScanExhausted Some full m by (cases stop) (simp_all add: indexed_scan_def)
      show ?thesis using assms add_skipped_lazy unfolding eq
        by (cases "check pr (cm_adapter_name m)") (auto simp: Let_def)
    qed
  qed (use assms p lz in \<open>auto simp: indexed_scan_def\<close>)
qed

lemma planned_lazy:
  assumes "planned_scan True E P pr md ir rules = Some r"
  shows "lazy_agrees ir md r (planned_scan False E P pr md ir rules)"
  using assms slice_lazy indexed_lazy by (auto simp: planned_scan_def split: if_splits)

lemma scan_lazy_total:
  "scan_range_ctl False ev E P pr md ir rules ss pos \<noteq> None \<Longrightarrow> scan_range_ctl True ev E P pr md ir rules ss pos \<noteq> None"
proof (induction ss arbitrary: pos)
  case (Cons s ss)
  show ?case
  proof (cases "slot_blocked s md \<or> slot_op s = OpFallback \<and> length rules \<le> slot_nat s")
    case False
    then show ?thesis using Cons.prems Cons.IH [of "pos + 1"]
      by (cases "slot_match ev E P pr md ir rules s") (auto simp: Let_def split: option.splits target_check.splits)
  qed auto
qed simp

lemma slice_lazy_total:
  "scan_slice False ev E P pr md ir rules a b \<noteq> None \<Longrightarrow> scan_slice True ev E P pr md ir rules a b \<noteq> None"
  using scan_lazy_total by (cases "slice (ir_slots ir) a b") (simp_all add: scan_slice_def)

lemma indexed_lazy_total:
  assumes "indexed_scan False E P pr md ir rules \<noteq> None"
  shows "indexed_scan True E P pr md ir rules \<noteq> None"
proof -
  obtain e hit where cut: "trie_cut md ir = Some (e, hit)" using assms by (cases "trie_cut md ir") (auto simp: indexed_scan_def)
  obtain r where "scan_slice False False E P pr md ir rules 0 e = Some r"
    using assms cut by (cases "scan_slice False False E P pr md ir rules 0 e") (auto simp: indexed_scan_def)
  then obtain out sk where p: "scan_slice True False E P pr md ir rules 0 e = Some (out, sk)"
    using slice_lazy_total by (metis not_Some_eq option.distinct(1) surj_pair)
  show ?thesis
  proof (cases out)
    case ScanExhausted
    then have "scan_slice False False E P pr md ir rules 0 e = Some (ScanExhausted, sk)" using slice_lazy [OF p] by simp
    note run = this cut p ScanExhausted
    show ?thesis
    proof (cases hit)
      case None
      then show ?thesis using assms run slice_lazy_total by (auto simp: indexed_scan_def add_skipped_def)
    next
      case (Some s)
      then obtain m where m: "static_match ir s rules = Some m"
        using assms run by (cases "static_match ir s rules") (auto simp: indexed_scan_def)
      show ?thesis using assms run Some m slice_lazy_total
        by (cases "check pr (cm_adapter_name m)") (auto simp: indexed_scan_def add_skipped_def Let_def)
    qed
  qed (use cut p in \<open>auto simp: indexed_scan_def\<close>)
qed

lemma planned_lazy_total:
  "planned_scan False E P pr md ir rules \<noteq> None \<Longrightarrow> planned_scan True E P pr md ir rules \<noteq> None"
  using slice_lazy_total indexed_lazy_total by (auto simp: planned_scan_def split: if_splits)

lemma enrichment_needs_some:
  assumes "p < length (ir_slots ir)" and "slot_blocked (ir_slots ir ! p) md"
  shows "\<exists>ip proc. enrichment_needs ir p md = Some (NeedsEnrichment ip proc (slot_nat (ir_slots ir ! p))) \<and> (ip \<or> proc) \<and>
    (ip \<longrightarrow> ip_missing md) \<and> (proc \<longrightarrow> process_missing md)"
proof -
  have "ir_slots ir ! p \<in> set (drop p (ir_slots ir))" using assms(1) by (simp add: Cons_nth_drop_Suc [symmetric])
  then show ?thesis using assms
    by (auto simp: enrichment_needs_def slice_def index_def slot_blocked_def list_ex_iff)
qed

lemma lazy_cases:
  assumes "match_rules_lazy E P pr md ir rules = Some (out, sk)"
  shows "case out of
      LazyMatched m \<Rightarrow> match_rules E P pr md ir rules = Some (Some m, sk)
    | LazyNoMatch \<Rightarrow> match_rules E P pr md ir rules = Some (None, sk)
    | NeedsEnrichment ip proc i \<Rightarrow>
        (ip \<or> proc) \<and> (ip \<longrightarrow> ip_missing md) \<and> (proc \<longrightarrow> process_missing md) \<and> i \<in> slot_nat ` set (ir_slots ir) \<and> sk = []"
proof -
  obtain o' sk' where p: "planned_scan True E P pr md ir rules = Some (o', sk')"
    using assms by (auto simp: match_rules_lazy_def bind_eq_Some_conv)
  show ?thesis
  proof (cases o')
    case (ScanBlocked q)
    then have "q < length (ir_slots ir)" "slot_blocked (ir_slots ir ! q) md" using planned_lazy [OF p] by auto
    then show ?thesis using assms p ScanBlocked enrichment_needs_some by (fastforce simp: match_rules_lazy_def)
  qed (use assms p planned_lazy [OF p] in \<open>auto simp: match_rules_lazy_def match_rules_def\<close>)
qed

lemma lazy_total:
  assumes "match_rules E P pr md ir rules \<noteq> None"
  shows "match_rules_lazy E P pr md ir rules \<noteq> None"
proof -
  have "planned_scan True E P pr md ir rules \<noteq> None"
    using planned_lazy_total assms by (auto simp: match_rules_def)
  then obtain out sk where p: "planned_scan True E P pr md ir rules = Some (out, sk)" by auto
  show ?thesis
  proof (cases out)
    case (ScanBlocked q)
    then have "q < length (ir_slots ir)" "slot_blocked (ir_slots ir ! q) md" using planned_lazy [OF p] by auto
    then show ?thesis using p ScanBlocked enrichment_needs_some by (fastforce simp: match_rules_lazy_def)
  qed (simp_all add: match_rules_lazy_def p)
qed

subsection \<open>The theorems\<close>


definition demo_rules :: "rule list" where
  "demo_rules = [DomainSuffixRule ''a.com'' ''P'', DomainRule ''x.a.com'' ''P'', ProcessRule ''curl'' ''Q'', FinalRule ''DIRECT'']"

lemma demo_rules_built:
  "\<exists>ir. ir_build demo_regex_lib demo_platform demo_rules = Some ir \<and> ir_len ir = 3"
proof -
  have "map_option ir_len (ir_build demo_regex_lib demo_platform demo_rules) = Some 3" by code_simp
  then show ?thesis by auto
qed





text \<open>
  C10. The compiled form is well-formed: whatever the rules, the slots of a successful compilation
  are in strictly ascending rule order, each carries the type and the adapter of its rule through
  valid indices, only SUB-RULE slots have a dynamic target, the adapter table has no duplicates and
  agrees with its lookup map, the demand flags summarise the slots, and the linear plan is chosen
  exactly up to the size limit.
\<close>

theorem ir_build_invariant:
  assumes "ir_build E P rules = Some ir"
  shows "ir_wf rules ir"
  by (rule ir_build_ready(2) [OF assms])

theorem ir_build_invariant_witness:
  "\<exists>ir. ir_build demo_regex_lib demo_platform [DomainSuffixRule ''a.com'' ''P'', DomainRule ''x.a.com'' ''P'', FinalRule ''DIRECT''] = Some ir \<and>
     ir_len ir = 2 \<and> ir_wf [DomainSuffixRule ''a.com'' ''P'', DomainRule ''x.a.com'' ''P'', FinalRule ''DIRECT''] ir"
proof -
  let ?rules = "[DomainSuffixRule ''a.com'' ''P'', DomainRule ''x.a.com'' ''P'', FinalRule ''DIRECT'']"
  have "map_option ir_len (ir_build demo_regex_lib demo_platform ?rules) = Some 2" by code_simp
  then obtain ir where "ir_build demo_regex_lib demo_platform ?rules = Some ir" "ir_len ir = 2" by auto
  then show ?thesis using ir_build_invariant by blast
qed

end
