(* ===== verification/Lru_Cache.thy ===== *)
theory Lru_Cache
  imports Prelude "HOL-Library.AList"
begin

section \<open>Least-recently-used caches\<close>

text \<open>
  The \<^verbatim>\<open>lru\<close> crate, which the DNS cache and the fake-IP store call, as a record of its operations, and
  the documented behaviour of these operations as a contract: a cache stands for the list of its
  entries, the most recently used one first. \<^verbatim>\<open>get\<close> and \<^verbatim>\<open>put\<close> move an entry to the front,
  \<^verbatim>\<open>peek\<close> and \<^verbatim>\<open>contains\<close> leave the order alone, \<^verbatim>\<open>pop_lru\<close> removes the last entry.
  Definitions that use a cache take the record as an argument; their theorems assume the contract.
\<close>

record ('c, 'k, 'v) lru_ops =
  lru_empty :: 'c
  lru_get :: "'c \<Rightarrow> 'k \<Rightarrow> 'v option \<times> 'c"
  lru_peek :: "'c \<Rightarrow> 'k \<Rightarrow> 'v option"
  lru_put :: "'c \<Rightarrow> 'k \<Rightarrow> 'v \<Rightarrow> 'c"
  lru_pop :: "'c \<Rightarrow> 'k \<Rightarrow> 'v option \<times> 'c"
  lru_pop_lru :: "'c \<Rightarrow> ('k \<times> 'v) option \<times> 'c"
  lru_len :: "'c \<Rightarrow> nat"
  lru_contains :: "'c \<Rightarrow> 'k \<Rightarrow> bool"
  lru_iter :: "'c \<Rightarrow> ('k \<times> 'v) list"
  lru_clear :: "'c \<Rightarrow> 'c"

definition touch :: "'k \<Rightarrow> ('k \<times> 'v) list \<Rightarrow> ('k \<times> 'v) list" where
  "touch k xs = (case map_of xs k of None \<Rightarrow> xs | Some v \<Rightarrow> (k, v) # AList.delete k xs)"

definition last_entry :: "'a list \<Rightarrow> 'a option" where
  "last_entry xs = (if xs = [] then None else Some (last xs))"

definition keyed :: "('k \<times> 'v) list \<Rightarrow> bool" where
  "keyed xs \<longleftrightarrow> distinct (map fst xs)"

locale recency_cache =
  fixes L :: "('c, 'k, 'v) lru_ops" and items :: "'c \<Rightarrow> ('k \<times> 'v) list"
  assumes items_empty: "items (lru_empty L) = []"
    and get_value: "fst (lru_get L c k) = map_of (items c) k"
    and items_get: "items (snd (lru_get L c k)) = touch k (items c)"
    and peek_value: "lru_peek L c k = map_of (items c) k"
    and items_put: "items (lru_put L c k v) = (k, v) # AList.delete k (items c)"
    and pop_value: "fst (lru_pop L c k) = map_of (items c) k"
    and items_pop: "items (snd (lru_pop L c k)) = AList.delete k (items c)"
    and pop_lru_value: "fst (lru_pop_lru L c) = last_entry (items c)"
    and items_pop_lru: "items (snd (lru_pop_lru L c)) = butlast (items c)"
    and len_items: "lru_len L c = length (items c)"
    and contains_items: "lru_contains L c k \<longleftrightarrow> k \<in> fst ` set (items c)"
    and iter_items: "lru_iter L c = items c"
    and items_clear: "items (lru_clear L c) = []"

subsection \<open>Recency lists\<close>

lemma keyed_Nil [simp]: "keyed []"
  by (simp add: keyed_def)

lemma keyed_delete [simp]: "keyed xs \<Longrightarrow> keyed (AList.delete k xs)"
  by (simp add: keyed_def distinct_delete)

lemma keyed_Cons [simp]: "keyed ((k, v) # xs) \<longleftrightarrow> k \<notin> fst ` set xs \<and> keyed xs"
  by (simp add: keyed_def)

lemma delete_keys [simp]: "fst ` set (AList.delete k xs) = fst ` set xs - {k}"
  by (induction xs) (auto simp: AList.delete_eq)

lemma keyed_put [simp]: "keyed xs \<Longrightarrow> keyed ((k, v) # AList.delete k xs)"
  by (simp add: delete_keys)

lemma map_of_put [simp]: "map_of ((k, v) # AList.delete k xs) = (map_of xs)(k \<mapsto> v)"
  by (simp add: delete_conv' fun_upd_idem_iff)

lemma map_of_touch [simp]: "map_of (touch k xs) = map_of xs"
  by (auto simp: touch_def delete_conv' split: option.split)

lemma keyed_touch [simp]: "keyed xs \<Longrightarrow> keyed (touch k xs)"
  by (auto simp: touch_def delete_keys split: option.split)

lemma delete_miss: "map_of xs k = None \<Longrightarrow> AList.delete k xs = xs"
  by (induction xs) (auto simp: AList.delete_eq split: if_splits)

lemma length_delete_hit: "keyed xs \<Longrightarrow> map_of xs k \<noteq> None \<Longrightarrow> Suc (length (AList.delete k xs)) = length xs"
proof (induction xs)
  case (Cons x xs)
  show ?case
  proof (cases "fst x = k")
    case True
    then have "k \<notin> fst ` set xs" using Cons.prems(1) by (cases x) simp
    then have "AList.delete k xs = xs" by (simp add: delete_miss map_of_eq_None_iff)
    then show ?thesis using True by (cases x) (simp add: AList.delete_eq)
  next
    case False
    then show ?thesis using Cons by (cases x) (simp add: AList.delete_eq)
  qed
qed simp

lemma length_touch [simp]: "keyed xs \<Longrightarrow> length (touch k xs) = length xs"
  using length_delete_hit [of xs k] by (auto simp: touch_def split: option.split)

lemma card_keyed: "keyed xs \<Longrightarrow> card (dom (map_of xs)) = length xs"
  by (simp add: keyed_def dom_map_of_conv_image_fst) (metis distinct_card length_map set_map)

lemma keyed_butlast: "keyed xs \<Longrightarrow> keyed (butlast xs)"
  by (simp add: keyed_def map_butlast distinct_butlast)

lemma map_of_butlast:
  assumes "keyed xs" and "xs \<noteq> []"
  shows "map_of (butlast xs) = (map_of xs)(fst (last xs) := None)"
  using assms
proof (induction xs)
  case (Cons x xs)
  show ?case
  proof (cases "xs = []")
    case False
    then have "fst (last xs) \<noteq> fst x" using Cons.prems(1) last_in_set [OF False] by (cases x) (auto simp: image_iff)
    then show ?thesis using Cons False by (cases x) (auto simp: fun_upd_twist)
  qed auto
qed simp

lemma last_entry_keyed: "keyed xs \<Longrightarrow> last_entry xs = Some (k, v) \<Longrightarrow> map_of xs k = Some v"
  by (auto simp: last_entry_def keyed_def split: if_splits intro!: map_of_is_SomeI) (metis last_in_set)

subsection \<open>An instance\<close>

definition list_lru :: "(('k \<times> 'v) list, 'k, 'v) lru_ops" where
  "list_lru = \<lparr>lru_empty = [], lru_get = (\<lambda>xs k. (map_of xs k, touch k xs)), lru_peek = map_of,
     lru_put = (\<lambda>xs k v. (k, v) # AList.delete k xs), lru_pop = (\<lambda>xs k. (map_of xs k, AList.delete k xs)),
     lru_pop_lru = (\<lambda>xs. (last_entry xs, butlast xs)), lru_len = length, lru_contains = (\<lambda>xs k. k \<in> fst ` set xs),
     lru_iter = (\<lambda>xs. xs), lru_clear = (\<lambda>_. [])\<rparr>"

interpretation lru_list: recency_cache list_lru "\<lambda>xs. xs"
  by unfold_locales (simp_all add: list_lru_def)

end
