(* ===== verification/Fake_Ip.thy ===== *)
theory Fake_Ip
  imports Lru_Cache Rule_Set
begin

section \<open>Fake-IP pool\<close>

text \<open>
  \<^verbatim>\<open>crates/meow-dns/src/fakeip.rs\<close>: the two stores of host names and addresses, the allocator that
  hands out the addresses of a network in turn, and the filter of names that bypass it. A store is
  a record of the operations of the \<^verbatim>\<open>Store\<close> trait over a state type; the pool takes that record as
  an argument, as the code takes an \<^verbatim>\<open>Arc<dyn Store>\<close>. The mutexes serialise the operations, so a
  history of the pool is a sequence of them. The JSON library and the outcome of the file operations
  are parameters.
\<close>

subsection \<open>The store trait\<close>

record 's store_ops =
  st_get_by_host :: "'s \<Rightarrow> string \<Rightarrow> ip_addr option \<times> 's"
  st_get_by_ip :: "'s \<Rightarrow> ip_addr \<Rightarrow> string option \<times> 's"
  st_put :: "'s \<Rightarrow> string \<Rightarrow> ip_addr \<Rightarrow> 's"
  st_del_by_ip :: "'s \<Rightarrow> ip_addr \<Rightarrow> 's"
  st_exists :: "'s \<Rightarrow> ip_addr \<Rightarrow> bool"
  st_flush :: "'s \<Rightarrow> 's"
  st_put_state :: "'s \<Rightarrow> ip_addr \<Rightarrow> bool \<Rightarrow> 's"
  st_get_state :: "'s \<Rightarrow> (ip_addr \<times> bool) option"
  st_is_persistent :: bool

subsection \<open>Memory store\<close>

record ('c, 'd) memory_store =
  by_host :: 'c
  by_ip :: 'd
  mem_cap :: nat

type_synonym 'c host_lru = "('c, string, ip_addr) lru_ops"
type_synonym 'd ip_lru = "('d, ip_addr, string) lru_ops"

definition mem_new :: "'c host_lru \<Rightarrow> 'd ip_lru \<Rightarrow> nat \<Rightarrow> ('c, 'd) memory_store" where
  "mem_new LH LI sz = \<lparr>by_host = lru_empty LH, by_ip = lru_empty LI, mem_cap = max sz 1\<rparr>"

definition mem_get_by_host ::
  "'c host_lru \<Rightarrow> 'd ip_lru \<Rightarrow> ('c, 'd) memory_store \<Rightarrow> string \<Rightarrow> ip_addr option \<times> ('c, 'd) memory_store" where
  "mem_get_by_host LH LI s h =
     (case lru_get LH (by_host s) h of
        (None, c) \<Rightarrow> (None, s\<lparr>by_host := c\<rparr>)
      | (Some ip, c) \<Rightarrow> (Some ip, s\<lparr>by_host := c, by_ip := snd (lru_get LI (by_ip s) ip)\<rparr>))"

definition mem_get_by_ip ::
  "'c host_lru \<Rightarrow> 'd ip_lru \<Rightarrow> ('c, 'd) memory_store \<Rightarrow> ip_addr \<Rightarrow> string option \<times> ('c, 'd) memory_store" where
  "mem_get_by_ip LH LI s ip =
     (case lru_get LI (by_ip s) ip of
        (None, d) \<Rightarrow> (None, s\<lparr>by_ip := d\<rparr>)
      | (Some h, d) \<Rightarrow> (Some h, s\<lparr>by_ip := d, by_host := snd (lru_get LH (by_host s) h)\<rparr>))"

text \<open>The two evictions of \<^verbatim>\<open>put\<close>: the oldest pair of one direction, with its mirror entry.\<close>

definition mem_evict_ip ::
  "'c host_lru \<Rightarrow> 'd ip_lru \<Rightarrow> ('c, 'd) memory_store \<Rightarrow> ('c, 'd) memory_store" where
  "mem_evict_ip LH LI s =
     (if mem_cap s < lru_len LI (by_ip s) then
        case lru_pop_lru LI (by_ip s) of
          (None, d) \<Rightarrow> s\<lparr>by_ip := d\<rparr>
        | (Some (ip, h), d) \<Rightarrow>
            if lru_peek LH (by_host s) h = Some ip
            then s\<lparr>by_ip := d, by_host := snd (lru_pop LH (by_host s) h)\<rparr>
            else s\<lparr>by_ip := d\<rparr>
      else s)"

definition mem_evict_host ::
  "'c host_lru \<Rightarrow> 'd ip_lru \<Rightarrow> ('c, 'd) memory_store \<Rightarrow> ('c, 'd) memory_store" where
  "mem_evict_host LH LI s =
     (if mem_cap s < lru_len LH (by_host s) then
        case lru_pop_lru LH (by_host s) of
          (None, c) \<Rightarrow> s\<lparr>by_host := c\<rparr>
        | (Some (h, ip), c) \<Rightarrow>
            if lru_peek LI (by_ip s) ip = Some h
            then s\<lparr>by_host := c, by_ip := snd (lru_pop LI (by_ip s) ip)\<rparr>
            else s\<lparr>by_host := c\<rparr>
      else s)"

definition mem_put ::
  "'c host_lru \<Rightarrow> 'd ip_lru \<Rightarrow> ('c, 'd) memory_store \<Rightarrow> string \<Rightarrow> ip_addr \<Rightarrow> ('c, 'd) memory_store" where
  "mem_put LH LI s h ip =
     mem_evict_host LH LI (mem_evict_ip LH LI
       (s\<lparr>by_host := lru_put LH (by_host s) h ip, by_ip := lru_put LI (by_ip s) ip h\<rparr>))"

definition mem_del_by_ip ::
  "'c host_lru \<Rightarrow> 'd ip_lru \<Rightarrow> ('c, 'd) memory_store \<Rightarrow> ip_addr \<Rightarrow> ('c, 'd) memory_store" where
  "mem_del_by_ip LH LI s ip =
     (case lru_pop LI (by_ip s) ip of
        (None, d) \<Rightarrow> s\<lparr>by_ip := d\<rparr>
      | (Some h, d) \<Rightarrow>
          if lru_peek LH (by_host s) h = Some ip
          then s\<lparr>by_ip := d, by_host := snd (lru_pop LH (by_host s) h)\<rparr>
          else s\<lparr>by_ip := d\<rparr>)"

definition mem_exists :: "'d ip_lru \<Rightarrow> ('c, 'd) memory_store \<Rightarrow> ip_addr \<Rightarrow> bool" where
  "mem_exists LI s ip = lru_contains LI (by_ip s) ip"

definition mem_flush :: "'c host_lru \<Rightarrow> 'd ip_lru \<Rightarrow> ('c, 'd) memory_store \<Rightarrow> ('c, 'd) memory_store" where
  "mem_flush LH LI s = s\<lparr>by_host := lru_clear LH (by_host s), by_ip := lru_clear LI (by_ip s)\<rparr>"

text \<open>The trait object; the cursor is not kept, as in the default methods of the trait.\<close>

definition memory_ops :: "'c host_lru \<Rightarrow> 'd ip_lru \<Rightarrow> ('c, 'd) memory_store store_ops" where
  "memory_ops LH LI =
     \<lparr>st_get_by_host = mem_get_by_host LH LI, st_get_by_ip = mem_get_by_ip LH LI, st_put = mem_put LH LI,
      st_del_by_ip = mem_del_by_ip LH LI, st_exists = mem_exists LI, st_flush = mem_flush LH LI,
      st_put_state = (\<lambda>s _ _. s), st_get_state = (\<lambda>_. None), st_is_persistent = False\<rparr>"

subsection \<open>File store\<close>

record snapshot =
  snap_entries :: "(string \<times> ip_addr) list"
  snap_offset :: "ip_addr option"
  snap_cycle :: bool

record file_store =
  fs_state :: snapshot
  fs_reverse :: "(ip_addr \<times> string) list"
  fs_dirty :: bool

record json_lib =
  json_to_vec :: "snapshot \<Rightarrow> string option"
  json_from_slice :: "string \<Rightarrow> snapshot option"

datatype stored_file = FileMissing | FileUnreadable | FileContent string

definition snapshot_default :: snapshot where
  "snapshot_default = \<lparr>snap_entries = [], snap_offset = None, snap_cycle = False\<rparr>"

definition load_snapshot :: "json_lib \<Rightarrow> stored_file \<Rightarrow> snapshot" where
  "load_snapshot J f =
     (case f of
        FileMissing \<Rightarrow> snapshot_default
      | FileUnreadable \<Rightarrow> snapshot_default
      | FileContent bytes \<Rightarrow> (case json_from_slice J bytes of Some snap \<Rightarrow> snap | None \<Rightarrow> snapshot_default))"

definition from_snapshot :: "snapshot \<Rightarrow> file_store" where
  "from_snapshot snap =
     \<lparr>fs_state = snap, fs_reverse = foldl (\<lambda>m (h, ip). AList.update ip h m) [] (snap_entries snap), fs_dirty = False\<rparr>"

definition file_open :: "json_lib \<Rightarrow> stored_file \<Rightarrow> file_store" where
  "file_open J f = from_snapshot (load_snapshot J f)"

definition serialise :: "snapshot \<Rightarrow> snapshot" where
  "serialise s = \<lparr>snap_entries = snap_entries s, snap_offset = snap_offset s, snap_cycle = snap_cycle s\<rparr>"

text \<open>
  The new content reaches the path by a rename: when serialisation or one of the file operations
  (\<open>io_ok\<close>) fails, the old file is still there.
\<close>

definition persist_to_file :: "json_lib \<Rightarrow> bool \<Rightarrow> stored_file \<Rightarrow> snapshot \<Rightarrow> stored_file" where
  "persist_to_file J io_ok old snap =
     (case json_to_vec J snap of
        None \<Rightarrow> old
      | Some bytes \<Rightarrow> if io_ok then FileContent bytes else old)"

definition file_drop :: "json_lib \<Rightarrow> bool \<Rightarrow> file_store \<Rightarrow> stored_file \<Rightarrow> stored_file" where
  "file_drop J io_ok s old = (if fs_dirty s then persist_to_file J io_ok old (serialise (fs_state s)) else old)"

definition file_get_by_host :: "file_store \<Rightarrow> string \<Rightarrow> ip_addr option \<times> file_store" where
  "file_get_by_host s h = (map_of (snap_entries (fs_state s)) h, s)"

definition file_get_by_ip :: "file_store \<Rightarrow> ip_addr \<Rightarrow> string option \<times> file_store" where
  "file_get_by_ip s ip = (map_of (fs_reverse s) ip, s)"

definition file_put :: "file_store \<Rightarrow> string \<Rightarrow> ip_addr \<Rightarrow> file_store" where
  "file_put s h ip =
     s\<lparr>fs_reverse := AList.update ip h (fs_reverse s),
       fs_state := (fs_state s)\<lparr>snap_entries := AList.update h ip (snap_entries (fs_state s))\<rparr>, fs_dirty := True\<rparr>"

definition file_del_by_ip :: "file_store \<Rightarrow> ip_addr \<Rightarrow> file_store" where
  "file_del_by_ip s ip =
     (case map_of (fs_reverse s) ip of
        None \<Rightarrow> s
      | Some h \<Rightarrow>
          (let s = s\<lparr>fs_reverse := AList.delete ip (fs_reverse s)\<rparr> in
           if map_of (snap_entries (fs_state s)) h = Some ip
           then s\<lparr>fs_state := (fs_state s)\<lparr>snap_entries := AList.delete h (snap_entries (fs_state s))\<rparr>, fs_dirty := True\<rparr>
           else s))"

definition file_exists :: "file_store \<Rightarrow> ip_addr \<Rightarrow> bool" where
  "file_exists s ip \<longleftrightarrow> ip \<in> fst ` set (fs_reverse s)"

definition file_flush :: "file_store \<Rightarrow> file_store" where
  "file_flush s = s\<lparr>fs_reverse := [], fs_state := snapshot_default, fs_dirty := True\<rparr>"

definition file_put_state :: "file_store \<Rightarrow> ip_addr \<Rightarrow> bool \<Rightarrow> file_store" where
  "file_put_state s off cyc =
     s\<lparr>fs_state := (fs_state s)\<lparr>snap_offset := Some off, snap_cycle := cyc\<rparr>, fs_dirty := True\<rparr>"

definition file_get_state :: "file_store \<Rightarrow> (ip_addr \<times> bool) option" where
  "file_get_state s = map_option (\<lambda>off. (off, snap_cycle (fs_state s))) (snap_offset (fs_state s))"

definition file_ops :: "file_store store_ops" where
  "file_ops =
     \<lparr>st_get_by_host = file_get_by_host, st_get_by_ip = file_get_by_ip, st_put = file_put,
      st_del_by_ip = file_del_by_ip, st_exists = file_exists, st_flush = file_flush,
      st_put_state = file_put_state, st_get_state = file_get_state, st_is_persistent = True\<rparr>"

subsection \<open>Addresses\<close>

fun next_addr :: "ip_addr \<Rightarrow> ip_addr" where
  "next_addr (V4 n) = V4 (n + 1)"
| "next_addr (V6 n) = V6 (n + 1)"

fun prev_addr :: "ip_addr \<Rightarrow> ip_addr" where
  "prev_addr (V4 n) = V4 (n - 1)"
| "prev_addr (V6 n) = V6 (n - 1)"

fun addr_less :: "ip_addr \<Rightarrow> ip_addr \<Rightarrow> bool" where
  "addr_less (V4 a) (V4 b) \<longleftrightarrow> a < b"
| "addr_less (V6 a) (V6 b) \<longleftrightarrow> a < b"
| "addr_less _ _ \<longleftrightarrow> False"

definition contained_in_range :: "ip_addr \<Rightarrow> ip_addr \<Rightarrow> ip_addr \<Rightarrow> bool" where
  "contained_in_range ip lo hi \<longleftrightarrow> \<not> addr_less ip lo \<and> addr_less ip hi"

fun is_v4 :: "ip_addr \<Rightarrow> bool" where
  "is_v4 (V4 _) = True"
| "is_v4 (V6 _) = False"

fun net_network :: "ext_lib \<Rightarrow> ip_net \<Rightarrow> ip_addr" where
  "net_network E (NetV4 n) = V4 (network4 E n)"
| "net_network E (NetV6 n) = V6 (network6 E n)"

fun net_broadcast :: "ext_lib \<Rightarrow> ip_net \<Rightarrow> ip_addr" where
  "net_broadcast E (NetV4 n) = V4 (broadcast4 E n)"
| "net_broadcast E (NetV6 n) = V6 (broadcast6 E n)"

datatype pool_error = PrefixTooSmall ip_net | InvalidPrefix ip_net

definition anchor_addrs :: "ext_lib \<Rightarrow> ip_net \<Rightarrow> pool_error + (ip_addr \<times> ip_addr \<times> ip_addr)" where
  "anchor_addrs E net =
     (let base = net_network E net; hi = net_broadcast E net; gw = next_addr base;
          lo = next_addr (next_addr (next_addr gw)) in
      if \<not> addr_less lo hi then Inl (PrefixTooSmall net)
      else if is_v4 base \<noteq> is_v4 hi \<or> is_v4 base \<noteq> is_v4 gw \<or> is_v4 base \<noteq> is_v4 lo then Inl (InvalidPrefix net)
      else Inr (gw, lo, hi))"

subsection \<open>The pool\<close>

record 's pool =
  pool_net :: ip_net
  pool_gateway :: ip_addr
  pool_first :: ip_addr
  pool_last :: ip_addr
  pool_offset :: ip_addr
  pool_cycle :: bool
  pool_store :: 's

definition pool_new :: "ext_lib \<Rightarrow> 's store_ops \<Rightarrow> ip_net \<Rightarrow> 's \<Rightarrow> pool_error + 's pool" where
  "pool_new E S net st =
     (case anchor_addrs E net of
        Inl e \<Rightarrow> Inl e
      | Inr (gw, lo, hi) \<Rightarrow>
          (let (off, cyc) = (case st_get_state S st of
                 Some (off, cyc) \<Rightarrow> if contained_in_range off lo hi then (off, cyc) else (prev_addr lo, False)
               | None \<Rightarrow> (prev_addr lo, False)) in
           Inr \<lparr>pool_net = net, pool_gateway = gw, pool_first = lo, pool_last = hi,
             pool_offset = off, pool_cycle = cyc, pool_store = st\<rparr>))"

definition allocate :: "'s store_ops \<Rightarrow> 's pool \<Rightarrow> string \<Rightarrow> ip_addr \<times> 's pool" where
  "allocate S p h =
     (let cand = next_addr (pool_offset p);
          (cyc, cand) = (if \<not> addr_less cand (pool_last p) then (True, pool_first p) else (pool_cycle p, cand));
          st = (if cyc \<or> st_exists S (pool_store p) cand then st_del_by_ip S (pool_store p) cand else pool_store p);
          st = st_put S st h cand;
          st = (if st_is_persistent S then st_put_state S st cand cyc else st) in
      (cand, p\<lparr>pool_offset := cand, pool_cycle := cyc, pool_store := st\<rparr>))"

definition pool_lookup :: "'s store_ops \<Rightarrow> 's pool \<Rightarrow> string \<Rightarrow> ip_addr \<times> 's pool" where
  "pool_lookup S p h =
     (let h = to_ascii_lowercase h in
      case st_get_by_host S (pool_store p) h of
        (Some ip, st) \<Rightarrow> (ip, p\<lparr>pool_store := st\<rparr>)
      | (None, st) \<Rightarrow> allocate S (p\<lparr>pool_store := st\<rparr>) h)"

definition look_back :: "'s store_ops \<Rightarrow> 's pool \<Rightarrow> ip_addr \<Rightarrow> string option \<times> 's pool" where
  "look_back S p ip =
     (if ip = pool_gateway p \<or> ip = pool_last p then (None, p)
      else let (h, st) = st_get_by_ip S (pool_store p) ip in (h, p\<lparr>pool_store := st\<rparr>))"

definition is_fake_ip :: "ext_lib \<Rightarrow> 's store_ops \<Rightarrow> 's pool \<Rightarrow> ip_addr \<Rightarrow> bool" where
  "is_fake_ip E S p ip =
     (if \<not> net_contains E (pool_net p) ip then False
      else if ip = pool_gateway p \<or> ip = pool_last p then False
      else st_exists S (pool_store p) ip)"

definition pool_in_range :: "ext_lib \<Rightarrow> 's pool \<Rightarrow> ip_addr \<Rightarrow> bool" where
  "pool_in_range E p ip = net_contains E (pool_net p) ip"

definition pool_flush :: "'s store_ops \<Rightarrow> 's pool \<Rightarrow> 's pool" where
  "pool_flush S p =
     (let off = prev_addr (pool_first p); st = st_flush S (pool_store p);
          st = (if st_is_persistent S then st_put_state S st off False else st) in
      p\<lparr>pool_offset := off, pool_cycle := False, pool_store := st\<rparr>)"

subsection \<open>Names that bypass the pool\<close>

datatype skipper_mode = BlackList | WhiteList

record skipper =
  sk_trie :: "unit domain_trie"
  sk_mode :: skipper_mode
  sk_empty :: bool

fun skipper_inserts :: "ext_lib \<Rightarrow> unit domain_trie \<Rightarrow> nat \<Rightarrow> string list \<Rightarrow> (unit domain_trie \<times> nat) panics" where
  "skipper_inserts E t n [] = Some (t, n)"
| "skipper_inserts E t n (raw # raws) =
     (let pat = trim raw in
      if pat = [] then skipper_inserts E t n raws
      else Option.bind (trie_insert (to_lowercase E) t pat ()) (\<lambda>(ok, t).
             skipper_inserts E t (if ok then n + 1 else n) raws))"

definition skipper_new :: "ext_lib \<Rightarrow> string list \<Rightarrow> skipper_mode \<Rightarrow> skipper panics" where
  "skipper_new E patterns mode =
     map_option (\<lambda>(t, n). \<lparr>sk_trie = t, sk_mode = mode, sk_empty = (n = 0)\<rparr>) (skipper_inserts E trie_new 0 patterns)"

definition should_skip :: "skipper \<Rightarrow> string \<Rightarrow> bool" where
  "should_skip sk h =
     (if sk_empty sk then False
      else case sk_mode sk of
        BlackList \<Rightarrow> trie_hit (sk_trie sk) h
      | WhiteList \<Rightarrow> \<not> trie_hit (sk_trie sk) h)"

end
