(* ===== verification/Fake_Ip_Laws.thy ===== *)
theory Fake_Ip_Laws
  imports Fake_Ip
begin

section \<open>Names and addresses of the pool are each other's inverse\<close>

text \<open>
  The contract of a store, met by the memory store over any cache that meets its own contract and by
  the file store, and what the pool guarantees over any such store: the two directions are inverse,
  every address lies in the allocatable range, and a name keeps its address until the cursor has gone
  round.
\<close>

definition paired :: "(string \<Rightarrow> ip_addr option) \<Rightarrow> (ip_addr \<Rightarrow> string option) \<Rightarrow> bool" where
  "paired f r \<longleftrightarrow> (\<forall>h ip. f h = Some ip \<longleftrightarrow> r ip = Some h)"

locale host_store =
  fixes S :: "'s store_ops" and ok :: "'s \<Rightarrow> bool" and fits :: "'s \<Rightarrow> nat \<Rightarrow> bool"
    and fwd :: "'s \<Rightarrow> string \<Rightarrow> ip_addr option" and rvs :: "'s \<Rightarrow> ip_addr \<Rightarrow> string option"
  assumes store_paired: "ok s \<Longrightarrow> paired (fwd s) (rvs s)"
    and get_host: "ok s \<Longrightarrow> st_get_by_host S s h = (r, s') \<Longrightarrow> r = fwd s h \<and> ok s' \<and> fwd s' = fwd s \<and> fits s' = fits s"
    and get_ip: "ok s \<Longrightarrow> st_get_by_ip S s ip = (r', s') \<Longrightarrow> r' = rvs s ip \<and> ok s' \<and> fwd s' = fwd s \<and> fits s' = fits s"
    and exists_iff: "ok s \<Longrightarrow> st_exists S s ip \<longleftrightarrow> rvs s ip \<noteq> None"
    and del_ip: "ok s \<Longrightarrow> ok (st_del_by_ip S s ip) \<and> fits (st_del_by_ip S s ip) = fits s \<and>
      fwd (st_del_by_ip S s ip) = (\<lambda>h. if fwd s h = Some ip then None else fwd s h)"
    and put_new: "ok s \<Longrightarrow> fwd s h = None \<Longrightarrow> rvs s ip = None \<Longrightarrow>
      ok (st_put S s h ip) \<and> fits (st_put S s h ip) = fits s \<and> fwd (st_put S s h ip) h = Some ip \<and>
      (\<forall>h' a. h' \<noteq> h \<longrightarrow> fwd (st_put S s h ip) h' = Some a \<longrightarrow> fwd s h' = Some a)"
    and put_fits: "ok s \<Longrightarrow> fwd s h = None \<Longrightarrow> rvs s ip = None \<Longrightarrow> fits s (Suc (card (dom (fwd s)))) \<Longrightarrow>
      fwd (st_put S s h ip) = (fwd s)(h \<mapsto> ip)"
    and flush_all: "ok s \<Longrightarrow> ok (st_flush S s) \<and> fits (st_flush S s) = fits s \<and> fwd (st_flush S s) = (\<lambda>_. None)"
    and fits_mono: "fits s n \<Longrightarrow> m \<le> n \<Longrightarrow> fits s m"
    and put_state: "ok s \<Longrightarrow> ok (st_put_state S s off cyc) \<and> fits (st_put_state S s off cyc) = fits s \<and>
      fwd (st_put_state S s off cyc) = fwd s"

subsection \<open>Address arithmetic\<close>

fun addr_val :: "ip_addr \<Rightarrow> nat" where
  "addr_val (V4 n) = unat n"
| "addr_val (V6 n) = unat n"

lemma addr_less_val: "addr_less a b \<longleftrightarrow> is_v4 a = is_v4 b \<and> addr_val a < addr_val b"
  by (cases a; cases b) (simp_all add: word_less_nat_alt)

lemma addr_val_inject: "is_v4 a = is_v4 b \<Longrightarrow> addr_val a = addr_val b \<Longrightarrow> a = b"
  by (cases a; cases b) (simp_all add: word_unat_eq_iff)

lemma next_prev_addr [simp]: "next_addr (prev_addr a) = a"
  by (cases a) simp_all

lemma is_v4_next [simp]: "is_v4 (next_addr a) = is_v4 a"
  by (cases a) simp_all

lemma unat_plus_one: "x < (y :: 'w :: len word) \<Longrightarrow> unat (x + 1) = unat x + 1"
proof -
  assume "x < y"
  then have "unat x < unat y" by (simp add: word_less_nat_alt)
  moreover have "unat y < 2 ^ LENGTH('w)" by (rule unsigned_less)
  ultimately have "unat x + unat (1 :: 'w word) < 2 ^ LENGTH('w)" unfolding unsigned_1 by linarith
  then show ?thesis using unat_add_lem [of x "1 :: 'w word"] by simp
qed

lemma addr_val_next: "addr_less a b \<Longrightarrow> addr_val (next_addr a) = addr_val a + 1"
  by (cases a; cases b) (simp_all add: unat_plus_one)

lemma contained_val:
  "contained_in_range a lo hi \<Longrightarrow> addr_less lo hi \<Longrightarrow>
   is_v4 a = is_v4 hi \<and> is_v4 lo = is_v4 hi \<and> addr_val lo \<le> addr_val a \<and> addr_val a < addr_val hi"
  by (auto simp: contained_in_range_def addr_less_val)

lemma contained_first: "addr_less lo hi \<Longrightarrow> contained_in_range lo lo hi"
  by (simp add: contained_in_range_def addr_less_val)

definition addr_count :: "'s pool \<Rightarrow> nat" where
  "addr_count p = addr_val (pool_last p) - addr_val (pool_first p)"

definition addr_index :: "'s pool \<Rightarrow> ip_addr \<Rightarrow> nat" where
  "addr_index p a = addr_val a - addr_val (pool_first p)"

definition in_pool :: "'s pool \<Rightarrow> ip_addr \<Rightarrow> bool" where
  "in_pool p a \<longleftrightarrow> contained_in_range a (pool_first p) (pool_last p)"

text \<open>The candidate of the next allocation.\<close>

definition next_cand :: "'s pool \<Rightarrow> bool \<times> ip_addr" where
  "next_cand p =
     (let cand = next_addr (pool_offset p) in
      if \<not> addr_less cand (pool_last p) then (True, pool_first p) else (pool_cycle p, cand))"

definition pool_shape :: "'s pool \<Rightarrow> bool" where
  "pool_shape p \<longleftrightarrow>
     addr_less (pool_first p) (pool_last p) \<and> addr_less (pool_gateway p) (pool_first p) \<and>
     (pool_offset p = prev_addr (pool_first p) \<or> in_pool p (pool_offset p))"

lemma in_pool_val:
  assumes "in_pool p a" and "addr_less (pool_first p) (pool_last p)"
  shows "is_v4 a = is_v4 (pool_last p)" "is_v4 (pool_first p) = is_v4 (pool_last p)"
    "addr_val a = addr_val (pool_first p) + addr_index p a" "addr_index p a < addr_count p"
  using contained_val [OF assms(1)[unfolded in_pool_def] assms(2)] by (auto simp: addr_index_def addr_count_def)

lemma in_pool_inject:
  assumes "in_pool p a" "in_pool p b" and "addr_less (pool_first p) (pool_last p)" and "addr_index p a = addr_index p b"
  shows "a = b"
  using assms in_pool_val [of p a] in_pool_val [of p b] by (auto intro: addr_val_inject)

lemma next_cand_in_pool:
  assumes "pool_shape p"
  shows "in_pool p (snd (next_cand p))"
    and "in_pool p (pool_offset p) \<Longrightarrow> addr_index p (snd (next_cand p)) = (addr_index p (pool_offset p) + 1) mod addr_count p"
proof -
  let ?c = "next_addr (pool_offset p)"
  have lt: "addr_less (pool_first p) (pool_last p)" using assms by (simp add: pool_shape_def)
  have first: "in_pool p (pool_first p)" "addr_index p (pool_first p) = 0"
    using contained_first [OF lt] by (simp_all add: in_pool_def addr_index_def)
  have step: "addr_val ?c = addr_val (pool_offset p) + 1 \<and> is_v4 ?c = is_v4 (pool_last p)" if "in_pool p (pool_offset p)"
    using that addr_val_next [of "pool_offset p" "pool_last p"] in_pool_val(1) [OF that lt]
    by (simp add: in_pool_def contained_in_range_def)
  show "in_pool p (snd (next_cand p))"
  proof (cases "addr_less ?c (pool_last p)")
    case True
    moreover have "\<not> addr_less ?c (pool_first p)"
    proof (cases "pool_offset p = prev_addr (pool_first p)")
      case False
      then have o: "in_pool p (pool_offset p)" using assms by (simp add: pool_shape_def)
      then show ?thesis using step in_pool_val(3) [OF o lt] by (simp add: addr_less_val)
    qed (simp add: addr_less_val)
    ultimately show ?thesis by (simp add: next_cand_def in_pool_def contained_in_range_def)
  qed (simp add: next_cand_def first)
  show "addr_index p (snd (next_cand p)) = (addr_index p (pool_offset p) + 1) mod addr_count p"
    if o: "in_pool p (pool_offset p)"
  proof -
    note v = in_pool_val [OF o lt]
    have n: "addr_val (pool_last p) = addr_val (pool_first p) + addr_count p"
      using lt by (simp add: addr_count_def addr_less_val)
    show ?thesis
    proof (cases "addr_less ?c (pool_last p)")
      case True
      then have "addr_index p (pool_offset p) + 1 < addr_count p"
        using step [OF o] v n by (simp add: addr_less_val)
      then have "(addr_index p (pool_offset p) + 1) mod addr_count p = addr_index p (pool_offset p) + 1" by simp
      moreover have "addr_index p ?c = addr_index p (pool_offset p) + 1"
        using step [OF o] v(3) unfolding addr_index_def by linarith
      ultimately show ?thesis using True by (simp add: next_cand_def)
    next
      case False
      then have "addr_index p (pool_offset p) + 1 = addr_count p"
        using step [OF o] v n by (simp add: addr_less_val)
      then show ?thesis using False first by (simp add: next_cand_def)
    qed
  qed
qed

subsection \<open>The pool over a store\<close>

definition pool_ok :: "('s \<Rightarrow> bool) \<Rightarrow> ('s \<Rightarrow> string \<Rightarrow> ip_addr option) \<Rightarrow> 's pool \<Rightarrow> bool" where
  "pool_ok ok fwd p \<longleftrightarrow>
     pool_shape p \<and> ok (pool_store p) \<and>
     (\<forall>h ip. fwd (pool_store p) h = Some ip \<longrightarrow> in_pool p ip \<and> to_ascii_lowercase h = h)"

definition same_frame :: "'s pool \<Rightarrow> 's pool \<Rightarrow> bool" where
  "same_frame p q \<longleftrightarrow>
     pool_net q = pool_net p \<and> pool_gateway q = pool_gateway p \<and> pool_first q = pool_first p \<and> pool_last q = pool_last p"

lemma same_frame_in_pool: "same_frame p q \<Longrightarrow> in_pool q a = in_pool p a \<and> addr_count q = addr_count p \<and> addr_index q a = addr_index p a"
  by (simp add: same_frame_def in_pool_def addr_count_def addr_index_def)

lemma allocate_eq:
  "allocate S p h =
     (let (cyc, cand) = next_cand p;
          st = (if cyc \<or> st_exists S (pool_store p) cand then st_del_by_ip S (pool_store p) cand else pool_store p);
          st = st_put S st h cand in
      (cand, p\<lparr>pool_offset := cand, pool_cycle := cyc,
         pool_store := (if st_is_persistent S then st_put_state S st cand cyc else st)\<rparr>))"
  by (simp add: allocate_def next_cand_def Let_def)

context host_store
begin

lemma rvs_iff: "ok s \<Longrightarrow> rvs s ip = Some h \<longleftrightarrow> fwd s h = Some ip"
  using store_paired by (simp add: paired_def)

lemma rvs_None: "ok s \<Longrightarrow> rvs s ip = None \<longleftrightarrow> (\<forall>h. fwd s h \<noteq> Some ip)"
  using rvs_iff by (metis not_Some_eq)

text \<open>The store after the candidate has been freed.\<close>

lemma freed:
  fixes ip :: ip_addr and c :: bool
  assumes "ok s"
  defines "s' \<equiv> (if c \<or> st_exists S s ip then st_del_by_ip S s ip else s)"
  shows "ok s'" "fits s' = fits s" "fwd s' = (\<lambda>h. if fwd s h = Some ip then None else fwd s h)" "rvs s' ip = None"
proof -
  show "ok s'" "fits s' = fits s" using del_ip [OF assms(1)] assms(1) by (simp_all add: s'_def)
  show f: "fwd s' = (\<lambda>h. if fwd s h = Some ip then None else fwd s h)"
    using del_ip [OF assms(1)] exists_iff [OF assms(1), of ip] rvs_None [OF assms(1), of ip]
    by (auto simp: s'_def fun_eq_iff)
  show "rvs s' ip = None" using rvs_None [OF \<open>ok s'\<close>] f by simp
qed

text \<open>At most as many names are mapped as there are addresses; a free address leaves room.\<close>

lemma mapped_below:
  assumes "ok s" and "addr_less (pool_first p) (pool_last p)"
    and "\<And>h a. fwd s h = Some a \<Longrightarrow> in_pool p a" and "rvs s ip = None" "in_pool p ip"
  shows "Suc (card (dom (fwd s))) \<le> addr_count p"
proof -
  let ?f = "\<lambda>h. addr_index p (the (fwd s h))"
  have "inj_on ?f (dom (fwd s))"
  proof (rule inj_onI)
    fix x y assume "x \<in> dom (fwd s)" "y \<in> dom (fwd s)" "?f x = ?f y"
    then obtain a b where "fwd s x = Some a" "fwd s y = Some b" "addr_index p a = addr_index p b" by auto
    then show "x = y" using in_pool_inject [OF _ _ assms(2)] assms(3) rvs_iff [OF assms(1)] by (metis option.inject)
  qed
  moreover have "?f ` dom (fwd s) \<subseteq> {..<addr_count p} - {addr_index p ip}"
  proof
    fix i assume "i \<in> ?f ` dom (fwd s)"
    then obtain h a where a: "fwd s h = Some a" "i = addr_index p a" by auto
    then have "a \<noteq> ip" using rvs_None [OF assms(1)] assms(4) by blast
    then have "i \<noteq> addr_index p ip" using in_pool_inject [OF _ _ assms(2)] assms(3) [OF a(1)] assms(5) a(2) by blast
    then show "i \<in> {..<addr_count p} - {addr_index p ip}"
      using in_pool_val(4) [OF assms(3) [OF a(1)] assms(2)] a(2) by simp
  qed
  ultimately have "card (dom (fwd s)) \<le> card ({..<addr_count p} - {addr_index p ip})"
    by (intro card_inj_on_le) simp_all
  also have "\<dots> = addr_count p - 1" using in_pool_val(4) [OF assms(5,2)] by simp
  finally show ?thesis using in_pool_val(4) [OF assms(5,2)] by simp
qed

lemma allocate_step:
  assumes p: "pool_ok ok fwd p" and h: "fwd (pool_store p) h = None" "to_ascii_lowercase h = h"
    and a: "allocate S p h = (ip, q)"
  shows "pool_ok ok fwd q" "same_frame p q" "fwd (pool_store q) h = Some ip" "in_pool p ip"
    "pool_offset q = ip" "ip = snd (next_cand p)" "fits (pool_store q) = fits (pool_store p)"
    "fits (pool_store p) (addr_count p) \<Longrightarrow> h' \<noteq> h \<Longrightarrow> fwd (pool_store p) h' = Some b \<Longrightarrow> b \<noteq> ip \<Longrightarrow> fwd (pool_store q) h' = Some b"
proof -
  obtain cyc where c: "next_cand p = (cyc, ip)"
    using a by (cases "next_cand p") (simp add: allocate_eq Let_def)
  let ?s = "pool_store p"
  define s1 where "s1 = (if cyc \<or> st_exists S ?s ip then st_del_by_ip S ?s ip else ?s)"
  define s2 where "s2 = st_put S s1 h ip"
  have q: "q = p\<lparr>pool_offset := ip, pool_cycle := cyc, pool_store := (if st_is_persistent S then st_put_state S s2 ip cyc else s2)\<rparr>"
    unfolding s2_def s1_def using a unfolding allocate_eq c Let_def prod.case by (elim Pair_inject) (rule sym)
  have sh: "pool_shape p" "ok ?s" and lt: "addr_less (pool_first p) (pool_last p)"
    using p by (auto simp: pool_ok_def pool_shape_def)
  have all: "in_pool p b \<and> to_ascii_lowercase x = x" if "fwd ?s x = Some b" for x b using p that by (simp add: pool_ok_def)
  note f = freed [OF sh(2), of cyc ip, folded s1_def]
  have n: "fwd s1 h = None" using f(3) h(1) by simp
  note put = put_new [OF f(1) n f(4), folded s2_def]
  have store: "ok (pool_store q)" "fits (pool_store q) = fits ?s" "fwd (pool_store q) = fwd s2"
    using put put_state [of s2 ip cyc] f(2) by (simp_all add: q)
  show ip: "in_pool p ip" using next_cand_in_pool(1) [OF sh(1)] c by simp
  show "same_frame p q" "pool_offset q = ip" "ip = snd (next_cand p)" using c by (simp_all add: q same_frame_def)
  show "fits (pool_store q) = fits ?s" "fwd (pool_store q) h = Some ip" using store put by simp_all
  have old: "fwd ?s x = Some b" if "x \<noteq> h" "fwd (pool_store q) x = Some b" for x b
    using put that store(3) f(3) by (auto split: if_splits)
  have "in_pool p b \<and> to_ascii_lowercase x = x" if x: "fwd (pool_store q) x = Some b" for x b
  proof (cases "x = h")
    case True
    then show ?thesis using x put store(3) h(2) ip by auto
  next
    case False
    then show ?thesis using all old x by blast
  qed
  then show "pool_ok ok fwd q"
    using store(1) sh(1) ip same_frame_in_pool [OF \<open>same_frame p q\<close>]
    by (auto simp: pool_ok_def pool_shape_def q)
  show "fwd (pool_store q) h' = Some b" if "fits ?s (addr_count p)" "h' \<noteq> h" "fwd ?s h' = Some b" "b \<noteq> ip"
  proof -
    have "Suc (card (dom (fwd s1))) \<le> addr_count p"
      by (rule mapped_below [OF f(1) lt _ f(4) ip]) (use f(3) all in \<open>auto split: if_splits\<close>)
    then have "fits s1 (Suc (card (dom (fwd s1))))" using fits_mono f(2) that(1) by simp
    then have "fwd s2 = (fwd s1)(h \<mapsto> ip)" using put_fits [OF f(1) n f(4)] by (simp add: s2_def)
    then show ?thesis using that store(3) f(3) by simp
  qed
qed

lemma lookup_step:
  assumes p: "pool_ok ok fwd p" and l: "pool_lookup S p h = (ip, q)"
  shows "pool_ok ok fwd q" "same_frame p q" "fwd (pool_store q) (to_ascii_lowercase h) = Some ip" "in_pool p ip"
    "fits (pool_store q) = fits (pool_store p)"
    "fwd (pool_store p) (to_ascii_lowercase h) = None \<Longrightarrow> pool_offset q = ip \<and> ip = snd (next_cand p)"
    "fwd (pool_store p) (to_ascii_lowercase h) = Some a \<Longrightarrow> ip = a \<and> pool_offset q = pool_offset p \<and> fwd (pool_store q) = fwd (pool_store p)"
    "fits (pool_store p) (addr_count p) \<Longrightarrow> fwd (pool_store p) h' = Some b \<Longrightarrow>
      fwd (pool_store p) (to_ascii_lowercase h) = None \<Longrightarrow> b \<noteq> ip \<Longrightarrow> fwd (pool_store q) h' = Some b"
proof -
  let ?h = "to_ascii_lowercase h"
  have ok: "ok (pool_store p)" using p by (simp add: pool_ok_def)
  obtain r st where g: "st_get_by_host S (pool_store p) ?h = (r, st)" by fastforce
  have st: "r = fwd (pool_store p) ?h" "ok st" "fwd st = fwd (pool_store p)" "fits st = fits (pool_store p)"
    using get_host [OF ok g] by auto
  let ?p = "p\<lparr>pool_store := st\<rparr>"
  have p': "pool_ok ok fwd ?p" "next_cand ?p = next_cand p" "addr_count ?p = addr_count p" "\<And>x. in_pool ?p x = in_pool p x"
    "same_frame p ?p"
    using p st(2,3) by (auto simp: pool_ok_def pool_shape_def in_pool_def next_cand_def addr_count_def same_frame_def Let_def)
  have frame: "same_frame ?p q \<Longrightarrow> same_frame p q" by (simp add: same_frame_def)
  have "pool_ok ok fwd q \<and> same_frame p q \<and> fwd (pool_store q) ?h = Some ip \<and> in_pool p ip \<and> fits (pool_store q) = fits (pool_store p) \<and>
    (fwd (pool_store p) ?h = None \<longrightarrow> pool_offset q = ip \<and> ip = snd (next_cand p)) \<and>
    (fwd (pool_store p) ?h = Some a \<longrightarrow> ip = a \<and> pool_offset q = pool_offset p \<and> fwd (pool_store q) = fwd (pool_store p)) \<and>
    (fits (pool_store p) (addr_count p) \<longrightarrow> fwd (pool_store p) h' = Some b \<longrightarrow> fwd (pool_store p) ?h = None \<longrightarrow> b \<noteq> ip \<longrightarrow>
      fwd (pool_store q) h' = Some b)"
  proof (cases r)
    case None
    then have al: "allocate S ?p ?h = (ip, q)" using l g by (simp add: pool_lookup_def Let_def)
    have n: "fwd (pool_store ?p) ?h = None" using st None by simp
    note s = allocate_step [OF p'(1) n _ al]
    show ?thesis using s(1-7) s(8) [of h' b] st None p' frame by (cases "h' = ?h") auto
  next
    case (Some a')
    then have "ip = a'" "q = ?p" using l g by (auto simp: pool_lookup_def Let_def)
    then show ?thesis using p' st Some p by (auto simp: pool_ok_def)
  qed
  then show "pool_ok ok fwd q" "same_frame p q" "fwd (pool_store q) ?h = Some ip" "in_pool p ip" "fits (pool_store q) = fits (pool_store p)"
    "fwd (pool_store p) ?h = None \<Longrightarrow> pool_offset q = ip \<and> ip = snd (next_cand p)"
    "fwd (pool_store p) ?h = Some a \<Longrightarrow> ip = a \<and> pool_offset q = pool_offset p \<and> fwd (pool_store q) = fwd (pool_store p)"
    "fits (pool_store p) (addr_count p) \<Longrightarrow> fwd (pool_store p) h' = Some b \<Longrightarrow>
      fwd (pool_store p) ?h = None \<Longrightarrow> b \<noteq> ip \<Longrightarrow> fwd (pool_store q) h' = Some b"
    by blast+
qed

lemma look_back_step:
  assumes p: "pool_ok ok fwd p" and l: "look_back S p ip = (r, q)"
  shows "pool_ok ok fwd q" "same_frame p q" "fwd (pool_store q) = fwd (pool_store p)" "pool_offset q = pool_offset p"
    "fits (pool_store q) = fits (pool_store p)" "in_pool p ip \<Longrightarrow> r = rvs (pool_store p) ip" "r \<noteq> None \<Longrightarrow> r = rvs (pool_store p) ip"
proof -
  have ok: "ok (pool_store p)" and sh: "pool_shape p" using p by (auto simp: pool_ok_def)
  obtain h st where g: "st_get_by_ip S (pool_store p) ip = (h, st)" by fastforce
  have st: "h = rvs (pool_store p) ip" "ok st" "fwd st = fwd (pool_store p)" "fits st = fits (pool_store p)"
    using get_ip [OF ok g] by auto
  have out: "\<not> in_pool p (pool_gateway p)" "\<not> in_pool p (pool_last p)"
    using sh by (auto simp: pool_shape_def in_pool_def contained_in_range_def addr_less_val)
  have p': "pool_ok ok fwd (p\<lparr>pool_store := st\<rparr>)"
    using p st(2,3) by (auto simp: pool_ok_def pool_shape_def in_pool_def)
  show "pool_ok ok fwd q" "same_frame p q" "fwd (pool_store q) = fwd (pool_store p)" "pool_offset q = pool_offset p"
    "fits (pool_store q) = fits (pool_store p)" "in_pool p ip \<Longrightarrow> r = rvs (pool_store p) ip" "r \<noteq> None \<Longrightarrow> r = rvs (pool_store p) ip"
    using l g st p p' out by (auto simp: look_back_def same_frame_def split: if_splits)
qed

lemma flush_step:
  assumes p: "pool_ok ok fwd p"
  shows "pool_ok ok fwd (pool_flush S p)" "same_frame p (pool_flush S p)" "fits (pool_store (pool_flush S p)) = fits (pool_store p)"
proof -
  have ok: "ok (pool_store p)" and sh: "pool_shape p" using p by (auto simp: pool_ok_def)
  let ?st = "st_flush S (pool_store p)"
  note f = flush_all [OF ok]
  have "ok (pool_store (pool_flush S p))" "fwd (pool_store (pool_flush S p)) = (\<lambda>_. None)"
    "fits (pool_store (pool_flush S p)) = fits (pool_store p)"
    using f put_state [of ?st "prev_addr (pool_first p)" False] by (simp_all add: pool_flush_def Let_def)
  then show "pool_ok ok fwd (pool_flush S p)" "same_frame p (pool_flush S p)" "fits (pool_store (pool_flush S p)) = fits (pool_store p)"
    using sh by (simp_all add: pool_ok_def pool_shape_def same_frame_def) (simp_all add: pool_flush_def Let_def)
qed

end

subsection \<open>Histories of the pool\<close>

datatype pool_op = Lookup string | LookBack ip_addr | Flush

fun pool_step :: "'s store_ops \<Rightarrow> 's pool \<Rightarrow> pool_op \<Rightarrow> 's pool" where
  "pool_step S p (Lookup h) = snd (pool_lookup S p h)"
| "pool_step S p (LookBack ip) = snd (look_back S p ip)"
| "pool_step S p Flush = pool_flush S p"

definition pool_run :: "'s store_ops \<Rightarrow> 's pool \<Rightarrow> pool_op list \<Rightarrow> 's pool" where
  "pool_run S p ops = foldl (pool_step S) p ops"

fun is_lookup :: "pool_op \<Rightarrow> bool" where
  "is_lookup (Lookup _) = True"
| "is_lookup _ = False"

context host_store
begin

lemma step_ok:
  assumes "pool_ok ok fwd p"
  shows "pool_ok ok fwd (pool_step S p x)" "same_frame p (pool_step S p x)"
    "fits (pool_store (pool_step S p x)) = fits (pool_store p)"
proof -
  have "pool_ok ok fwd (pool_step S p x) \<and> same_frame p (pool_step S p x) \<and> fits (pool_store (pool_step S p x)) = fits (pool_store p)"
  proof (cases x)
    case (Lookup h)
    then show ?thesis using lookup_step(1,2,5) [OF assms] by (metis pool_step.simps(1) prod.collapse)
  next
    case (LookBack ip)
    then show ?thesis using look_back_step(1,2,5) [OF assms] by (metis pool_step.simps(2) prod.collapse)
  next
    case Flush
    then show ?thesis using flush_step [OF assms] by simp
  qed
  then show "pool_ok ok fwd (pool_step S p x)" "same_frame p (pool_step S p x)"
    "fits (pool_store (pool_step S p x)) = fits (pool_store p)" by blast+
qed

lemma run_ok:
  "pool_ok ok fwd p \<Longrightarrow> pool_ok ok fwd (pool_run S p ops) \<and> same_frame p (pool_run S p ops) \<and>
   fits (pool_store (pool_run S p ops)) = fits (pool_store p)"
proof (induction ops arbitrary: p)
  case (Cons x ops)
  note s = step_ok [OF Cons.prems, of x]
  show ?case using Cons.IH [OF s(1)] s by (auto simp: pool_run_def same_frame_def)
qed (simp add: pool_run_def same_frame_def)

lemma lookup_look_back:
  assumes "pool_ok ok fwd p" and "pool_lookup S p h = (ip, q)"
  shows "in_pool p ip \<and> fst (look_back S q ip) = Some (to_ascii_lowercase h) \<and>
    fst (pool_lookup S (snd (look_back S q ip)) h) = ip"
proof -
  note l = lookup_step [OF assms]
  obtain r q' where lb: "look_back S q ip = (r, q')" by fastforce
  note b = look_back_step [OF l(1) lb]
  have "r = Some (to_ascii_lowercase h)"
    using b(6) l(1,2,3,4) rvs_iff same_frame_in_pool by (simp add: pool_ok_def)
  moreover obtain ip' q2 where l2: "pool_lookup S q' h = (ip', q2)" by fastforce
  moreover have "ip' = ip" using lookup_step(7) [OF b(1) l2] b(3) l(3) by simp
  ultimately show ?thesis using lb l(4) by simp
qed

lemma look_back_lookup:
  assumes "pool_ok ok fwd p" and "look_back S p ip = (Some h, q)"
  shows "in_pool p ip \<and> fst (pool_lookup S q h) = ip"
proof -
  note b = look_back_step [OF assms]
  have f: "fwd (pool_store p) h = Some ip" using b(7) rvs_iff [of "pool_store p" ip h] assms(1) by (simp add: pool_ok_def)
  then have lo: "in_pool p ip" "to_ascii_lowercase h = h" using assms(1) by (auto simp: pool_ok_def)
  obtain ip' q2 where l2: "pool_lookup S q h = (ip', q2)" by fastforce
  have "ip' = ip" using lookup_step(7) [OF b(1) l2] b(3) f lo(2) by simp
  then show ?thesis using lo(1) l2 by simp
qed

text \<open>
  The cursor argument: as long as the cursor has taken fewer steps than there are addresses, it has
  not come back to the address it handed out.
\<close>

lemma name_survives:
  assumes "pool_ok ok fwd p" and "fits (pool_store p) (addr_count p)"
    and "fwd (pool_store p) h = Some ip" and "in_pool p (pool_offset p)"
    and "addr_index p (pool_offset p) = (addr_index p ip + k) mod addr_count p"
    and "list_all (\<lambda>x. x \<noteq> Flush) ops" and "k + length (filter is_lookup ops) < addr_count p"
  shows "fwd (pool_store (pool_run S p ops)) h = Some ip"
  using assms
proof (induction ops arbitrary: p k)
  case Nil
  then show ?case by (simp add: pool_run_def)
next
  case (Cons x ops)
  let ?q = "pool_step S p x"
  note s = step_ok [OF Cons.prems(1), of x]
  note fr = same_frame_in_pool [OF s(2)]
  have ip: "in_pool p ip" using Cons.prems(1,3) by (simp add: pool_ok_def)
  have lt: "addr_less (pool_first p) (pool_last p)" using Cons.prems(1) by (simp add: pool_ok_def pool_shape_def)
  have "\<exists>k'. fwd (pool_store ?q) h = Some ip \<and> in_pool ?q (pool_offset ?q) \<and>
      addr_index ?q (pool_offset ?q) = (addr_index ?q ip + k') mod addr_count ?q \<and>
      k' + length (filter is_lookup ops) < addr_count ?q"
  proof (cases x)
    case (LookBack a)
    obtain r q where q: "look_back S p a = (r, q)" by fastforce
    have "?q = q" using LookBack q by simp
    then show ?thesis using look_back_step(3,4) [OF Cons.prems(1) q] Cons.prems(3-5,7) fr LookBack
      by (intro exI [of _ k]) simp
  next
    case (Lookup h')
    obtain a q where q: "pool_lookup S p h' = (a, q)" by fastforce
    have eq: "?q = q" using Lookup q by simp
    note l = lookup_step [OF Cons.prems(1) q]
    show ?thesis
    proof (cases "fwd (pool_store p) (to_ascii_lowercase h')")
      case (Some b)
      then show ?thesis using l(7) [OF Some] Cons.prems(3-5,7) fr Lookup eq by (intro exI [of _ k]) simp
    next
      case None
      note n = l(6) [OF None]
      have ix: "addr_index p a = (addr_index p ip + (k + 1)) mod addr_count p"
        using next_cand_in_pool(2) [of p] Cons.prems(1,4,5) n by (simp add: pool_ok_def mod_simps)
      have "(addr_index p ip + (k + 1)) mod addr_count p \<noteq> addr_index p ip"
      proof
        assume e: "(addr_index p ip + (k + 1)) mod addr_count p = addr_index p ip"
        have b: "addr_index p ip < addr_count p" "k + 1 < addr_count p" using in_pool_val(4) [OF ip lt] Cons.prems(7) Lookup by auto
        show False
        proof (cases "addr_index p ip + (k + 1) < addr_count p")
          case False
          then have "(addr_index p ip + (k + 1)) mod addr_count p = addr_index p ip + (k + 1) - addr_count p"
            using b by (simp add: le_mod_geq)
          then show False using e b False by linarith
        qed (use e in simp)
      qed
      then have "ip \<noteq> a" using ix by auto
      then have "fwd (pool_store q) h = Some ip" using l(8) [OF Cons.prems(2,3) None] by blast
      then show ?thesis using n l(4) ix fr Cons.prems(7) Lookup eq by (intro exI [of _ "k + 1"]) simp
    qed
  next
    case Flush
    then show ?thesis using Cons.prems(6) by simp
  qed
  then obtain k' where k': "fwd (pool_store ?q) h = Some ip" "in_pool ?q (pool_offset ?q)"
    "addr_index ?q (pool_offset ?q) = (addr_index ?q ip + k') mod addr_count ?q" "k' + length (filter is_lookup ops) < addr_count ?q"
    by blast
  have "fits (pool_store ?q) (addr_count ?q)" using s(3) fr Cons.prems(2) by simp
  from Cons.IH [OF s(1) this k'(1-3) _ k'(4)] show ?case using Cons.prems(6) by (simp add: pool_run_def)
qed

end

subsection \<open>The memory store meets the contract\<close>

definition mem_fwd :: "('c \<Rightarrow> (string \<times> ip_addr) list) \<Rightarrow> ('c, 'd) memory_store \<Rightarrow> string \<Rightarrow> ip_addr option" where
  "mem_fwd ih s = map_of (ih (by_host s))"

definition mem_rev :: "('d \<Rightarrow> (ip_addr \<times> string) list) \<Rightarrow> ('c, 'd) memory_store \<Rightarrow> ip_addr \<Rightarrow> string option" where
  "mem_rev ii s = map_of (ii (by_ip s))"

definition mem_ok ::
  "('c \<Rightarrow> (string \<times> ip_addr) list) \<Rightarrow> ('d \<Rightarrow> (ip_addr \<times> string) list) \<Rightarrow> ('c, 'd) memory_store \<Rightarrow> bool" where
  "mem_ok ih ii s \<longleftrightarrow>
     keyed (ih (by_host s)) \<and> keyed (ii (by_ip s)) \<and> paired (mem_fwd ih s) (mem_rev ii s) \<and>
     1 \<le> mem_cap s \<and> length (ii (by_ip s)) \<le> mem_cap s"

definition mem_fits :: "('c, 'd) memory_store \<Rightarrow> nat \<Rightarrow> bool" where
  "mem_fits s n \<longleftrightarrow> n \<le> mem_cap s"

lemma paired_card:
  assumes "paired f r" and "finite (dom f)"
  shows "card (dom f) = card (dom r)"
proof (rule bij_betw_same_card [of "\<lambda>h. the (f h)"])
  show "bij_betw (\<lambda>h. the (f h)) (dom f) (dom r)"
    unfolding bij_betw_def
  proof
    show "inj_on (\<lambda>h. the (f h)) (dom f)"
      using assms(1) by (auto intro!: inj_onI simp: paired_def)
    show "(\<lambda>h. the (f h)) ` dom f = dom r"
    proof -
      have "r y \<noteq> None \<longleftrightarrow> (\<exists>h. f h = Some y)" for y using assms(1) by (auto simp: paired_def)
      then show ?thesis by (force simp: dom_def image_iff)
    qed
  qed
qed

lemma paired_delete: "paired f r \<Longrightarrow> r ip = Some h \<Longrightarrow> paired (f(h := None)) (r(ip := None))"
  by (auto simp: paired_def) (metis option.inject)

lemma paired_put: "paired f r \<Longrightarrow> f h = None \<Longrightarrow> r ip = None \<Longrightarrow> paired (f(h \<mapsto> ip)) (r(ip \<mapsto> h))"
  by (auto simp: paired_def) (metis option.distinct(1))

locale two_caches =
  hosts: recency_cache LH ih + ips: recency_cache LI ii
  for LH :: "'c host_lru" and ih and LI :: "'d ip_lru" and ii
begin

lemma mem_lengths:
  assumes "mem_ok ih ii s"
  shows "length (ih (by_host s)) = length (ii (by_ip s))"
proof -
  have "card (dom (mem_fwd ih s)) = card (dom (mem_rev ii s))"
    using assms paired_card [of "mem_fwd ih s" "mem_rev ii s"] by (simp add: mem_ok_def mem_fwd_def finite_dom_map_of)
  then show ?thesis using assms card_keyed by (metis mem_fwd_def mem_ok_def mem_rev_def)
qed

lemma evict_ip_pair:
  assumes "keyed (ih (by_host s))" "keyed (ii (by_ip s))" "paired (mem_fwd ih s) (mem_rev ii s)"
    and "mem_cap s < length (ii (by_ip s))" and "last (ii (by_ip s)) = (ip, h)"
  shows "ih (by_host (mem_evict_ip LH LI s)) = AList.delete h (ih (by_host s))"
    "ii (by_ip (mem_evict_ip LH LI s)) = butlast (ii (by_ip s))" "mem_cap (mem_evict_ip LH LI s) = mem_cap s"
    "mem_rev ii s ip = Some h"
proof -
  have e: "last_entry (ii (by_ip s)) = Some (ip, h)" using assms(4,5) by (auto simp: last_entry_def)
  then show m: "mem_rev ii s ip = Some h" using last_entry_keyed [OF assms(2)] by (simp add: mem_rev_def)
  then have "mem_fwd ih s h = Some ip" using assms(3) by (simp add: paired_def)
  then have pk: "lru_peek LH (by_host s) h = Some ip" by (simp add: hosts.peek_value mem_fwd_def)
  obtain d where d: "lru_pop_lru LI (by_ip s) = (Some (ip, h), d)"
    using ips.pop_lru_value [of "by_ip s"] e by (cases "lru_pop_lru LI (by_ip s)") simp
  then show "ih (by_host (mem_evict_ip LH LI s)) = AList.delete h (ih (by_host s))"
    "ii (by_ip (mem_evict_ip LH LI s)) = butlast (ii (by_ip s))" "mem_cap (mem_evict_ip LH LI s) = mem_cap s"
    using assms(4) pk ips.items_pop_lru [of "by_ip s"]
    by (simp_all add: mem_evict_ip_def ips.len_items hosts.items_pop)
qed

lemma mem_put_ok:
  assumes "mem_ok ih ii s" and "mem_fwd ih s h = None" and "mem_rev ii s ip = None"
  shows "mem_ok ih ii (mem_put LH LI s h ip) \<and> mem_cap (mem_put LH LI s h ip) = mem_cap s \<and>
    mem_fwd ih (mem_put LH LI s h ip) h = Some ip \<and>
    (\<forall>h' a. h' \<noteq> h \<longrightarrow> mem_fwd ih (mem_put LH LI s h ip) h' = Some a \<longrightarrow> mem_fwd ih s h' = Some a) \<and>
    (Suc (card (dom (mem_fwd ih s))) \<le> mem_cap s \<longrightarrow> mem_fwd ih (mem_put LH LI s h ip) = (mem_fwd ih s)(h \<mapsto> ip))"
proof -
  define s1 where "s1 = s\<lparr>by_host := lru_put LH (by_host s) h ip, by_ip := lru_put LI (by_ip s) ip h\<rparr>"
  have ok: "keyed (ih (by_host s))" "keyed (ii (by_ip s))" "paired (mem_fwd ih s) (mem_rev ii s)" "1 \<le> mem_cap s"
    "length (ii (by_ip s)) \<le> mem_cap s" using assms(1) by (auto simp: mem_ok_def)
  have it: "ih (by_host s1) = (h, ip) # ih (by_host s)" "ii (by_ip s1) = (ip, h) # ii (by_ip s)"
    using assms(2,3) by (simp_all add: s1_def hosts.items_put ips.items_put delete_miss mem_fwd_def mem_rev_def)
  have c1: "mem_cap s1 = mem_cap s" by (simp add: s1_def)
  have m: "mem_fwd ih s1 = (mem_fwd ih s)(h \<mapsto> ip)" "mem_rev ii s1 = (mem_rev ii s)(ip \<mapsto> h)"
    unfolding mem_fwd_def mem_rev_def it by simp_all
  have k: "keyed (ih (by_host s1))" "keyed (ii (by_ip s1))"
    unfolding it using ok assms(2,3) by (simp_all add: mem_fwd_def mem_rev_def map_of_eq_None_iff)
  have pr: "paired (mem_fwd ih s1) (mem_rev ii s1)" unfolding m by (rule paired_put [OF ok(3) assms(2,3)])
  note len = mem_lengths [OF assms(1)]
  have card: "card (dom (mem_fwd ih s)) = length (ii (by_ip s))" using card_keyed [OF ok(1)] len by (simp add: mem_fwd_def)
  show ?thesis
  proof (cases "mem_cap s < length (ii (by_ip s1))")
    case False
    then have "mem_evict_ip LH LI s1 = s1" using c1 by (simp add: mem_evict_ip_def ips.len_items)
    moreover have "mem_evict_host LH LI s1 = s1" using False len c1 by (simp add: mem_evict_host_def hosts.len_items it)
    ultimately have "mem_put LH LI s h ip = s1" by (simp add: mem_put_def s1_def)
    then show ?thesis using False k pr m ok(4) c1 by (simp add: mem_ok_def)
  next
    case True
    then have ne: "ii (by_ip s) \<noteq> []" "Suc (length (ii (by_ip s))) > mem_cap s" using ok(4) it(2) by auto
    obtain eip eh where e: "last (ii (by_ip s1)) = (eip, eh)" by fastforce
    let ?t = "mem_evict_ip LH LI s1"
    have cap: "mem_cap s1 < length (ii (by_ip s1))" using True c1 by simp
    note ev = evict_ip_pair [OF k pr cap e]
    have t: "mem_fwd ih ?t = (mem_fwd ih s1)(eh := None)" "mem_rev ii ?t = (mem_rev ii s1)(eip := None)"
      using ev(1,2) map_of_butlast [OF k(2)] e it(2) by (simp_all add: mem_fwd_def mem_rev_def delete_conv')
    have pt: "paired (mem_fwd ih ?t) (mem_rev ii ?t)" unfolding t by (rule paired_delete [OF pr ev(4)])
    have kt: "keyed (ih (by_host ?t))" "keyed (ii (by_ip ?t))" using ev(1,2) k keyed_butlast by (auto simp del: keyed_Cons)
    have lt: "length (ii (by_ip ?t)) \<le> mem_cap ?t" using ev(2,3) it(2) ok(5) c1 by simp
    have okt: "mem_ok ih ii ?t" using kt pt lt ok(4) ev(3) c1 by (simp add: mem_ok_def)
    have "mem_evict_host LH LI ?t = ?t" using mem_lengths [OF okt] lt by (simp add: mem_evict_host_def hosts.len_items)
    then have put: "mem_put LH LI s h ip = ?t" by (simp add: mem_put_def s1_def)
    have "(eip, eh) \<in> set (ii (by_ip s))" using e ne(1) last_in_set by (metis it(2) last_ConsR)
    then have "eip \<noteq> ip" using assms(3) by (auto simp: mem_rev_def map_of_eq_None_iff image_iff)
    then have "eh \<noteq> h" using ev(4) m(2) assms(2) ok(3) by (auto simp: paired_def) (metis option.distinct(1))
    then show ?thesis using okt put t m ev(3) c1 ne(2) card by auto
  qed
qed

end

context two_caches
begin

lemma mem_get_ok:
  assumes "mem_ok ih ii s" and "mem_get_by_host LH LI s h = (r, s')"
  shows "r = mem_fwd ih s h \<and> mem_ok ih ii s' \<and> mem_fwd ih s' = mem_fwd ih s \<and> mem_cap s' = mem_cap s"
proof -
  obtain v c where g: "lru_get LH (by_host s) h = (v, c)" by fastforce
  have c: "v = mem_fwd ih s h" "ih c = touch h (ih (by_host s))"
    using hosts.get_value [of "by_host s" h] hosts.items_get [of "by_host s" h] g by (simp_all add: mem_fwd_def)
  show ?thesis
  proof (cases v)
    case None
    then show ?thesis using assms g c by (auto simp: mem_get_by_host_def mem_ok_def mem_fwd_def mem_rev_def)
  next
    case (Some ip)
    then show ?thesis using assms g c
      by (auto simp: mem_get_by_host_def mem_ok_def mem_fwd_def mem_rev_def ips.items_get)
  qed
qed

lemma mem_get_ip_ok:
  assumes "mem_ok ih ii s" and "mem_get_by_ip LH LI s ip = (r, s')"
  shows "r = mem_rev ii s ip \<and> mem_ok ih ii s' \<and> mem_fwd ih s' = mem_fwd ih s \<and> mem_cap s' = mem_cap s"
proof -
  obtain v d where g: "lru_get LI (by_ip s) ip = (v, d)" by fastforce
  have d: "v = mem_rev ii s ip" "ii d = touch ip (ii (by_ip s))"
    using ips.get_value [of "by_ip s" ip] ips.items_get [of "by_ip s" ip] g by (simp_all add: mem_rev_def)
  show ?thesis
  proof (cases v)
    case None
    then show ?thesis using assms g d by (auto simp: mem_get_by_ip_def mem_ok_def mem_fwd_def mem_rev_def)
  next
    case (Some h)
    then show ?thesis using assms g d
      by (auto simp: mem_get_by_ip_def mem_ok_def mem_fwd_def mem_rev_def hosts.items_get)
  qed
qed

lemma mem_del_ok:
  assumes "mem_ok ih ii s"
  shows "mem_ok ih ii (mem_del_by_ip LH LI s ip) \<and> mem_cap (mem_del_by_ip LH LI s ip) = mem_cap s \<and>
    mem_fwd ih (mem_del_by_ip LH LI s ip) = (\<lambda>h. if mem_fwd ih s h = Some ip then None else mem_fwd ih s h)"
proof -
  have ok: "keyed (ih (by_host s))" "keyed (ii (by_ip s))" "paired (mem_fwd ih s) (mem_rev ii s)" "1 \<le> mem_cap s"
    "length (ii (by_ip s)) \<le> mem_cap s" using assms by (auto simp: mem_ok_def)
  obtain v d where g: "lru_pop LI (by_ip s) ip = (v, d)" by fastforce
  have d: "v = mem_rev ii s ip" "ii d = AList.delete ip (ii (by_ip s))"
    using ips.pop_value [of "by_ip s" ip] ips.items_pop [of "by_ip s" ip] g by (simp_all add: mem_rev_def)
  have len: "length (ii d) \<le> mem_cap s" using ok(5) d(2) by (simp add: AList.delete_eq le_trans [OF length_filter_le])
  show ?thesis
  proof (cases v)
    case None
    then have n: "\<And>h. mem_fwd ih s h \<noteq> Some ip" using ok(3) d(1) by (auto simp: paired_def)
    have "ii d = ii (by_ip s)" using None d by (simp add: delete_miss mem_rev_def)
    then show ?thesis using None g n ok by (auto simp: mem_del_by_ip_def mem_ok_def mem_fwd_def mem_rev_def)
  next
    case (Some h)
    then have r: "mem_rev ii s ip = Some h" using d by simp
    then have f: "mem_fwd ih s h = Some ip" using ok(3) by (simp add: paired_def)
    then have pk: "lru_peek LH (by_host s) h = Some ip" by (simp add: hosts.peek_value mem_fwd_def)
    let ?t = "s\<lparr>by_ip := d, by_host := snd (lru_pop LH (by_host s) h)\<rparr>"
    have t: "mem_del_by_ip LH LI s ip = ?t" using g Some pk by (simp add: mem_del_by_ip_def)
    have m: "mem_fwd ih ?t = (mem_fwd ih s)(h := None)" "mem_rev ii ?t = (mem_rev ii s)(ip := None)"
      using d(2) by (simp_all add: mem_fwd_def mem_rev_def hosts.items_pop delete_conv')
    have "(mem_fwd ih s)(h := None) = (\<lambda>x. if mem_fwd ih s x = Some ip then None else mem_fwd ih s x)"
      using ok(3) f r by (auto simp: paired_def fun_eq_iff)
    moreover have "mem_ok ih ii ?t"
      using ok d(2) len paired_delete [OF ok(3) r] unfolding mem_ok_def m by (simp add: hosts.items_pop)
    ultimately show ?thesis unfolding t m by simp
  qed
qed

end

sublocale two_caches \<subseteq> mem: host_store "memory_ops LH LI" "mem_ok ih ii" mem_fits "mem_fwd ih" "mem_rev ii"
proof
  fix s :: "('c, 'd) memory_store" and h ip r s' r' off cyc n m
  show "mem_ok ih ii s \<Longrightarrow> paired (mem_fwd ih s) (mem_rev ii s)" by (simp add: mem_ok_def)
  show "mem_fits s n \<Longrightarrow> m \<le> n \<Longrightarrow> mem_fits s m" by (simp add: mem_fits_def)
  assume ok: "mem_ok ih ii s"
  have fits: "mem_cap t = mem_cap s \<Longrightarrow> mem_fits t = mem_fits s" for t :: "('c, 'd) memory_store"
    by (simp add: mem_fits_def fun_eq_iff)
  show "st_get_by_host (memory_ops LH LI) s h = (r, s') \<Longrightarrow>
      r = mem_fwd ih s h \<and> mem_ok ih ii s' \<and> mem_fwd ih s' = mem_fwd ih s \<and> mem_fits s' = mem_fits s"
    using mem_get_ok [OF ok, of h r s'] fits [of s'] by (simp add: memory_ops_def)
  show "st_get_by_ip (memory_ops LH LI) s ip = (r', s') \<Longrightarrow>
      r' = mem_rev ii s ip \<and> mem_ok ih ii s' \<and> mem_fwd ih s' = mem_fwd ih s \<and> mem_fits s' = mem_fits s"
    using mem_get_ip_ok [OF ok, of ip r' s'] fits [of s'] by (simp add: memory_ops_def)
  show "st_exists (memory_ops LH LI) s ip \<longleftrightarrow> mem_rev ii s ip \<noteq> None"
    by (simp add: memory_ops_def mem_exists_def ips.contains_items mem_rev_def map_of_eq_None_iff)
  show "mem_ok ih ii (st_del_by_ip (memory_ops LH LI) s ip) \<and> mem_fits (st_del_by_ip (memory_ops LH LI) s ip) = mem_fits s \<and>
      mem_fwd ih (st_del_by_ip (memory_ops LH LI) s ip) = (\<lambda>h. if mem_fwd ih s h = Some ip then None else mem_fwd ih s h)"
    using mem_del_ok [OF ok, of ip] fits [of "mem_del_by_ip LH LI s ip"] by (simp add: memory_ops_def)
  show "mem_fwd ih s h = None \<Longrightarrow> mem_rev ii s ip = None \<Longrightarrow>
      mem_ok ih ii (st_put (memory_ops LH LI) s h ip) \<and> mem_fits (st_put (memory_ops LH LI) s h ip) = mem_fits s \<and>
      mem_fwd ih (st_put (memory_ops LH LI) s h ip) h = Some ip \<and>
      (\<forall>h' a. h' \<noteq> h \<longrightarrow> mem_fwd ih (st_put (memory_ops LH LI) s h ip) h' = Some a \<longrightarrow> mem_fwd ih s h' = Some a)"
    using mem_put_ok [OF ok, of h ip] fits [of "mem_put LH LI s h ip"] by (simp add: memory_ops_def)
  show "mem_fwd ih s h = None \<Longrightarrow> mem_rev ii s ip = None \<Longrightarrow> mem_fits s (Suc (card (dom (mem_fwd ih s)))) \<Longrightarrow>
      mem_fwd ih (st_put (memory_ops LH LI) s h ip) = (mem_fwd ih s)(h \<mapsto> ip)"
    using mem_put_ok [OF ok, of h ip] by (simp add: memory_ops_def mem_fits_def)
  show "mem_ok ih ii (st_flush (memory_ops LH LI) s) \<and> mem_fits (st_flush (memory_ops LH LI) s) = mem_fits s \<and>
      mem_fwd ih (st_flush (memory_ops LH LI) s) = (\<lambda>_. None)"
    using ok fits [of "mem_flush LH LI s"]
    by (simp add: memory_ops_def mem_flush_def mem_ok_def mem_fwd_def mem_rev_def hosts.items_clear ips.items_clear paired_def)
  show "mem_ok ih ii (st_put_state (memory_ops LH LI) s off cyc) \<and>
      mem_fits (st_put_state (memory_ops LH LI) s off cyc) = mem_fits s \<and>
      mem_fwd ih (st_put_state (memory_ops LH LI) s off cyc) = mem_fwd ih s"
    using ok by (simp add: memory_ops_def)
qed

interpretation list_pool: two_caches list_lru "\<lambda>xs. xs" list_lru "\<lambda>xs. xs"
  by unfold_locales

subsection \<open>The file store meets the contract\<close>

definition file_fwd :: "file_store \<Rightarrow> string \<Rightarrow> ip_addr option" where
  "file_fwd s = map_of (snap_entries (fs_state s))"

definition file_rev :: "file_store \<Rightarrow> ip_addr \<Rightarrow> string option" where
  "file_rev s = map_of (fs_reverse s)"

definition file_ok :: "file_store \<Rightarrow> bool" where
  "file_ok s \<longleftrightarrow> paired (file_fwd s) (file_rev s)"

interpretation file_pool: host_store file_ops file_ok "\<lambda>_ _. True" file_fwd file_rev
proof
  fix s h ip r s' r' off cyc
  show "file_ok s \<Longrightarrow> paired (file_fwd s) (file_rev s)" by (simp add: file_ok_def)
  assume ok: "file_ok s"
  show "st_get_by_host file_ops s h = (r, s') \<Longrightarrow>
      r = file_fwd s h \<and> file_ok s' \<and> file_fwd s' = file_fwd s \<and> (\<lambda>_. True) = (\<lambda>_. True)"
    using ok by (auto simp: file_ops_def file_get_by_host_def file_fwd_def)
  show "st_get_by_ip file_ops s ip = (r', s') \<Longrightarrow>
      r' = file_rev s ip \<and> file_ok s' \<and> file_fwd s' = file_fwd s \<and> (\<lambda>_. True) = (\<lambda>_. True)"
    using ok by (auto simp: file_ops_def file_get_by_ip_def file_rev_def)
  show "st_exists file_ops s ip \<longleftrightarrow> file_rev s ip \<noteq> None"
    by (simp add: file_ops_def file_exists_def file_rev_def map_of_eq_None_iff)
  show "file_ok (st_del_by_ip file_ops s ip) \<and> (\<lambda>_. True) = (\<lambda>_. True) \<and>
      file_fwd (st_del_by_ip file_ops s ip) = (\<lambda>h. if file_fwd s h = Some ip then None else file_fwd s h)"
  proof (cases "file_rev s ip")
    case None
    then have "\<And>h. file_fwd s h \<noteq> Some ip" using ok by (auto simp: file_ok_def paired_def)
    then show ?thesis using None ok by (auto simp: file_ops_def file_del_by_ip_def file_rev_def)
  next
    case (Some h)
    then have f: "file_fwd s h = Some ip" using ok by (simp add: file_ok_def paired_def)
    let ?t = "file_del_by_ip s ip"
    have m: "file_fwd ?t = (file_fwd s)(h := None)" "file_rev ?t = (file_rev s)(ip := None)"
      using Some f by (simp_all add: file_del_by_ip_def file_fwd_def file_rev_def delete_conv')
    have "(file_fwd s)(h := None) = (\<lambda>x. if file_fwd s x = Some ip then None else file_fwd s x)"
      using ok Some f by (auto simp: file_ok_def paired_def fun_eq_iff)
    moreover have "file_ok ?t" using ok paired_delete [of "file_fwd s" "file_rev s", OF _ Some] unfolding file_ok_def m by blast
    ultimately show ?thesis using m(1) by (simp add: file_ops_def)
  qed
  have put: "file_fwd (file_put s h ip) = (file_fwd s)(h \<mapsto> ip)" "file_rev (file_put s h ip) = (file_rev s)(ip \<mapsto> h)"
    by (simp_all add: file_put_def file_fwd_def file_rev_def update_conv')
  then show "file_fwd s h = None \<Longrightarrow> file_rev s ip = None \<Longrightarrow>
      file_ok (st_put file_ops s h ip) \<and> (\<lambda>_. True) = (\<lambda>_. True) \<and> file_fwd (st_put file_ops s h ip) h = Some ip \<and>
      (\<forall>h' a. h' \<noteq> h \<longrightarrow> file_fwd (st_put file_ops s h ip) h' = Some a \<longrightarrow> file_fwd s h' = Some a)"
    using ok paired_put by (simp add: file_ops_def file_ok_def)
  show "file_fwd (st_put file_ops s h ip) = (file_fwd s)(h \<mapsto> ip)" using put by (simp add: file_ops_def)
  show "file_ok (st_flush file_ops s) \<and> (\<lambda>_. True) = (\<lambda>_. True) \<and> file_fwd (st_flush file_ops s) = (\<lambda>_. None)"
    by (simp add: file_ops_def file_flush_def file_ok_def file_fwd_def file_rev_def snapshot_default_def paired_def)
  show "file_ok (st_put_state file_ops s off cyc) \<and> (\<lambda>_. True) = (\<lambda>_. True) \<and>
      file_fwd (st_put_state file_ops s off cyc) = file_fwd s"
    using ok by (simp add: file_ops_def file_put_state_def file_ok_def file_fwd_def file_rev_def)
qed simp

subsection \<open>A new pool\<close>

lemma pool_new_shape:
  assumes "pool_new E S net st = Inr p" and "addr_less (pool_gateway p) (pool_first p)"
  shows "pool_shape p" "pool_store p = st"
    "\<not> in_pool p (prev_addr (pool_first p)) \<and> pool_offset p =
      (case st_get_state S st of Some (off, cyc) \<Rightarrow> if in_pool p off then off else prev_addr (pool_first p) | None \<Rightarrow> prev_addr (pool_first p))"
    "pool_cycle p = (case st_get_state S st of Some (off, cyc) \<Rightarrow> in_pool p off \<and> cyc | None \<Rightarrow> False)"
proof -
  obtain gw lo hi where a: "anchor_addrs E net = Inr (gw, lo, hi)" using assms(1) by (auto simp: pool_new_def split: sum.splits)
  then have lt: "addr_less lo hi" by (auto simp: anchor_addrs_def Let_def split: if_splits)
  obtain off cyc where oc: "(case st_get_state S st of
       Some (off, cyc) \<Rightarrow> if contained_in_range off lo hi then (off, cyc) else (prev_addr lo, False)
     | None \<Rightarrow> (prev_addr lo, False)) = (off, cyc)" by fastforce
  have p: "p = \<lparr>pool_net = net, pool_gateway = gw, pool_first = lo, pool_last = hi, pool_offset = off, pool_cycle = cyc, pool_store = st\<rparr>"
    using assms(1) a oc by (simp add: pool_new_def)
  have prev: "\<not> contained_in_range (prev_addr lo) lo hi"
  proof
    assume c: "contained_in_range (prev_addr lo) lo hi"
    then have "addr_val lo = addr_val (prev_addr lo) + 1"
      using addr_val_next [of "prev_addr lo" hi] by (simp add: contained_in_range_def)
    then show False using contained_val [OF c lt] by simp
  qed
  show "pool_store p = st" by (simp add: p)
  show "\<not> in_pool p (prev_addr (pool_first p)) \<and> pool_offset p =
      (case st_get_state S st of Some (off, cyc) \<Rightarrow> if in_pool p off then off else prev_addr (pool_first p) | None \<Rightarrow> prev_addr (pool_first p))"
    "pool_cycle p = (case st_get_state S st of Some (off, cyc) \<Rightarrow> in_pool p off \<and> cyc | None \<Rightarrow> False)"
    using oc prev by (auto simp: p in_pool_def split: option.splits if_splits)
  show "pool_shape p"
    using assms(2) lt oc by (auto simp: p pool_shape_def in_pool_def split: option.splits if_splits)
qed

end
