(* ===== verification/Fake_Ip_Props.thy ===== *)
theory Fake_Ip_Props
  imports Fake_Ip_Laws
begin

section \<open>What the fake-IP pool guarantees\<close>

text \<open>
  The statements about the pool over its two stores: inverse lookups, stable addresses, survival of a
  restart, the filter of bypassed names, and the persisted entries of another range.
\<close>

subsection \<open>Inverse lookups and stable addresses\<close>

context two_caches
begin

lemma store_axioms: "host_store (memory_ops LH LI) (mem_ok ih ii) mem_fits (mem_fwd ih) (mem_rev ii)"
  by (rule mem.host_store_axioms)

end

lemmas mem_store = two_caches.store_axioms

lemma mem_new_ok:
  assumes "two_caches LH ih LI ii" and "pool_new E (memory_ops LH LI) net (mem_new LH LI sz) = Inr p"
    and "addr_less (pool_gateway p) (pool_first p)"
  shows "pool_ok (mem_ok ih ii) (mem_fwd ih) p" "mem_cap (pool_store p) = max sz 1"
proof -
  have e: "ih (lru_empty LH) = []" "ii (lru_empty LI) = []"
    using assms(1) by (simp_all add: two_caches_def recency_cache.items_empty)
  note s = pool_new_shape [OF assms(2,3)]
  show "mem_cap (pool_store p) = max sz 1" by (simp add: s(2) mem_new_def)
  show "pool_ok (mem_ok ih ii) (mem_fwd ih) p"
    using s(1) by (simp add: pool_ok_def s(2) mem_new_def mem_ok_def mem_fwd_def mem_rev_def e paired_def)
qed

text \<open>
  C3. Names and addresses of the pool are each other's inverse: after any history of operations over
  the memory store, the address handed out for a name lies strictly inside the allocatable range and
  looks back to the name in lower case, also after the lookup has been repeated; and an address that
  looks back to a name is the address that name is given.
\<close>

theorem fake_ip_inverse:
  assumes "recency_cache LH ih" and "recency_cache LI ii"
    and "pool_new E (memory_ops LH LI) net (mem_new LH LI sz) = Inr p0" and "addr_less (pool_gateway p0) (pool_first p0)"
  shows "let S = memory_ops LH LI; p = pool_run S p0 ops; (ip, q) = pool_lookup S p h in
    contained_in_range ip (pool_first p0) (pool_last p0) \<and>
    fst (look_back S q ip) = Some (to_ascii_lowercase h) \<and> fst (pool_lookup S (snd (look_back S q ip)) h) = ip \<and>
    (\<forall>a n p'. look_back S p a = (Some n, p') \<longrightarrow> fst (pool_lookup S p' n) = a)"
proof -
  let ?S = "memory_ops LH LI" and ?p = "pool_run (memory_ops LH LI) p0 ops"
  have two: "two_caches LH ih LI ii" using assms(1,2) by (simp add: two_caches_def)
  note run = host_store.run_ok [OF mem_store [OF two] mem_new_ok(1) [OF two assms(3,4)], of ops]
  obtain ip q where l: "pool_lookup ?S ?p h = (ip, q)" by fastforce
  note there = host_store.lookup_look_back [OF mem_store [OF two] conjunct1 [OF run] l]
  note home = host_store.look_back_lookup [OF mem_store [OF two] conjunct1 [OF run]]
  show ?thesis using there home l run by (auto simp: Let_def in_pool_def same_frame_def)
qed

definition demo_net :: ip_net where
  "demo_net = NetV4 \<lparr>addr4 = 3323068416, prefix4 = 29\<rparr>"

lemma list_recency: "recency_cache list_lru (\<lambda>xs. xs)"
  by unfold_locales

lemma demo_pool:
  obtains p where "pool_new demo_lib (memory_ops list_lru list_lru) demo_net (mem_new list_lru list_lru 8) = Inr p"
    "addr_less (pool_gateway p) (pool_first p)" "addr_count p = 3" "pool_first p = V4 3323068420" "pool_last p = V4 3323068423"
proof -
  let ?x = "pool_new demo_lib (memory_ops list_lru list_lru) demo_net (mem_new list_lru list_lru 8)"
  have "(case ?x of Inl _ \<Rightarrow> False | Inr p \<Rightarrow> addr_less (pool_gateway p) (pool_first p) \<and> addr_count p = 3 \<and>
      pool_first p = V4 3323068420 \<and> pool_last p = V4 3323068423)" by code_simp
  then show ?thesis using that by (cases ?x) auto
qed

theorem fake_ip_inverse_witness:
  "\<exists>p0 q ip. pool_new demo_lib (memory_ops list_lru list_lru) demo_net (mem_new list_lru list_lru 8) = Inr p0 \<and>
     pool_lookup (memory_ops list_lru list_lru) (pool_run (memory_ops list_lru list_lru) p0 [Lookup ''a.com'', Flush, Lookup ''B.com'']) ''b.COM'' = (ip, q) \<and>
     fst (look_back (memory_ops list_lru list_lru) q ip) = Some ''b.com''"
proof -
  obtain p0 where p: "pool_new demo_lib (memory_ops list_lru list_lru) demo_net (mem_new list_lru list_lru 8) = Inr p0"
    "addr_less (pool_gateway p0) (pool_first p0)" by (rule demo_pool)
  have "to_ascii_lowercase ''b.COM'' = ''b.com''" by code_simp
  then show ?thesis
    using fake_ip_inverse [OF list_recency list_recency p, of "[Lookup ''a.com'', Flush, Lookup ''B.com'']" "''b.COM''"] p(1)
    by (auto simp: Let_def split: prod.splits)
qed

text \<open>
  C15. Addresses are stable: once a name that had no address has been given one, so that the cursor moved, it keeps that address, in both
  directions, through any history without a flush that looks up fewer names than there are
  allocatable addresses; the number of these is the distance from the first to the last address of
  the pool. The memory store only has to be as large.
\<close>

theorem fake_ip_stable:
  assumes "recency_cache LH ih" and "recency_cache LI ii"
    and "pool_new E (memory_ops LH LI) net (mem_new LH LI sz) = Inr p0" and "addr_less (pool_gateway p0) (pool_first p0)"
    and "addr_count p0 \<le> sz" and "pool_lookup (memory_ops LH LI) (pool_run (memory_ops LH LI) p0 before) h = (ip, p)"
    and "pool_offset p \<noteq> pool_offset (pool_run (memory_ops LH LI) p0 before)"
    and "list_all (\<lambda>x. x \<noteq> Flush) after" and "length (filter is_lookup after) < addr_count p0"
  shows "let S = memory_ops LH LI; q = pool_run S p after in
    fst (pool_lookup S q h) = ip \<and> fst (look_back S q ip) = Some (to_ascii_lowercase h)"
proof -
  let ?S = "memory_ops LH LI" and ?h = "to_ascii_lowercase h"
  let ?b = "pool_run (memory_ops LH LI) p0 before"
  have two: "two_caches LH ih LI ii" using assms(1,2) by (simp add: two_caches_def)
  note new = mem_new_ok [OF two assms(3,4)]
  note run = host_store.run_ok [OF mem_store [OF two] new(1), of before]
  note l = host_store.lookup_step [OF mem_store [OF two] conjunct1 [OF run] assms(6)]
  have fr: "same_frame p0 p" using run l(2) by (simp add: same_frame_def)
  have n: "mem_fwd ih (pool_store ?b) ?h = None" using l(7) assms(7) by fastforce
  have "mem_fits (pool_store p) (addr_count p)"
    using l(5) run new(2) assms(5) same_frame_in_pool [OF fr] by (simp add: mem_fits_def)
  moreover have "in_pool p (pool_offset p)" "addr_index p (pool_offset p) = (addr_index p ip + 0) mod addr_count p"
    using l(1,4) l(6) [OF n] in_pool_val(4) [of p ip] same_frame_in_pool [OF l(2)] by (auto simp: pool_ok_def pool_shape_def)
  ultimately have keep: "mem_fwd ih (pool_store (pool_run ?S p after)) ?h = Some ip"
    using host_store.name_survives [OF mem_store [OF two] l(1) _ l(3), of 0 after] assms(8,9) same_frame_in_pool [OF fr] by simp
  note ok = host_store.run_ok [OF mem_store [OF two] l(1), of after]
  obtain a q where q: "pool_lookup ?S (pool_run ?S p after) h = (a, q)" by fastforce
  obtain r q' where q': "look_back ?S (pool_run ?S p after) ip = (r, q')" by fastforce
  have "a = ip" using host_store.lookup_step(7) [OF mem_store [OF two] conjunct1 [OF ok] q keep] by simp
  moreover have "r = Some ?h"
    using host_store.look_back_step(6) [OF mem_store [OF two] conjunct1 [OF ok] q'] host_store.rvs_iff [OF mem_store [OF two], of "pool_store (pool_run ?S p after)" ip ?h]
      keep ok l(4) same_frame_in_pool [OF l(2)] same_frame_in_pool [of p "pool_run ?S p after"] by (simp add: pool_ok_def)
  ultimately show ?thesis using q q' by (simp add: Let_def)
qed

lemma demo_history:
  obtains p0 ip p where "pool_new demo_lib (memory_ops list_lru list_lru) demo_net (mem_new list_lru list_lru 8) = Inr p0"
    "addr_less (pool_gateway p0) (pool_first p0)" "addr_count p0 = 3"
    "pool_lookup (memory_ops list_lru list_lru) (pool_run (memory_ops list_lru list_lru) p0 []) ''C'' = (ip, p)"
    "pool_offset p \<noteq> pool_offset (pool_run (memory_ops list_lru list_lru) p0 [])"
proof -
  let ?S = "memory_ops list_lru list_lru"
  let ?x = "pool_new demo_lib ?S demo_net (mem_new list_lru list_lru 8)"
  have "(case ?x of Inl _ \<Rightarrow> False | Inr p0 \<Rightarrow> addr_less (pool_gateway p0) (pool_first p0) \<and> addr_count p0 = 3 \<and>
      pool_offset (snd (pool_lookup ?S p0 ''C'')) \<noteq> pool_offset p0)" by code_simp
  then show ?thesis using that by (cases ?x) (auto simp: prod_eq_iff pool_run_def)
qed

theorem fake_ip_stable_witness:
  "\<exists>p0 ip p. pool_new demo_lib (memory_ops list_lru list_lru) demo_net (mem_new list_lru list_lru 8) = Inr p0 \<and>
     pool_lookup (memory_ops list_lru list_lru) (pool_run (memory_ops list_lru list_lru) p0 []) ''C'' = (ip, p) \<and>
     fst (pool_lookup (memory_ops list_lru list_lru)
       (pool_run (memory_ops list_lru list_lru) p [Lookup ''d'', LookBack ip, Lookup ''e'']) ''C'') = ip"
proof -
  obtain p0 ip p where h: "pool_new demo_lib (memory_ops list_lru list_lru) demo_net (mem_new list_lru list_lru 8) = Inr p0"
    "addr_less (pool_gateway p0) (pool_first p0)" "addr_count p0 = 3"
    "pool_lookup (memory_ops list_lru list_lru) (pool_run (memory_ops list_lru list_lru) p0 []) ''C'' = (ip, p)"
    "pool_offset p \<noteq> pool_offset (pool_run (memory_ops list_lru list_lru) p0 [])"
    by (rule demo_history)
  have "fst (pool_lookup (memory_ops list_lru list_lru)
       (pool_run (memory_ops list_lru list_lru) p [Lookup ''d'', LookBack ip, Lookup ''e'']) ''C'') = ip"
    using fake_ip_stable [OF list_recency list_recency h(1,2) _ h(4,5), of "[Lookup ''d'', LookBack ip, Lookup ''e'']"] h(3)
    by (simp add: Let_def)
  then show ?thesis using h(1,4) by blast
qed

subsection \<open>Restart\<close>

text \<open>
  What the JSON library promises: a snapshot that is written reads back with the same entries, in
  whatever order, and the same cursor.
\<close>

definition json_ok :: "json_lib \<Rightarrow> bool" where
  "json_ok J \<longleftrightarrow> (\<forall>s. keyed (snap_entries s) \<longrightarrow> (\<exists>b s'. json_to_vec J s = Some b \<and> json_from_slice J b = Some s' \<and>
     keyed (snap_entries s') \<and> map_of (snap_entries s') = map_of (snap_entries s) \<and>
     snap_offset s' = snap_offset s \<and> snap_cycle s' = snap_cycle s))"

lemma reverse_of_entries:
  assumes "keyed es" and "\<And>h h' ip. map_of es h = Some ip \<Longrightarrow> map_of es h' = Some ip \<Longrightarrow> h = h'"
  shows "paired (map_of es) (map_of (foldl (\<lambda>m (h, ip). AList.update ip h m) [] es))"
proof -
  have "map_of (foldl (\<lambda>m (h, ip). AList.update ip h m) m es) = map_of m ++ map_of (rev (map (\<lambda>(h, ip). (ip, h)) es))" for m
    by (induction es arbitrary: m) (auto simp: update_conv' map_add_def fun_eq_iff split: option.splits)
  then have rev: "map_of (foldl (\<lambda>m (h, ip). AList.update ip h m) [] es) = map_of (rev (map (\<lambda>(h, ip). (ip, h)) es))" by simp
  have mem: "map_of es h = Some ip \<longleftrightarrow> (h, ip) \<in> set es" for h ip using assms(1) by (simp add: keyed_def)
  have d: "distinct (map fst (rev (map (\<lambda>(h, ip). (ip, h)) es)))"
  proof -
    have "inj_on snd (set es)"
    proof (rule inj_onI)
      fix x y assume "x \<in> set es" "y \<in> set es" "snd x = snd y"
      then show "x = y" using assms(2) [of "fst x" "snd x" "fst y", unfolded mem] by (metis prod.collapse)
    qed
    moreover have "distinct es" using assms(1) by (simp add: keyed_def distinct_map)
    ultimately have "distinct (map snd es)" by (simp add: distinct_map)
    then show ?thesis by (simp add: rev_map [symmetric] comp_def case_prod_beta)
  qed
  show ?thesis unfolding paired_def rev mem map_of_eq_Some_iff [OF d] by force
qed

text \<open>Two pools over file stores that answer alike.\<close>

definition alike :: "file_store pool \<Rightarrow> file_store pool \<Rightarrow> bool" where
  "alike p q \<longleftrightarrow> same_frame p q \<and> pool_offset q = pool_offset p \<and> pool_cycle q = pool_cycle p \<and>
     file_fwd (pool_store q) = file_fwd (pool_store p) \<and> file_rev (pool_store q) = file_rev (pool_store p)"

lemma file_op_maps:
  "file_fwd (file_put s h ip) = (file_fwd s)(h \<mapsto> ip)" "file_rev (file_put s h ip) = (file_rev s)(ip \<mapsto> h)"
  "file_fwd (file_put_state s off cyc) = file_fwd s" "file_rev (file_put_state s off cyc) = file_rev s"
  "file_fwd (file_flush s) = (\<lambda>_. None)" "file_rev (file_flush s) = (\<lambda>_. None)"
  "file_exists s ip \<longleftrightarrow> file_rev s ip \<noteq> None"
  by (simp_all add: file_put_def file_put_state_def file_flush_def file_exists_def file_fwd_def file_rev_def update_conv'
      snapshot_default_def map_of_eq_None_iff fun_eq_iff)

lemma file_del_maps:
  "file_fwd (file_del_by_ip s ip) = (case file_rev s ip of None \<Rightarrow> file_fwd s
     | Some h \<Rightarrow> if file_fwd s h = Some ip then (file_fwd s)(h := None) else file_fwd s)"
  "file_rev (file_del_by_ip s ip) = (file_rev s)(ip := None)"
  by (auto simp: file_del_by_ip_def file_fwd_def file_rev_def delete_conv' Let_def split: option.splits)

lemma alike_lookup:
  assumes "alike p q"
  shows "fst (pool_lookup file_ops q h) = fst (pool_lookup file_ops p h)"
    and "alike (snd (pool_lookup file_ops p h)) (snd (pool_lookup file_ops q h))"
proof -
  have c: "next_cand q = next_cand p" using assms by (simp add: alike_def same_frame_def next_cand_def Let_def)
  obtain cyc cand where n: "next_cand p = (cyc, cand)" by fastforce
  note g = assms [unfolded alike_def same_frame_def]
  have h: "st_get_by_host file_ops s x = (file_fwd s x, s)" for s x
    by (simp add: file_ops_def file_get_by_host_def file_fwd_def)
  have a: "alike (snd (allocate file_ops p x)) (snd (allocate file_ops q x)) \<and> fst (allocate file_ops q x) = fst (allocate file_ops p x)" for x
    using g c n by (simp add: allocate_eq file_ops_def Let_def alike_def same_frame_def file_op_maps file_del_maps split: option.split)
  show "fst (pool_lookup file_ops q h) = fst (pool_lookup file_ops p h)"
    "alike (snd (pool_lookup file_ops p h)) (snd (pool_lookup file_ops q h))"
    using g a assms by (auto simp: pool_lookup_def Let_def h split: option.splits)
qed

lemma alike_look_back: "alike p q \<Longrightarrow> fst (look_back file_ops q ip) = fst (look_back file_ops p ip)"
  and look_back_file: "snd (look_back file_ops p ip) = p"
  by (simp_all add: look_back_def file_ops_def file_get_by_ip_def alike_def same_frame_def file_rev_def)

lemma alike_run: "alike p q \<Longrightarrow> alike (pool_run file_ops p ops) (pool_run file_ops q ops)"
proof (induction ops arbitrary: p q)
  case (Cons x ops)
  have "alike (pool_step file_ops p x) (pool_step file_ops q x)"
  proof (cases x)
    case Flush
    then show ?thesis using Cons.prems by (simp add: pool_flush_def file_ops_def alike_def same_frame_def file_op_maps Let_def)
  qed (use Cons.prems alike_lookup(2) look_back_file in simp_all)
  then show ?case using Cons.IH by (simp add: pool_run_def)
qed (simp add: pool_run_def)

text \<open>What holds of a pool that started as \<open>p0\<close>: the file has everything it would need.\<close>

definition saved :: "file_store pool \<Rightarrow> file_store pool \<Rightarrow> bool" where
  "saved p0 p \<longleftrightarrow>
     keyed (snap_entries (fs_state (pool_store p))) \<and> (in_pool p (pool_offset p) \<or> \<not> pool_cycle p) \<and>
     (if fs_dirty (pool_store p)
      then snap_offset (fs_state (pool_store p)) = Some (pool_offset p) \<and> snap_cycle (fs_state (pool_store p)) = pool_cycle p
      else p = p0)"

lemma keyed_update: "keyed xs \<Longrightarrow> keyed (AList.update k v xs)"
  by (simp add: keyed_def distinct_update)

lemma saved_step:
  assumes "pool_shape p" and "saved p0 p"
  shows "saved p0 (pool_step file_ops p x)"
proof (cases x)
  case (Lookup h)
  let ?h = "to_ascii_lowercase h"
  obtain cyc cand where n: "next_cand p = (cyc, cand)" by fastforce
  have "in_pool p cand" using next_cand_in_pool(1) [OF assms(1)] n by simp
  moreover have "keyed (snap_entries (fs_state (file_del_by_ip (pool_store p) cand)))"
    using assms(2) by (auto simp: saved_def file_del_by_ip_def Let_def keyed_def distinct_delete split: option.splits)
  ultimately have "saved p0 (snd (allocate file_ops p ?h))"
    using assms(2) n by (simp add: saved_def allocate_eq file_ops_def Let_def file_put_def file_put_state_def in_pool_def keyed_update)
  then show ?thesis using Lookup assms(2)
    by (auto simp: pool_lookup_def Let_def file_ops_def file_get_by_host_def split: option.splits)
next
  case Flush
  then show ?thesis
    by (simp add: saved_def pool_flush_def file_ops_def file_flush_def file_put_state_def snapshot_default_def Let_def)
qed (use assms look_back_file in simp)

lemma file_new_ok:
  assumes "pool_new E file_ops net (file_open J FileMissing) = Inr p0" and "addr_less (pool_gateway p0) (pool_first p0)"
  shows "pool_ok file_ok file_fwd p0 \<and> saved p0 p0"
proof -
  have st: "file_open J FileMissing = \<lparr>fs_state = snapshot_default, fs_reverse = [], fs_dirty = False\<rparr>"
    by (simp add: file_open_def load_snapshot_def from_snapshot_def snapshot_default_def)
  note s = pool_new_shape [OF assms]
  have "st_get_state file_ops (pool_store p0) = None"
    by (simp add: s(2) st file_ops_def file_get_state_def snapshot_default_def)
  then have "\<not> pool_cycle p0" using s(2,4) by simp
  then show ?thesis
    using s(1) by (simp add: pool_ok_def saved_def s(2) st file_ok_def file_fwd_def file_rev_def snapshot_default_def paired_def keyed_def)
qed

lemma file_run_ok:
  assumes "pool_ok file_ok file_fwd p" and "saved p0 p"
  shows "saved p0 (pool_run file_ops p ops)"
  using assms
proof (induction ops arbitrary: p)
  case (Cons x ops)
  have "pool_ok file_ok file_fwd (pool_step file_ops p x)" using file_pool.step_ok(1) [OF Cons.prems(1)] .
  moreover have "saved p0 (pool_step file_ops p x)" using saved_step Cons.prems by (simp add: pool_ok_def)
  ultimately show ?case using Cons.IH by (simp add: pool_run_def)
qed (simp add: pool_run_def)

lemma reopened_store:
  assumes "json_ok J" and "file_ok s" and "keyed (snap_entries (fs_state s))" and "fs_dirty s"
  shows "file_fwd (file_open J (file_drop J True s f)) = file_fwd s" "file_rev (file_open J (file_drop J True s f)) = file_rev s"
    "file_get_state (file_open J (file_drop J True s f)) = file_get_state s"
proof -
  have "keyed (snap_entries (serialise (fs_state s)))" using assms(3) by (simp add: serialise_def)
  then obtain b s' where b: "json_to_vec J (serialise (fs_state s)) = Some b" "json_from_slice J b = Some s'" "keyed (snap_entries s')"
    "map_of (snap_entries s') = map_of (snap_entries (fs_state s))" "snap_offset s' = snap_offset (fs_state s)" "snap_cycle s' = snap_cycle (fs_state s)"
    using assms(1) unfolding json_ok_def by (fastforce simp: serialise_def)
  have o: "file_open J (file_drop J True s f) = from_snapshot s'"
    using b(1,2) assms(4) by (simp add: file_open_def file_drop_def persist_to_file_def load_snapshot_def)
  show f: "file_fwd (file_open J (file_drop J True s f)) = file_fwd s" "file_get_state (file_open J (file_drop J True s f)) = file_get_state s"
    using b(4-6) by (simp_all add: o from_snapshot_def file_fwd_def file_get_state_def)
  have p: "paired (map_of (snap_entries s')) (file_rev s)" using assms(2) b(4) by (simp add: file_ok_def file_fwd_def)
  have "h = h'" if "map_of (snap_entries s') h = Some ip" "map_of (snap_entries s') h' = Some ip" for h h' ip
  proof -
    have "file_rev s ip = Some h" "file_rev s ip = Some h'" using p that unfolding paired_def by blast+
    then show ?thesis by simp
  qed
  then have "paired (map_of (snap_entries s')) (file_rev (from_snapshot s'))"
    using reverse_of_entries [OF b(3)] by (simp add: from_snapshot_def file_rev_def)
  then have "file_rev (from_snapshot s') ip = file_rev s ip" for ip
    using p unfolding paired_def by (metis not_Some_eq)
  then show "file_rev (file_open J (file_drop J True s f)) = file_rev s" by (simp add: o fun_eq_iff)
qed

text \<open>
  C6. A restart cannot be observed: a pool over the file store that is dropped after any history and
  opened again from its file, with the same range, answers every later history of lookups, look-backs
  and flushes as the pool that was never closed would have, new allocations included.
\<close>

theorem fake_ip_restart:
  assumes "json_ok J" and "pool_new E file_ops net (file_open J FileMissing) = Inr p0"
    and "addr_less (pool_gateway p0) (pool_first p0)" and "p = pool_run file_ops p0 before"
    and "pool_new E file_ops net (file_open J (file_drop J True (pool_store p) FileMissing)) = Inr q"
  shows "fst (pool_lookup file_ops (pool_run file_ops q after) h) = fst (pool_lookup file_ops (pool_run file_ops p after) h) \<and>
    fst (look_back file_ops (pool_run file_ops q after) ip) = fst (look_back file_ops (pool_run file_ops p after) ip)"
proof -
  note new = file_new_ok [OF assms(2,3)]
  have sv: "saved p0 p" using file_run_ok new assms(4) by simp
  have ok: "pool_ok file_ok file_fwd p" "same_frame p0 p" using file_pool.run_ok conjunct1 [OF new] assms(4) by blast+
  have fr: "same_frame p0 q" using assms(2,5) by (auto simp: pool_new_def same_frame_def split: sum.splits prod.splits)
  then have fr': "same_frame p q" using ok(2) by (simp add: same_frame_def)
  have "alike p q"
  proof (cases "fs_dirty (pool_store p)")
    case False
    then have "p = p0" using sv by (simp add: saved_def)
    moreover from this have "q = p0"
      using assms(2,5) False by (simp add: file_drop_def)
    ultimately show ?thesis by (simp add: alike_def same_frame_def)
  next
    case True
    let ?s = "file_open J (file_drop J True (pool_store p) FileMissing)"
    have k: "file_ok (pool_store p)" "keyed (snap_entries (fs_state (pool_store p)))" "pool_shape p"
      using ok(1) sv by (simp_all add: pool_ok_def saved_def)
    note r = reopened_store [OF assms(1) k(1,2) True, of FileMissing]
    have gw: "addr_less (pool_gateway q) (pool_first q)" using fr assms(3) by (simp add: same_frame_def)
    note n = pool_new_shape [OF assms(5) gw]
    have g: "st_get_state file_ops ?s = Some (pool_offset p, pool_cycle p)"
      using sv True r(3) by (simp add: file_ops_def file_get_state_def saved_def)
    have f: "pool_first q = pool_first p" "in_pool q (pool_offset p) = in_pool p (pool_offset p)"
      using fr' same_frame_in_pool [OF fr'] by (simp_all add: same_frame_def)
    have "in_pool p (pool_offset p) \<or> \<not> pool_cycle p \<and> pool_offset p = prev_addr (pool_first p)"
      using k(3) sv by (auto simp: pool_shape_def saved_def)
    then have "pool_offset q = pool_offset p \<and> pool_cycle q = pool_cycle p"
      using conjunct2 [OF n(3)] n(4) unfolding g option.case prod.case f by auto
    then show ?thesis using fr' r(1,2) n(2) by (simp add: alike_def)
  qed
  then have a: "alike (pool_run file_ops p after) (pool_run file_ops q after)" by (rule alike_run)
  show ?thesis using alike_lookup(1) [OF a] alike_look_back [OF a] by simp
qed

text \<open>A small self-delimiting encoding of snapshots that keeps the promise of the JSON library.\<close>

definition enc_nat :: "nat \<Rightarrow> string" where
  "enc_nat n = replicate n (CHR ''1'') @ ''0''"

definition dec_nat :: "string \<Rightarrow> nat \<times> string" where
  "dec_nat s = (length (takeWhile ((=) CHR ''1'') s), tl (dropWhile ((=) CHR ''1'') s))"

definition dec_str :: "string \<Rightarrow> string \<times> string" where
  "dec_str s = (let (n, r) = dec_nat s in (take n r, drop n r))"

fun enc_addr :: "ip_addr \<Rightarrow> string" where
  "enc_addr (V4 n) = enc_nat 0 @ enc_nat (unat n)"
| "enc_addr (V6 n) = enc_nat 1 @ enc_nat (unat n)"

definition dec_addr :: "string \<Rightarrow> ip_addr \<times> string" where
  "dec_addr s = (let (k, s) = dec_nat s; (n, s) = dec_nat s in (if k = 0 then V4 (of_nat n) else V6 (of_nat n), s))"

fun enc_entries :: "(string \<times> ip_addr) list \<Rightarrow> string" where
  "enc_entries [] = []"
| "enc_entries ((h, ip) # es) = enc_nat (length h) @ h @ enc_addr ip @ enc_entries es"

fun dec_entries :: "nat \<Rightarrow> string \<Rightarrow> (string \<times> ip_addr) list" where
  "dec_entries 0 s = []"
| "dec_entries (Suc n) s = (let (h, s) = dec_str s; (ip, s) = dec_addr s in (h, ip) # dec_entries n s)"

definition demo_json :: json_lib where
  "demo_json =
     \<lparr>json_to_vec = (\<lambda>s. Some ((if snap_cycle s then ''1'' else ''0'') @
        (case snap_offset s of None \<Rightarrow> enc_nat 0 | Some a \<Rightarrow> enc_nat 1 @ enc_addr a) @
        enc_nat (length (snap_entries s)) @ enc_entries (snap_entries s))),
      json_from_slice = (\<lambda>b. let (k, r) = dec_nat (tl b);
          (off, r) = (if k = 0 then (None, r) else let (a, r) = dec_addr r in (Some a, r));
          (n, r) = dec_nat r in
        Some \<lparr>snap_entries = dec_entries n r, snap_offset = off, snap_cycle = (take 1 b = ''1'')\<rparr>)\<rparr>"

lemma dec_nat_enc [simp]: "dec_nat (enc_nat n @ r) = (n, r)"
  by (induction n) (simp_all add: dec_nat_def enc_nat_def)

lemma dec_addr_enc [simp]: "dec_addr (enc_addr a @ r) = (a, r)"
  by (cases a) (simp_all add: dec_addr_def)

lemma dec_entries_enc [simp]: "dec_entries (length es) (enc_entries es) = es"
  by (induction es rule: enc_entries.induct) (simp_all add: dec_str_def)

lemma demo_json_ok: "json_ok demo_json"
proof -
  have "\<exists>b. json_to_vec demo_json s = Some b \<and> json_from_slice demo_json b = Some s" for s
    by (cases s; cases "snap_offset s") (simp_all add: demo_json_def Let_def)
  then show ?thesis unfolding json_ok_def by blast
qed

definition moved_net :: ip_net where
  "moved_net = NetV4 \<lparr>addr4 = 167772160, prefix4 = 29\<rparr>"

lemma demo_file_pool:
  assumes "net \<in> {demo_net, moved_net}"
  obtains p where "pool_new demo_lib file_ops net (file_open demo_json f) = Inr p" "addr_less (pool_gateway p) (pool_first p)"
proof -
  have "list_all (\<lambda>net. case anchor_addrs demo_lib net of Inl _ \<Rightarrow> False | Inr (gw, lo, hi) \<Rightarrow> addr_less gw lo) [demo_net, moved_net]"
    by code_simp
  then obtain gw lo hi where a: "anchor_addrs demo_lib net = Inr (gw, lo, hi)" "addr_less gw lo"
    using assms by (auto split: sum.splits)
  obtain off cyc where "(case st_get_state file_ops (file_open demo_json f) of
       Some (off, cyc) \<Rightarrow> if contained_in_range off lo hi then (off, cyc) else (prev_addr lo, False)
     | None \<Rightarrow> (prev_addr lo, False)) = (off, cyc)" by fastforce
  then show ?thesis using that a by (simp add: pool_new_def)
qed

theorem fake_ip_restart_witness:
  "\<exists>p0 q. pool_new demo_lib file_ops demo_net (file_open demo_json FileMissing) = Inr p0 \<and>
     pool_new demo_lib file_ops demo_net (file_open demo_json (file_drop demo_json True
       (pool_store (pool_run file_ops p0 [Lookup ''a'', Flush, Lookup ''b''])) FileMissing)) = Inr q \<and>
     fst (pool_lookup file_ops (pool_run file_ops q [Lookup ''c'']) ''b'') =
     fst (pool_lookup file_ops (pool_run file_ops (pool_run file_ops p0 [Lookup ''a'', Flush, Lookup ''b'']) [Lookup ''c'']) ''b'')"
proof -
  obtain p0 where p: "pool_new demo_lib file_ops demo_net (file_open demo_json FileMissing) = Inr p0" "addr_less (pool_gateway p0) (pool_first p0)"
    using demo_file_pool by blast
  define p where "p = pool_run file_ops p0 [Lookup ''a'', Flush, Lookup ''b'']"
  obtain q where q: "pool_new demo_lib file_ops demo_net (file_open demo_json (file_drop demo_json True (pool_store p) FileMissing)) = Inr q"
    using demo_file_pool by blast
  show ?thesis using fake_ip_restart [OF demo_json_ok p p_def q, of "[Lookup ''c'']" "''b''"] p(1) q unfolding p_def by blast
qed

text \<open>
  C34. Entries outlive their range: when the range is changed between two runs, a name of the old file
  is still answered with its old address, which the pool with the new range does not regard as one of
  its own, so a connection to it is not mapped back to the name by the fake-IP test.
\<close>

theorem fake_ip_stale_range:
  assumes "json_ok J" and "pool_new E file_ops old_net (file_open J FileMissing) = Inr p0"
    and "addr_less (pool_gateway p0) (pool_first p0)" and "pool_lookup file_ops p0 h = (ip, p)"
    and "pool_new E file_ops new_net (file_open J (file_drop J True (pool_store p) FileMissing)) = Inr q"
    and "\<not> net_contains E new_net ip"
  shows "fst (pool_lookup file_ops q h) = ip \<and> \<not> is_fake_ip E file_ops (snd (pool_lookup file_ops q h)) ip"
proof -
  note new = file_new_ok [OF assms(2,3)]
  have p: "p = pool_run file_ops p0 [Lookup h]" using assms(4) by (simp add: pool_run_def)
  have sv: "saved p0 p" using file_run_ok new p by simp
  note l = file_pool.lookup_step [OF conjunct1 [OF new] assms(4)]
  have k: "file_ok (pool_store p)" "keyed (snap_entries (fs_state (pool_store p)))"
    using l(1) sv by (simp_all add: pool_ok_def saved_def)
  have "p \<noteq> p0"
  proof
    assume "p = p0"
    then have "file_fwd (pool_store p) = file_fwd (file_open J FileMissing)" using pool_new_shape(2) [OF assms(2,3)] by simp
    then show False using l(3) by (simp add: file_open_def load_snapshot_def from_snapshot_def snapshot_default_def file_fwd_def)
  qed
  then have d: "fs_dirty (pool_store p)" using sv by (auto simp: saved_def split: if_splits)
  have q: "pool_store q = file_open J (file_drop J True (pool_store p) FileMissing)" "pool_net q = new_net"
    using assms(5) by (auto simp: pool_new_def Let_def split: sum.splits prod.splits)
  then have "file_fwd (pool_store q) (to_ascii_lowercase h) = Some ip" using reopened_store(1) [OF assms(1) k d] l(3) by simp
  then have "pool_lookup file_ops q h = (ip, q)"
    by (simp add: pool_lookup_def Let_def file_ops_def file_get_by_host_def file_fwd_def)
  then show ?thesis using q(2) assms(6) by (simp add: is_fake_ip_def)
qed

theorem fake_ip_stale_range_witness:
  "\<exists>p0 q ip. fst (pool_lookup file_ops p0 ''a'') = ip \<and>
     pool_new demo_lib file_ops moved_net (file_open demo_json (file_drop demo_json True (pool_store (snd (pool_lookup file_ops p0 ''a''))) FileMissing)) = Inr q \<and>
     fst (pool_lookup file_ops q ''a'') = ip \<and> \<not> is_fake_ip demo_lib file_ops (snd (pool_lookup file_ops q ''a'')) ip"
proof -
  let ?x = "pool_new demo_lib file_ops demo_net (file_open demo_json FileMissing)"
  have "(case ?x of Inl _ \<Rightarrow> False | Inr p0 \<Rightarrow> addr_less (pool_gateway p0) (pool_first p0) \<and>
      \<not> net_contains demo_lib moved_net (fst (pool_lookup file_ops p0 ''a'')))" by code_simp
  then obtain p0 where p: "?x = Inr p0" "addr_less (pool_gateway p0) (pool_first p0)"
    "\<not> net_contains demo_lib moved_net (fst (pool_lookup file_ops p0 ''a''))" by (auto split: sum.splits)
  obtain ip p where l: "pool_lookup file_ops p0 ''a'' = (ip, p)" by fastforce
  obtain q where q: "pool_new demo_lib file_ops moved_net (file_open demo_json (file_drop demo_json True (pool_store p) FileMissing)) = Inr q"
    using demo_file_pool by blast
  have "\<not> net_contains demo_lib moved_net ip" using p(3) l by simp
  then have "fst (pool_lookup file_ops q ''a'') = ip \<and> \<not> is_fake_ip demo_lib file_ops (snd (pool_lookup file_ops q ''a'')) ip"
    by (rule fake_ip_stale_range [OF demo_json_ok p(1,2) l q])
  then show ?thesis using l q by (intro exI [of _ p0] exI [of _ q] exI [of _ ip]) simp
qed

subsection \<open>Bypassed names\<close>

lemma skipper_inserts_table:
  assumes "trie_from t b" and "trie_state t = Building b" and "skipper_inserts E t n raws = Some (t', n')"
  shows "\<exists>b'. trie_from t' b' \<and>
    slots b' = keys_table (to_lowercase E) (slots b) (map (\<lambda>k. (k, (), FirstWins)) (filter (\<lambda>p. p \<noteq> []) (map trim raws))) \<and>
    (n' = 0 \<longleftrightarrow> n = 0 \<and> list_all (\<lambda>raw. trim raw = [] \<or> key_slots (normal_key (to_lowercase E) (trim raw)) = []) raws)"
  using assms
proof (induction raws arbitrary: t b n)
  case (Cons raw raws)
  show ?case
  proof (cases "trim raw = []")
    case True
    then show ?thesis using Cons by simp
  next
    case False
    with Cons.prems(3) obtain ok t1 where t1: "insert_inner (to_lowercase E) t (trim raw) () FirstWins = Some (ok, t1)"
      "skipper_inserts E t1 (if ok then n + 1 else n) raws = Some (t', n')"
      by (auto simp: Let_def trie_insert_def bind_eq_Some_conv)
    obtain b1 where b1: "trie_from t1 b1" "trie_state t1 = Building b1"
      "slots b1 = put_key (slots b) (normal_key (to_lowercase E) (trim raw)) () FirstWins"
      "ok \<longleftrightarrow> key_slots (normal_key (to_lowercase E) (trim raw)) \<noteq> []"
      using insert_inner_table [OF Cons.prems(1,2) t1(1)] by blast
    show ?thesis using Cons.IH [OF b1(1,2) t1(2)] b1(3,4) False by auto
  qed
qed auto

text \<open>
  C35. The filter of bypassed names skips, in black-list mode, exactly the names that one of its
  non-blank patterns matches in lower case; in white-list mode exactly the names that none of them
  matches, unless no pattern is usable: then nothing is skipped, in either mode.
\<close>

theorem should_skip_exact:
  assumes "skipper_new E patterns mode = Some sk"
  shows "should_skip sk h \<longleftrightarrow>
    (let name = trim_end_dots (trim h); keys = map (normal_key (to_lowercase E)) (filter (\<lambda>p. p \<noteq> []) (map trim patterns));
         hit = (name \<noteq> [] \<and> list_ex (\<lambda>k. key_matches k (to_ascii_lowercase name)) keys) in
     case mode of BlackList \<Rightarrow> hit | WhiteList \<Rightarrow> list_ex (\<lambda>k. key_slots k \<noteq> []) keys \<and> \<not> hit)"
proof -
  let ?ks = "filter (\<lambda>p. p \<noteq> []) (map trim patterns)"
  obtain t n where t: "skipper_inserts E trie_new 0 patterns = Some (t, n)"
    "sk = \<lparr>sk_trie = t, sk_mode = mode, sk_empty = (n = 0)\<rparr>"
    using assms by (auto simp: skipper_new_def)
  have "trie_state trie_new = Building builder_new" by (simp add: trie_new_def)
  then obtain b where b: "trie_from t b" "slots b = keys_table (to_lowercase E) no_keys (map (\<lambda>k. (k, (), FirstWins)) ?ks)"
    "n = 0 \<longleftrightarrow> list_all (\<lambda>raw. trim raw = [] \<or> key_slots (normal_key (to_lowercase E) (trim raw)) = []) patterns"
    using skipper_inserts_table [OF trie_from_new _ t(1)] by auto
  have hit: "trie_hit t h \<longleftrightarrow> trim_end_dots (trim h) \<noteq> [] \<and>
      list_ex (\<lambda>k. key_matches k (to_ascii_lowercase (trim_end_dots (trim h)))) (map (normal_key (to_lowercase E)) ?ks)"
    using table_hit_keys [OF b(1,2)] by (auto simp: list_ex_iff)
  have e: "n = 0 \<longleftrightarrow> \<not> list_ex (\<lambda>k. key_slots k \<noteq> []) (map (normal_key (to_lowercase E)) ?ks)"
    unfolding b(3) by (auto simp: list_ex_iff list_all_iff)
  have "\<not> key_matches k q" if "key_slots k = []" for k q
    using that by (auto simp: key_matches_def key_slots_def split: option.splits if_splits)
  then have "n = 0 \<Longrightarrow> \<not> list_ex (\<lambda>k. key_matches k q) (map (normal_key (to_lowercase E)) ?ks)" for q
    unfolding e list_ex_iff by blast
  then show ?thesis using e by (cases mode) (simp_all add: should_skip_def t(2) hit Let_def)
qed

theorem should_skip_exact_witness:
  "\<exists>sk. skipper_new demo_lib [''+.Lan'', '' ''] WhiteList = Some sk \<and> should_skip sk ''b.com'' \<and> \<not> should_skip sk ''A.lan''"
proof -
  have "skipper_new demo_lib [''+.Lan'', '' ''] WhiteList \<noteq> None" by code_simp
  then obtain sk where sk: "skipper_new demo_lib [''+.Lan'', '' ''] WhiteList = Some sk" by auto
  have "should_skip sk ''b.com''" unfolding should_skip_exact [OF sk] by code_simp
  moreover have "\<not> should_skip sk ''A.lan''" unfolding should_skip_exact [OF sk] by code_simp
  ultimately show ?thesis using sk by blast
qed

end
