(* ===== verification/Dns_Cache.thy ===== *)
theory Dns_Cache
  imports Lru_Cache Ext_Lib "HOL-Library.Word" "HOL-Library.Char_ord" "HOL-Library.List_Lexorder"
begin

section \<open>The DNS cache\<close>

text \<open>
  The model of \<^verbatim>\<open>meow-dns/src/cache.rs\<close>: address families as a bit set, the kinds of negative answers
  packed into a byte, sixteen forward and sixteen reverse shards, and the operations on them. Instants
  and durations are counted in nanoseconds; an operation that reads the clock takes the instant it
  reads. Adding a duration to an instant panics beyond the range of the platform's clock.
\<close>

unbundle bit_operations_syntax

type_synonym instant = nat
type_synonym duration = nat

definition secs :: "nat \<Rightarrow> duration" where
  "secs n = n * 1000000000"

definition duration_max :: duration where
  "duration_max = secs (2 ^ 64) - 1"

definition instant_max :: instant where
  "instant_max = secs (2 ^ 63) - 1"

definition instant_add :: "instant \<Rightarrow> duration \<Rightarrow> instant panics" where
  "instant_add t d = (if t + d \<le> instant_max then Some (t + d) else None)"

definition saturating_duration_since :: "instant \<Rightarrow> instant \<Rightarrow> duration" where
  "saturating_duration_since t earlier = t - earlier"

subsection \<open>Address families\<close>

type_synonym query_families = "8 word"

definition fam_none :: query_families where "fam_none = 0"
definition fam_ipv4 :: query_families where "fam_ipv4 = 1"
definition fam_ipv6 :: query_families where "fam_ipv6 = 2"
definition fam_both :: query_families where "fam_both = fam_ipv4 OR fam_ipv6"

datatype record_type = TypeA | TypeAAAA | TypeOther nat

fun from_record_type :: "record_type \<Rightarrow> query_families" where
  "from_record_type TypeA = fam_ipv4"
| "from_record_type TypeAAAA = fam_ipv6"
| "from_record_type _ = fam_none"

fun is_ipv4 :: "ip_addr \<Rightarrow> bool" where
  "is_ipv4 (V4 _) = True"
| "is_ipv4 (V6 _) = False"

definition fam_union :: "query_families \<Rightarrow> query_families \<Rightarrow> query_families" where
  "fam_union a b = a OR b"

definition from_ips :: "ip_addr list \<Rightarrow> query_families" where
  "from_ips ips = foldl (\<lambda>families ip. fam_union families (if is_ipv4 ip then fam_ipv4 else fam_ipv6)) fam_none ips"

definition fam_contains :: "query_families \<Rightarrow> query_families \<Rightarrow> bool" where
  "fam_contains a f \<longleftrightarrow> a AND f = f"

definition fam_minus :: "query_families \<Rightarrow> query_families \<Rightarrow> query_families" where
  "fam_minus a b = a AND NOT b"

definition fam_is_empty :: "query_families \<Rightarrow> bool" where
  "fam_is_empty a \<longleftrightarrow> a = 0"

definition contains_ip :: "query_families \<Rightarrow> ip_addr \<Rightarrow> bool" where
  "contains_ip a ip = fam_contains a (if is_ipv4 ip then fam_ipv4 else fam_ipv6)"

definition fam_other :: "query_families \<Rightarrow> query_families" where
  "fam_other a = (if a = fam_ipv4 then fam_ipv6 else fam_ipv4)"

subsection \<open>Negative answers\<close>

datatype family_neg = NegNone | NegNoData | NegNxDomain

type_synonym neg_kind = "8 word"

definition neg_NONE :: "8 word" where "neg_NONE = 0"
definition neg_NODATA :: "8 word" where "neg_NODATA = 1"
definition neg_NXDOMAIN :: "8 word" where "neg_NXDOMAIN = 2"

definition neg_empty :: neg_kind where
  "neg_empty = 0"

definition family_shift :: "query_families \<Rightarrow> nat" where
  "family_shift f = (if f = fam_ipv4 then 0 else 2)"

definition neg_with :: "neg_kind \<Rightarrow> query_families \<Rightarrow> 8 word \<Rightarrow> neg_kind" where
  "neg_with n f kind =
     (let shift = family_shift f in (n AND NOT (push_bit shift 3)) OR push_bit shift (kind AND 3))"

definition neg_get :: "neg_kind \<Rightarrow> query_families \<Rightarrow> 8 word" where
  "neg_get n f = drop_bit (family_shift f) n AND 3"

definition family_kind :: "neg_kind \<Rightarrow> query_families \<Rightarrow> family_neg" where
  "family_kind n f =
     (if neg_get n f = neg_NODATA then NegNoData else if neg_get n f = neg_NXDOMAIN then NegNxDomain else NegNone)"

subsection \<open>Entries and lookups\<close>

record cache_entry =
  ce_ips :: "ip_addr list"
  expire_v4 :: instant
  expire_v6 :: instant
  ce_source :: "string option"
  queried :: query_families
  ce_neg :: neg_kind

datatype family_cache_hit = Answer "ip_addr list" duration | NoData | NxDomain | Miss

fun is_fresh :: "family_cache_hit \<Rightarrow> bool" where
  "is_fresh Miss = False"
| "is_fresh _ = True"

record cache_lookup =
  cl_ips :: "ip_addr list"
  cl_ttl :: duration
  cl_v4 :: family_cache_hit
  cl_v6 :: family_cache_hit

record reverse_entry =
  re_domain :: string
  re_expire_at :: instant

record ('f, 'r) dns_cache =
  dc_cache :: "'f list"
  dc_reverse :: "'r list"
  fwd_shard_cap :: nat
  rev_shard_cap :: nat

record dns_snapshot_entry =
  ds_name :: string
  ds_ips :: "ip_addr list"
  ds_ttl :: duration
  ds_source :: "string option"

record reverse_snapshot_entry =
  rs_ip :: ip_addr
  rs_domain :: string
  rs_remaining :: duration

definition REVERSE_CAP_MULTIPLIER :: nat where "REVERSE_CAP_MULTIPLIER = 4"
definition REVERSE_TTL_FLOOR :: duration where "REVERSE_TTL_FLOOR = secs 600"
definition SHARDS :: nat where "SHARDS = 16"
definition SHARD_MASK :: "64 word" where "SHARD_MASK = 15"

subsection \<open>Shards\<close>

definition fnv1a32 :: "8 word list \<Rightarrow> 32 word" where
  "fnv1a32 bytes = foldl (\<lambda>h b. (h XOR ucast b) * 0x01000193) 0x811c9dc5 bytes"

definition shard_of :: "8 word list \<Rightarrow> nat" where
  "shard_of bytes = unat (ucast (fnv1a32 bytes) AND SHARD_MASK)"

definition shard_str :: "string \<Rightarrow> nat" where
  "shard_str s = shard_of (map (\<lambda>c. of_nat (byte_val c)) s)"

fun shard_ip :: "ip_addr \<Rightarrow> nat" where
  "shard_ip (V4 a) = shard_of (map (\<lambda>i. ucast (drop_bit (8 * i) a)) (rev [0..<4]))"
| "shard_ip (V6 a) = shard_of (map (\<lambda>i. ucast (drop_bit (8 * i) a)) (rev [0..<16]))"

definition per_shard_cap :: "nat \<Rightarrow> nat \<Rightarrow> nat" where
  "per_shard_cap cap_total least = max (cap_total div SHARDS) least"

definition normalize_domain :: "string \<Rightarrow> string" where
  "normalize_domain domain = (if list_ex is_ascii_uppercase domain then to_ascii_lowercase domain else domain)"

definition v4_fresh :: "cache_entry \<Rightarrow> instant \<Rightarrow> bool" where
  "v4_fresh e now \<longleftrightarrow> fam_contains (queried e) fam_ipv4 \<and> expire_v4 e > now"

definition v6_fresh :: "cache_entry \<Rightarrow> instant \<Rightarrow> bool" where
  "v6_fresh e now \<longleftrightarrow> fam_contains (queried e) fam_ipv6 \<and> expire_v6 e > now"

definition family_hit :: "cache_entry \<Rightarrow> query_families \<Rightarrow> bool \<Rightarrow> instant \<Rightarrow> family_cache_hit" where
  "family_hit e family fresh now =
     (if \<not> fresh then Miss
      else let remaining = (if family = fam_ipv4 then saturating_duration_since (expire_v4 e) now
                            else saturating_duration_since (expire_v6 e) now);
               ips = filter (contains_ip family) (ce_ips e) in
        if ips = [] then (case family_kind (ce_neg e) family of NegNxDomain \<Rightarrow> NxDomain | _ \<Rightarrow> NoData)
        else Answer ips remaining)"

subsection \<open>Operations\<close>

definition cache_new :: "('f, string, cache_entry) lru_ops \<Rightarrow> ('r, ip_addr, reverse_entry) lru_ops \<Rightarrow> nat \<Rightarrow> ('f, 'r) dns_cache" where
  "cache_new F R capacity =
     \<lparr>dc_cache = replicate SHARDS (lru_empty F), dc_reverse = replicate SHARDS (lru_empty R),
      fwd_shard_cap = per_shard_cap (max capacity SHARDS) 8,
      rev_shard_cap = per_shard_cap (max (min (capacity * REVERSE_CAP_MULTIPLIER) (2 ^ 64 - 1)) SHARDS) 16\<rparr>"

text \<open>An insertion into a shard, with the capacity enforced by hand.\<close>

definition put_capped :: "('c, 'k, 'v) lru_ops \<Rightarrow> nat \<Rightarrow> 'c \<Rightarrow> 'k \<Rightarrow> 'v \<Rightarrow> 'c" where
  "put_capped L cap c k v =
     (let c = lru_put L c k v in if lru_len L c > cap then snd (lru_pop_lru L c) else c)"

fun collect_hits :: "family_cache_hit list \<Rightarrow> ip_addr list \<Rightarrow> duration \<Rightarrow> ip_addr list \<times> duration" where
  "collect_hits [] ips min_remaining = (ips, min_remaining)"
| "collect_hits (Answer hit_ips ttl # hits) ips min_remaining =
     collect_hits hits (ips @ hit_ips) (if ttl < min_remaining then ttl else min_remaining)"
| "collect_hits (_ # hits) ips min_remaining = collect_hits hits ips min_remaining"

definition get_lookup :: "('f, string, cache_entry) lru_ops \<Rightarrow> instant \<Rightarrow> ('f, 'r) dns_cache \<Rightarrow> string \<Rightarrow>
    cache_lookup option \<times> ('f, 'r) dns_cache" where
  "get_lookup F now c domain =
     (let domain = normalize_domain domain; i = shard_str domain; (found, shard) = lru_get F (dc_cache c ! i) domain in
      case found of
        None \<Rightarrow> (None, c\<lparr>dc_cache := (dc_cache c)[i := shard]\<rparr>)
      | Some e \<Rightarrow>
          if v4_fresh e now \<or> v6_fresh e now then
            (let v4 = family_hit e fam_ipv4 (v4_fresh e now) now; v6 = family_hit e fam_ipv6 (v6_fresh e now) now;
                 (ips, min_remaining) = collect_hits [v4, v6] [] duration_max;
                 min_remaining = (if min_remaining = duration_max then 0 else min_remaining) in
             (Some \<lparr>cl_ips = ips, cl_ttl = min_remaining, cl_v4 = v4, cl_v6 = v6\<rparr>, c\<lparr>dc_cache := (dc_cache c)[i := shard]\<rparr>))
          else (None, c\<lparr>dc_cache := (dc_cache c)[i := snd (lru_pop F shard domain)]\<rparr>))"

definition get_with_ttl where
  "get_with_ttl F now c domain = map_prod (map_option (\<lambda>l. (cl_ips l, cl_ttl l))) (\<lambda>c. c) (get_lookup F now c domain)"

definition cache_get where
  "cache_get F now c domain = map_prod (map_option fst) (\<lambda>c. c) (get_with_ttl F now c domain)"

definition put_reverse :: "('r, ip_addr, reverse_entry) lru_ops \<Rightarrow> ('f, 'r) dns_cache \<Rightarrow> ip_addr \<Rightarrow> string \<Rightarrow> instant \<Rightarrow> ('f, 'r) dns_cache" where
  "put_reverse R c ip key at =
     c\<lparr>dc_reverse := (dc_reverse c)[shard_ip ip :=
        put_capped R (rev_shard_cap c) (dc_reverse c ! shard_ip ip) ip \<lparr>re_domain = key, re_expire_at = at\<rparr>]\<rparr>"

definition put_forward :: "('f, string, cache_entry) lru_ops \<Rightarrow> ('f, 'r) dns_cache \<Rightarrow> string \<Rightarrow> cache_entry \<Rightarrow> ('f, 'r) dns_cache" where
  "put_forward F c key e =
     c\<lparr>dc_cache := (dc_cache c)[shard_str key := put_capped F (fwd_shard_cap c) (dc_cache c ! shard_str key) key e]\<rparr>"

definition put_replacing where
  "put_replacing F R now c domain ips ttl source q neg =
     Option.bind (instant_add now ttl) (\<lambda>expire.
     Option.bind (instant_add now (max ttl REVERSE_TTL_FLOOR)) (\<lambda>reverse_expire_at.
       let domain = normalize_domain domain;
           c = foldl (\<lambda>c ip. put_reverse R c ip domain reverse_expire_at) c ips in
       Some (put_forward F c domain
         \<lparr>ce_ips = ips, expire_v4 = expire, expire_v6 = expire, ce_source = source, queried = q, ce_neg = neg\<rparr>)))"

definition put_with_source where
  "put_with_source F R now c domain ips ttl source =
     (let (q, neg) = (if ips = [] then (fam_both, neg_with (neg_with neg_empty fam_ipv4 neg_NXDOMAIN) fam_ipv6 neg_NXDOMAIN)
                      else (from_ips ips, neg_empty)) in
      put_replacing F R now c domain ips ttl source q neg)"

definition cache_put where
  "cache_put F R now c domain ips ttl = put_with_source F R now c domain ips ttl None"

subsection \<open>Merging one family\<close>

text \<open>The loop that drops an address that occurs earlier in the list; \<open>kept\<close> is the part before the index.\<close>

fun dedup :: "ip_addr list \<Rightarrow> ip_addr list \<Rightarrow> ip_addr list" where
  "dedup kept [] = kept"
| "dedup kept (ip # rest) = (if ip \<in> set kept then dedup kept rest else dedup (kept @ [ip]) rest)"

definition family_fresh :: "cache_entry \<Rightarrow> query_families \<Rightarrow> instant \<Rightarrow> bool" where
  "family_fresh e family now \<longleftrightarrow> (if family = fam_ipv4 then expire_v4 e > now else expire_v6 e > now)"

record merge_state =
  ms_ips :: "ip_addr list"
  ms_queried :: query_families
  ms_v4 :: instant
  ms_v6 :: instant
  ms_source :: "string option"
  ms_neg :: neg_kind

definition keep_expiry :: "query_families \<Rightarrow> cache_entry \<Rightarrow> merge_state \<Rightarrow> merge_state" where
  "keep_expiry family e m = (if family = fam_ipv4 then m\<lparr>ms_v4 := expire_v4 e\<rparr> else m\<lparr>ms_v6 := expire_v6 e\<rparr>)"

definition preserve_existing :: "cache_entry \<Rightarrow> query_families \<Rightarrow> ip_addr list \<Rightarrow> family_neg \<Rightarrow> instant \<Rightarrow> bool" where
  "preserve_existing e family ips neg now \<longleftrightarrow>
     (fam_contains (queried e) family \<and> family_fresh e family now) \<and> neg = NegNoData \<and> ips = [] \<and>
     (neg_get (ce_neg e) family = neg_NXDOMAIN \<or> filter (contains_ip family) (ce_ips e) \<noteq> [])"

definition merge_existing :: "query_families \<Rightarrow> ip_addr list \<Rightarrow> family_neg \<Rightarrow> instant \<Rightarrow> merge_state \<Rightarrow> cache_entry \<Rightarrow> merge_state" where
  "merge_existing family ips neg now m e =
     (let other = fam_other family; mine = filter (contains_ip family) (ce_ips e);
          m = (if preserve_existing e family ips neg now
               then keep_expiry family e (m\<lparr>ms_ips := ms_ips m @ mine,
                      ms_neg := neg_with (ms_neg m) family (if mine = [] then neg_NXDOMAIN else neg_NONE)\<rparr>)
               else m);
          m = (if fam_contains (queried e) other \<and> family_fresh e other now
               then (let m = keep_expiry other e (m\<lparr>ms_queried := fam_union (ms_queried m) other,
                       ms_ips := ms_ips m @ filter (contains_ip other) (ce_ips e)\<rparr>) in
                     m\<lparr>ms_neg := neg_with (ms_neg m) other (neg_get (ce_neg e) other)\<rparr>)
               else m) in
      if ms_source m = None then m\<lparr>ms_source := ce_source e\<rparr> else m)"

fun neg_code :: "family_neg \<Rightarrow> 8 word" where
  "neg_code NegNone = neg_NONE"
| "neg_code NegNoData = neg_NODATA"
| "neg_code NegNxDomain = neg_NXDOMAIN"

definition merge_entry ::
  "query_families \<Rightarrow> ip_addr list \<Rightarrow> instant \<Rightarrow> instant \<Rightarrow> string option \<Rightarrow> family_neg \<Rightarrow> cache_entry option \<Rightarrow> cache_entry" where
  "merge_entry family ips now expire source neg found =
     (let m = \<lparr>ms_ips = [], ms_queried = family, ms_v4 = expire, ms_v6 = expire, ms_source = source,
               ms_neg = neg_with neg_empty family (neg_code neg)\<rparr>;
          m = (case found of None \<Rightarrow> m | Some e \<Rightarrow> merge_existing family ips neg now m e);
          merged = dedup [] (ms_ips m @ ips) in
      \<lparr>ce_ips = merged, expire_v4 = ms_v4 m, expire_v6 = ms_v6 m, ce_source = ms_source m,
       queried = ms_queried m, ce_neg = ms_neg m\<rparr>)"

definition merge_family where
  "merge_family F R now c domain family ips ttl source neg =
     (if family \<noteq> fam_ipv4 \<and> family \<noteq> fam_ipv6 then Some c
      else
      Option.bind (instant_add now ttl) (\<lambda>expire.
      Option.bind (instant_add now (max ttl REVERSE_TTL_FLOOR)) (\<lambda>reverse_expire_at.
        let domain = normalize_domain domain;
            c = foldl (\<lambda>c ip. put_reverse R c ip domain reverse_expire_at) c ips;
            (found, shard) = lru_get F (dc_cache c ! shard_str domain) domain;
            c = c\<lparr>dc_cache := (dc_cache c)[shard_str domain := shard]\<rparr> in
        Some (put_forward F c domain (merge_entry family ips now expire source neg found)))))"

subsection \<open>Reverse lookups, snapshots and maintenance\<close>

definition reverse_lookup :: "('r, ip_addr, reverse_entry) lru_ops \<Rightarrow> instant \<Rightarrow> ('f, 'r) dns_cache \<Rightarrow> ip_addr \<Rightarrow>
    string option \<times> ('f, 'r) dns_cache" where
  "reverse_lookup R now c ip =
     (let (found, shard) = lru_get R (dc_reverse c ! shard_ip ip) ip in
      case found of
        None \<Rightarrow> (None, c\<lparr>dc_reverse := (dc_reverse c)[shard_ip ip := shard]\<rparr>)
      | Some e \<Rightarrow>
          if re_expire_at e > now then (Some (re_domain e), c\<lparr>dc_reverse := (dc_reverse c)[shard_ip ip := shard]\<rparr>)
          else (None, c\<lparr>dc_reverse := (dc_reverse c)[shard_ip ip := snd (lru_pop R shard ip)]\<rparr>))"

definition cache_clear where
  "cache_clear F R c = c\<lparr>dc_cache := map (lru_clear F) (dc_cache c), dc_reverse := map (lru_clear R) (dc_reverse c)\<rparr>"

definition forward_len where
  "forward_len F c = sum_list (map (lru_len F) (dc_cache c))"

definition reverse_len where
  "reverse_len R c = sum_list (map (lru_len R) (dc_reverse c))"

definition pop_all :: "('c, 'k, 'v) lru_ops \<Rightarrow> ('v \<Rightarrow> bool) \<Rightarrow> 'c \<Rightarrow> 'c" where
  "pop_all L expired c = foldl (\<lambda>c k. snd (lru_pop L c k)) c (map fst (filter (\<lambda>(k, v). expired v) (lru_iter L c)))"

definition snapshot_entry :: "instant \<Rightarrow> string \<times> cache_entry \<Rightarrow> dns_snapshot_entry" where
  "snapshot_entry now = (\<lambda>(name, e).
     let latest = now;
         latest = (if v4_fresh e now \<and> expire_v4 e > latest then expire_v4 e else latest);
         latest = (if v6_fresh e now \<and> expire_v6 e > latest then expire_v6 e else latest) in
     \<lparr>ds_name = name, ds_ips = filter (\<lambda>ip. if is_ipv4 ip then v4_fresh e now else v6_fresh e now) (ce_ips e),
      ds_ttl = saturating_duration_since latest now, ds_source = ce_source e\<rparr>)"

definition cache_snapshot where
  "cache_snapshot F now c =
     (let c = c\<lparr>dc_cache := map (pop_all F (\<lambda>e. \<not> v4_fresh e now \<and> \<not> v6_fresh e now)) (dc_cache c)\<rparr> in
      (sort_key ds_name (concat (map (\<lambda>shard. map (snapshot_entry now) (lru_iter F shard)) (dc_cache c))), c))"

fun ip_order :: "ip_addr \<Rightarrow> nat" where
  "ip_order (V4 a) = unat a"
| "ip_order (V6 a) = 2 ^ 32 + unat a"

definition reverse_snapshot where
  "reverse_snapshot R now c =
     (let c = c\<lparr>dc_reverse := map (pop_all R (\<lambda>e. re_expire_at e \<le> now)) (dc_reverse c)\<rparr> in
      (sort_key (\<lambda>e. ip_order (rs_ip e)) (concat (map (\<lambda>shard. map (\<lambda>(ip, e).
         \<lparr>rs_ip = ip, rs_domain = re_domain e, rs_remaining = saturating_duration_since (re_expire_at e) now\<rparr>)
           (lru_iter R shard)) (dc_reverse c))), c))"

fun restore_reverse where
  "restore_reverse R now c [] = Some c"
| "restore_reverse R now c (e # es) =
     (if rs_remaining e = 0 then restore_reverse R now c es
      else Option.bind (instant_add now (rs_remaining e)) (\<lambda>at.
        restore_reverse R now (put_reverse R c (rs_ip e) (rs_domain e) at) es))"

end
