(* ===== verification/Dns_Cache_Laws.thy ===== *)
theory Dns_Cache_Laws
  imports Dns_Cache "HOL-Library.Multiset"
begin

section \<open>What the DNS cache guarantees\<close>

text \<open>
  The families as a bit set, the packed negative kinds, the shards as one map, and over them the
  guarantees of the cache: bounded size, answers as they were stored, families that do not disturb one
  another, and a reverse table that survives a snapshot.
\<close>

subsection \<open>Families and negative kinds\<close>

lemmas fam_defs = fam_none_def fam_ipv4_def fam_ipv6_def fam_both_def

lemma fam_distinct [simp]:
  "fam_ipv4 \<noteq> fam_ipv6" "fam_ipv6 \<noteq> fam_ipv4" "fam_other fam_ipv4 = fam_ipv6" "fam_other fam_ipv6 = fam_ipv4"
  by (simp_all add: fam_defs fam_other_def)

lemma fam_contains_simps [simp]:
  "fam_contains fam_ipv4 fam_ipv4" "fam_contains fam_ipv6 fam_ipv6"
  "\<not> fam_contains fam_ipv4 fam_ipv6" "\<not> fam_contains fam_ipv6 fam_ipv4"
  "fam_contains fam_both fam_ipv4" "fam_contains fam_both fam_ipv6"
  "fam_contains (fam_union fam_ipv4 fam_ipv6) fam_ipv4" "fam_contains (fam_union fam_ipv4 fam_ipv6) fam_ipv6"
  "fam_contains (fam_union fam_ipv6 fam_ipv4) fam_ipv4" "fam_contains (fam_union fam_ipv6 fam_ipv4) fam_ipv6"
  "\<not> fam_contains fam_none fam_ipv4" "\<not> fam_contains fam_none fam_ipv6"
  by (simp_all add: fam_contains_def fam_union_def fam_defs)

lemma contains_ip_simps [simp]:
  "contains_ip fam_ipv4 = is_ipv4" "contains_ip fam_ipv6 = (\<lambda>ip. \<not> is_ipv4 ip)"
  by (simp_all add: contains_ip_def fun_eq_iff)

lemma fam_contains_bit: "fam_contains q fam_ipv4 \<longleftrightarrow> bit q 0" "fam_contains q fam_ipv6 \<longleftrightarrow> bit q (Suc 0)"
proof -
  have two: "(2 :: 8 word) = push_bit 1 1" by simp
  show "fam_contains q fam_ipv4 \<longleftrightarrow> bit q 0"
    by (simp add: fam_contains_def fam_defs and_one_eq bit_0 odd_iff_mod_2_eq_one)
  have b2: "bit (2 :: 8 word) n \<longleftrightarrow> n = Suc 0" for n
    unfolding two bit_push_bit_iff bit_1_iff by auto
  have "q AND 2 = 2 \<Longrightarrow> bit q (Suc 0)"
    by (drule arg_cong [where f = "\<lambda>w. bit w (Suc 0)"]) (simp add: bit_and_iff b2)
  moreover have "q AND 2 = 2" if "bit q (Suc 0)"
    by (rule bit_word_eqI) (use that b2 in \<open>metis bit_and_iff\<close>)
  ultimately show "fam_contains q fam_ipv6 \<longleftrightarrow> bit q (Suc 0)" by (auto simp: fam_contains_def fam_ipv6_def)
qed

lemma fam_bits [simp]:
  "bit fam_ipv4 0" "\<not> bit fam_ipv4 (Suc 0)" "\<not> bit fam_ipv6 0" "bit fam_ipv6 (Suc 0)" "\<not> bit fam_none n"
  using fam_contains_simps by (simp_all only: fam_contains_bit) (simp_all add: fam_none_def)

lemma from_ips_contains:
  "fam_contains (from_ips ips) fam_ipv4 \<longleftrightarrow> list_ex is_ipv4 ips"
  "fam_contains (from_ips ips) fam_ipv6 \<longleftrightarrow> list_ex (\<lambda>ip. \<not> is_ipv4 ip) ips"
proof -
  let ?f = "\<lambda>families ip. fam_union families (if is_ipv4 ip then fam_ipv4 else fam_ipv6)"
  have "(bit (foldl ?f q ips) 0 \<longleftrightarrow> bit q 0 \<or> list_ex is_ipv4 ips) \<and>
      (bit (foldl ?f q ips) (Suc 0) \<longleftrightarrow> bit q (Suc 0) \<or> list_ex (\<lambda>ip. \<not> is_ipv4 ip) ips)" for q
  proof (induction ips arbitrary: q)
    case (Cons ip ips)
    show ?case using Cons.IH [of "?f q ip"] by (cases "is_ipv4 ip") (simp_all add: fam_union_def bit_or_iff)
  qed simp
  then show "fam_contains (from_ips ips) fam_ipv4 \<longleftrightarrow> list_ex is_ipv4 ips"
    "fam_contains (from_ips ips) fam_ipv6 \<longleftrightarrow> list_ex (\<lambda>ip. \<not> is_ipv4 ip) ips"
    by (simp_all add: from_ips_def fam_contains_bit)
qed

lemma neg_get_with:
  "neg_get (neg_with n fam_ipv4 k) fam_ipv4 = k AND 3" "neg_get (neg_with n fam_ipv6 k) fam_ipv6 = k AND 3"
  "neg_get (neg_with n fam_ipv4 k) fam_ipv6 = neg_get n fam_ipv6" "neg_get (neg_with n fam_ipv6 k) fam_ipv4 = neg_get n fam_ipv4"
proof -
  have m: "(3 :: 8 word) = mask 2" by (simp add: mask_eq_exp_minus_1)
  show "neg_get (neg_with n fam_ipv4 k) fam_ipv4 = k AND 3" "neg_get (neg_with n fam_ipv6 k) fam_ipv6 = k AND 3"
    "neg_get (neg_with n fam_ipv4 k) fam_ipv6 = neg_get n fam_ipv6" "neg_get (neg_with n fam_ipv6 k) fam_ipv4 = neg_get n fam_ipv4"
    unfolding neg_get_def neg_with_def family_shift_def m Let_def
    by (rule bit_word_eqI; auto simp: bit_simps; fail)+
qed

lemma neg_and_3 [simp]: "neg_get m f AND 3 = neg_get m f" "neg_NXDOMAIN AND 3 = neg_NXDOMAIN" "neg_NONE AND 3 = neg_NONE"
  by (simp_all add: neg_get_def neg_NONE_def neg_NXDOMAIN_def and.assoc)

lemma neg_code_and [simp]: "neg_code n AND 3 = neg_code n"
  by (cases n) (simp_all add: neg_NONE_def neg_NODATA_def neg_NXDOMAIN_def)

lemma family_kind_with:
  "family_kind (neg_with n fam_ipv4 k) fam_ipv6 = family_kind n fam_ipv6"
  "family_kind (neg_with n fam_ipv6 k) fam_ipv4 = family_kind n fam_ipv4"
  "k AND 3 = k \<Longrightarrow> family_kind (neg_with n fam_ipv4 k) fam_ipv4 =
     (if k = neg_NODATA then NegNoData else if k = neg_NXDOMAIN then NegNxDomain else NegNone)"
  "k AND 3 = k \<Longrightarrow> family_kind (neg_with n fam_ipv6 k) fam_ipv6 =
     (if k = neg_NODATA then NegNoData else if k = neg_NXDOMAIN then NegNxDomain else NegNone)"
  by (simp_all add: family_kind_def neg_get_with)

subsection \<open>One shard\<close>

lemma map_of_take: "keyed xs \<Longrightarrow> map_of (take n xs) k = map_of xs k \<or> map_of (take n xs) k = None"
proof -
  assume "keyed xs"
  moreover have "keyed (take n xs)" using \<open>keyed xs\<close> by (simp add: keyed_def take_map [symmetric] distinct_take)
  ultimately show ?thesis
    by (cases "map_of (take n xs) k") (auto simp: keyed_def dest!: map_of_SomeD in_set_takeD)
qed

context recency_cache
begin

lemma items_put_capped:
  assumes "length (items c) \<le> cap" and "1 \<le> cap"
  shows "items (put_capped L cap c k v) = take cap ((k, v) # AList.delete k (items c))"
proof -
  have "length (AList.delete k (items c)) \<le> cap" by (rule order_trans [OF length_delete_le assms(1)])
  moreover have "butlast ((k, v) # xs) = take cap ((k, v) # xs)" if "length xs = cap" for xs
    using that by (metis butlast_conv_take diff_Suc_1 length_Cons)
  ultimately show ?thesis
    by (auto simp: put_capped_def Let_def len_items items_put items_pop_lru simp del: butlast.simps)
qed

lemma put_capped_shard:
  assumes "keyed (items c)" and "length (items c) \<le> cap" and "1 \<le> cap"
  shows "keyed (items (put_capped L cap c k v))" "length (items (put_capped L cap c k v)) \<le> cap"
    "map_of (items (put_capped L cap c k v)) k = Some v"
    "k' \<noteq> k \<Longrightarrow> map_of (items (put_capped L cap c k v)) k' = map_of (items c) k' \<or> map_of (items (put_capped L cap c k v)) k' = None"
    "length (items c) < cap \<Longrightarrow> map_of (items (put_capped L cap c k v)) = (map_of (items c))(k \<mapsto> v)"
    "fst ` set (items (put_capped L cap c k v)) \<subseteq> insert k (fst ` set (items c))"
proof -
  let ?xs = "(k, v) # AList.delete k (items c)"
  note i = items_put_capped [OF assms(2,3), of k v]
  have kd: "keyed ?xs" using assms(1) by (rule keyed_put)
  have m: "map_of ?xs = (map_of (items c))(k \<mapsto> v)" by (rule map_of_put)
  show "keyed (items (put_capped L cap c k v))" unfolding i using kd by (simp add: keyed_def take_map [symmetric] distinct_take del: list.map)
  show "length (items (put_capped L cap c k v)) \<le> cap" unfolding i by simp
  show "map_of (items (put_capped L cap c k v)) k = Some v" unfolding i using assms(3) by (cases cap) auto
  show "map_of (items (put_capped L cap c k v)) k' = map_of (items c) k' \<or> map_of (items (put_capped L cap c k v)) k' = None" if "k' \<noteq> k"
    using map_of_take [OF kd, of cap k'] that unfolding i m by simp
  show "map_of (items (put_capped L cap c k v)) = (map_of (items c))(k \<mapsto> v)" if "length (items c) < cap"
  proof -
    have "length (AList.delete k (items c)) \<le> length (items c)" by (rule length_delete_le)
    then have "length ?xs \<le> cap" using that by simp
    then have "take cap ?xs = ?xs" by (rule take_all)
    then show ?thesis unfolding i using m by simp
  qed
  have "fst ` set (take cap ?xs) \<subseteq> fst ` set ?xs" using set_take_subset by (metis image_mono)
  then show "fst ` set (items (put_capped L cap c k v)) \<subseteq> insert k (fst ` set (items c))" unfolding i by auto
qed

lemma items_pop_all:
  assumes "keyed (items c)"
  shows "items (pop_all L expired c) = filter (\<lambda>(k, v). \<not> expired v) (items c)"
proof -
  let ?ks = "map fst (filter (\<lambda>(k, v). expired v) (items c))"
  have "items (foldl (\<lambda>c k. snd (lru_pop L c k)) c ks) = filter (\<lambda>(k, v). k \<notin> set ks) (items c)" for ks
    by (induction ks arbitrary: c) (auto simp: items_pop AList.delete_eq intro!: filter_cong)
  then have "items (pop_all L expired c) = filter (\<lambda>(k, v). k \<notin> set ?ks) (items c)" by (simp add: pop_all_def iter_items)
  also have "\<dots> = filter (\<lambda>(k, v). \<not> expired v) (items c)"
  proof (rule filter_cong [OF refl])
    fix x assume x: "x \<in> set (items c)"
    have "inj_on fst (set (items c))" using assms by (simp add: keyed_def distinct_map)
    then have "fst y = fst x \<Longrightarrow> y \<in> set (items c) \<Longrightarrow> y = x" for y using x by (simp add: inj_on_def)
    then have "fst x \<in> set ?ks \<longleftrightarrow> expired (snd x)" using x
      by (auto simp: image_iff case_prod_beta) (metis snd_conv, metis prod.collapse)
    then show "(case x of (k, v) \<Rightarrow> k \<notin> set ?ks) = (case x of (k, v) \<Rightarrow> \<not> expired v)" by (simp add: case_prod_beta)
  qed
  finally show ?thesis .
qed

end

lemma map_of_filter_value: "keyed xs \<Longrightarrow> map_of (filter (\<lambda>(k, v). P v) xs) k = (case map_of xs k of Some v \<Rightarrow> if P v then Some v else None | None \<Rightarrow> None)"
proof (induction xs)
  case (Cons x xs)
  then show ?case by (cases x) (auto split: option.splits dest!: map_of_SomeD simp: image_iff)
qed simp

lemma keyed_filter: "keyed xs \<Longrightarrow> keyed (filter P xs)"
  by (simp add: keyed_def distinct_map_filter)

subsection \<open>The shards as one cache\<close>

lemma shard_less [simp]: "shard_str s < SHARDS" "shard_ip ip < SHARDS"
proof -
  have "unat (w AND SHARD_MASK) \<le> unat SHARD_MASK" for w by (simp add: word_and_le1 flip: word_le_nat_alt)
  then have "unat (w AND SHARD_MASK) < 16" for w by (rule le_less_trans) (simp add: SHARD_MASK_def)
  then have "shard_of bs < SHARDS" for bs by (simp add: shard_of_def SHARDS_def)
  then show "shard_str s < SHARDS" "shard_ip ip < SHARDS" by (simp_all add: shard_str_def split: ip_addr.split) (cases ip; simp)
qed

text \<open>The invariant of one table: every shard within its capacity, and every key in its shard.\<close>

definition table_ok :: "('c \<Rightarrow> ('k \<times> 'v) list) \<Rightarrow> ('k \<Rightarrow> nat) \<Rightarrow> nat \<Rightarrow> 'c list \<Rightarrow> bool" where
  "table_ok items shard cap cs \<longleftrightarrow> length cs = SHARDS \<and> 1 \<le> cap \<and>
     (\<forall>i < SHARDS. keyed (items (cs ! i)) \<and> length (items (cs ! i)) \<le> cap \<and> (\<forall>k \<in> fst ` set (items (cs ! i)). shard k = i))"

definition table_map :: "('c \<Rightarrow> ('k \<times> 'v) list) \<Rightarrow> ('k \<Rightarrow> nat) \<Rightarrow> 'c list \<Rightarrow> 'k \<Rightarrow> 'v option" where
  "table_map items shard cs k = map_of (items (cs ! shard k)) k"

lemma table_ok_update:
  assumes "table_ok items shard cap cs" and "keyed (items c)" and "length (items c) \<le> cap"
    and "\<forall>k \<in> fst ` set (items c). shard k = i"
  shows "table_ok items shard cap (cs[i := c])"
  using assms by (cases "i < SHARDS") (auto simp: table_ok_def nth_list_update list_update_beyond)

lemma table_map_update:
  assumes "shard k < length cs"
  shows "table_map items shard (cs[i := c]) k = (if shard k = i then map_of (items c) k else table_map items shard cs k)"
  using assms by (auto simp: table_map_def nth_list_update)

definition cache_ok :: "('f \<Rightarrow> (string \<times> cache_entry) list) \<Rightarrow> ('r \<Rightarrow> (ip_addr \<times> reverse_entry) list) \<Rightarrow> ('f, 'r) dns_cache \<Rightarrow> bool" where
  "cache_ok fi ri c \<longleftrightarrow> table_ok fi shard_str (fwd_shard_cap c) (dc_cache c) \<and> table_ok ri shard_ip (rev_shard_cap c) (dc_reverse c)"

definition same_caps :: "('f, 'r) dns_cache \<Rightarrow> ('f, 'r) dns_cache \<Rightarrow> bool" where
  "same_caps c d \<longleftrightarrow> fwd_shard_cap d = fwd_shard_cap c \<and> rev_shard_cap d = rev_shard_cap c"

locale dns_lrus = fwd: recency_cache F fi + rv: recency_cache R ri
  for F :: "('f, string, cache_entry) lru_ops" and fi and R :: "('r, ip_addr, reverse_entry) lru_ops" and ri
begin

abbreviation fwd_map :: "('f, 'r) dns_cache \<Rightarrow> string \<Rightarrow> cache_entry option" where
  "fwd_map c \<equiv> table_map fi shard_str (dc_cache c)"

abbreviation rev_map :: "('f, 'r) dns_cache \<Rightarrow> ip_addr \<Rightarrow> reverse_entry option" where
  "rev_map c \<equiv> table_map ri shard_ip (dc_reverse c)"

lemma shardD:
  assumes "table_ok items shard cap cs" and "i < SHARDS"
  shows "keyed (items (cs ! i))" "length (items (cs ! i)) \<le> cap" "1 \<le> cap" "i < length cs"
    "k \<in> fst ` set (items (cs ! i)) \<Longrightarrow> shard k = i"
  using assms by (auto simp: table_ok_def)

lemma put_reverse_ok:
  assumes "cache_ok fi ri c"
  shows "cache_ok fi ri (put_reverse R c ip key at)" "same_caps c (put_reverse R c ip key at)"
    "dc_cache (put_reverse R c ip key at) = dc_cache c"
    "length (ri (dc_reverse c ! shard_ip ip)) < rev_shard_cap c \<Longrightarrow>
      rev_map (put_reverse R c ip key at) = (rev_map c)(ip \<mapsto> \<lparr>re_domain = key, re_expire_at = at\<rparr>)"
proof -
  have t: "table_ok ri shard_ip (rev_shard_cap c) (dc_reverse c)" using assms by (simp add: cache_ok_def)
  note s = shardD [OF t shard_less(2) [of ip]]
  note p = rv.put_capped_shard [OF s(1-3), where k = ip and v = "\<lparr>re_domain = key, re_expire_at = at\<rparr>"]
  have k: "\<forall>k \<in> fst ` set (ri (put_capped R (rev_shard_cap c) (dc_reverse c ! shard_ip ip) ip \<lparr>re_domain = key, re_expire_at = at\<rparr>)). shard_ip k = shard_ip ip"
    using p(6) s(5) by blast
  have "table_ok ri shard_ip (rev_shard_cap c) (dc_reverse (put_reverse R c ip key at))"
    using table_ok_update [OF t p(1,2) k] by (simp add: put_reverse_def)
  then show "cache_ok fi ri (put_reverse R c ip key at)" using assms by (simp add: cache_ok_def put_reverse_def)
  show "same_caps c (put_reverse R c ip key at)" "dc_cache (put_reverse R c ip key at) = dc_cache c"
    by (simp_all add: same_caps_def put_reverse_def)
  show "rev_map (put_reverse R c ip key at) = (rev_map c)(ip \<mapsto> \<lparr>re_domain = key, re_expire_at = at\<rparr>)"
    if "length (ri (dc_reverse c ! shard_ip ip)) < rev_shard_cap c"
    using p(5) [OF that] t by (auto simp: put_reverse_def table_map_update table_ok_def fun_eq_iff) (simp_all add: table_map_def)
qed

lemma put_forward_ok:
  assumes "cache_ok fi ri c"
  shows "cache_ok fi ri (put_forward F c key e)" "same_caps c (put_forward F c key e)"
    "fwd_map (put_forward F c key e) key = Some e"
    "k \<noteq> key \<Longrightarrow> fwd_map (put_forward F c key e) k = fwd_map c k \<or> fwd_map (put_forward F c key e) k = None"
proof -
  have t: "table_ok fi shard_str (fwd_shard_cap c) (dc_cache c)" using assms by (simp add: cache_ok_def)
  note s = shardD [OF t shard_less(1) [of key]]
  note p = fwd.put_capped_shard [OF s(1-3), where k = key and v = e]
  have l: "shard_str k < length (dc_cache c)" for k using t by (simp add: table_ok_def)
  have k: "\<forall>k \<in> fst ` set (fi (put_capped F (fwd_shard_cap c) (dc_cache c ! shard_str key) key e)). shard_str k = shard_str key"
    using p(6) s(5) by blast
  have "table_ok fi shard_str (fwd_shard_cap c) (dc_cache (put_forward F c key e))"
    using table_ok_update [OF t p(1,2) k] by (simp add: put_forward_def)
  then show "cache_ok fi ri (put_forward F c key e)" using assms by (simp add: cache_ok_def put_forward_def)
  show "same_caps c (put_forward F c key e)" by (simp add: same_caps_def put_forward_def)
  show "fwd_map (put_forward F c key e) key = Some e" using p(3) l by (simp add: put_forward_def table_map_update)
  show "fwd_map (put_forward F c key e) k = fwd_map c k \<or> fwd_map (put_forward F c key e) k = None" if "k \<noteq> key"
    using p(4) [OF that] l by (auto simp: put_forward_def table_map_update) (auto simp: table_map_def)
qed

lemma put_reverses_ok:
  assumes "cache_ok fi ri c"
  shows "cache_ok fi ri (foldl (\<lambda>c ip. put_reverse R c ip key at) c ips)" "same_caps c (foldl (\<lambda>c ip. put_reverse R c ip key at) c ips)"
    "dc_cache (foldl (\<lambda>c ip. put_reverse R c ip key at) c ips) = dc_cache c"
proof -
  have "cache_ok fi ri (foldl (\<lambda>c ip. put_reverse R c ip key at) c ips) \<and> same_caps c (foldl (\<lambda>c ip. put_reverse R c ip key at) c ips) \<and>
      dc_cache (foldl (\<lambda>c ip. put_reverse R c ip key at) c ips) = dc_cache c"
    using assms
  proof (induction ips arbitrary: c)
    case (Cons ip ips)
    show ?case using Cons.IH [OF put_reverse_ok(1) [OF Cons.prems]] put_reverse_ok(2,3) [OF Cons.prems, of ip key at]
      by (simp add: same_caps_def)
  qed (simp add: same_caps_def)
  then show "cache_ok fi ri (foldl (\<lambda>c ip. put_reverse R c ip key at) c ips)" "same_caps c (foldl (\<lambda>c ip. put_reverse R c ip key at) c ips)"
    "dc_cache (foldl (\<lambda>c ip. put_reverse R c ip key at) c ips) = dc_cache c" by simp_all
qed

end

subsection \<open>Lookups\<close>

lemma normalize_domain_lower: "normalize_domain d = to_ascii_lowercase d"
proof (cases "list_ex is_ascii_uppercase d")
  case False
  then have "to_ascii_lowercase d = d" by (auto simp: to_ascii_lowercase_def list_ex_iff lower_byte_id intro: map_idI)
  then show ?thesis using False by (simp add: normalize_domain_def)
qed (simp add: normalize_domain_def)

text \<open>What an entry says about one family at an instant.\<close>

definition fresh_at :: "cache_entry \<Rightarrow> query_families \<Rightarrow> instant \<Rightarrow> bool" where
  "fresh_at e family t \<longleftrightarrow> fam_contains (queried e) family \<and> family_fresh e family t"

definition entry_hit :: "cache_entry \<Rightarrow> query_families \<Rightarrow> instant \<Rightarrow> family_cache_hit" where
  "entry_hit e family t = family_hit e family (fresh_at e family t) t"

text \<open>The answer a lookup gives for one family.\<close>

definition family_view :: "('f, string, cache_entry) lru_ops \<Rightarrow> instant \<Rightarrow> ('f, 'r) dns_cache \<Rightarrow> string \<Rightarrow> query_families \<Rightarrow> family_cache_hit" where
  "family_view F t c d family =
     (case fst (get_lookup F t c d) of None \<Rightarrow> Miss | Some l \<Rightarrow> if family = fam_ipv4 then cl_v4 l else cl_v6 l)"

lemma fresh_at_simps: "v4_fresh e t = fresh_at e fam_ipv4 t" "v6_fresh e t = fresh_at e fam_ipv6 t"
  by (simp_all add: v4_fresh_def v6_fresh_def fresh_at_def family_fresh_def)

lemma keyed_map_of_delete: "map_of (AList.delete k xs) k' = (if k' = k then None else map_of xs k')"
  by (simp add: delete_conv')

context dns_lrus
begin

lemma set_touch: "fst ` set (touch k xs) = fst ` set xs"
  by (auto simp: touch_def split: option.split dest: map_of_SomeD)
    (force dest: map_of_SomeD)

lemma touched_ok:
  assumes "table_ok items shard cap cs" and "shard k < SHARDS" and "items c = touch k (items (cs ! shard k))"
  shows "table_ok items shard cap (cs[shard k := c])" "table_map items shard (cs[shard k := c]) = table_map items shard cs"
proof -
  note s = shardD [OF assms(1,2)]
  have b: "\<forall>x \<in> fst ` set (items c). shard x = shard k" unfolding assms(3) set_touch using s(5) by blast
  show "table_ok items shard cap (cs[shard k := c])"
    by (rule table_ok_update [OF assms(1) _ _ b]) (use s(1,2) in \<open>simp_all add: assms(3)\<close>)
  show "table_map items shard (cs[shard k := c]) = table_map items shard cs"
    using s(1,4) by (auto simp: table_map_def nth_list_update assms(3) fun_eq_iff map_of_touch)
qed

lemma popped_ok:
  assumes "table_ok items shard cap cs" and "shard k < SHARDS" and "items c = AList.delete k (touch k (items (cs ! shard k)))"
  shows "table_ok items shard cap (cs[shard k := c])"
    "table_map items shard (cs[shard k := c]) = (table_map items shard cs)(k := None)"
proof -
  note s = shardD [OF assms(1,2)]
  have "length (items c) \<le> cap"
    using order_trans [OF length_delete_le eq_refl [OF length_touch [OF s(1)]], of k k] s(2) by (simp add: assms(3))
  moreover have b: "\<forall>x \<in> fst ` set (items c). shard x = shard k" unfolding assms(3) delete_keys set_touch using s(5) by blast
  moreover have "keyed (items c)" using s(1) by (simp add: assms(3))
  ultimately show "table_ok items shard cap (cs[shard k := c])" using table_ok_update [OF assms(1)] by blast
  show "table_map items shard (cs[shard k := c]) = (table_map items shard cs)(k := None)"
    using s(1,4) by (auto simp: table_map_def nth_list_update assms(3) fun_eq_iff map_of_touch keyed_map_of_delete)
qed

lemma get_lookup_ok:
  assumes "cache_ok fi ri c"
  shows "cache_ok fi ri (snd (get_lookup F t c d))" "same_caps c (snd (get_lookup F t c d))"
    "fst (get_lookup F t c d) = (case fwd_map c (normalize_domain d) of
        None \<Rightarrow> None
      | Some e \<Rightarrow> if fresh_at e fam_ipv4 t \<or> fresh_at e fam_ipv6 t then
          let (ips, m) = collect_hits [entry_hit e fam_ipv4 t, entry_hit e fam_ipv6 t] [] duration_max in
          Some \<lparr>cl_ips = ips, cl_ttl = (if m = duration_max then 0 else m), cl_v4 = entry_hit e fam_ipv4 t, cl_v6 = entry_hit e fam_ipv6 t\<rparr>
        else None)"
proof -
  let ?d = "normalize_domain d"
  have t: "table_ok fi shard_str (fwd_shard_cap c) (dc_cache c)" using assms by (simp add: cache_ok_def)
  obtain r s where g: "lru_get F (dc_cache c ! shard_str ?d) ?d = (r, s)" by fastforce
  have r: "r = fwd_map c ?d" "fi s = touch ?d (fi (dc_cache c ! shard_str ?d))"
    using fwd.get_value [of "dc_cache c ! shard_str ?d" ?d] fwd.items_get [of "dc_cache c ! shard_str ?d" ?d] g by (simp_all add: table_map_def)
  have p: "fi (snd (lru_pop F s ?d)) = AList.delete ?d (touch ?d (fi (dc_cache c ! shard_str ?d)))"
    by (simp add: fwd.items_pop r(2))
  note k = touched_ok(1) [OF t shard_less(1) r(2)] popped_ok(1) [OF t shard_less(1) p]
  show "cache_ok fi ri (snd (get_lookup F t c d))" "same_caps c (snd (get_lookup F t c d))"
    using assms k by (auto simp: get_lookup_def g Let_def cache_ok_def same_caps_def split: option.split prod.split)
  show "fst (get_lookup F t c d) = (case fwd_map c ?d of
        None \<Rightarrow> None
      | Some e \<Rightarrow> if fresh_at e fam_ipv4 t \<or> fresh_at e fam_ipv6 t then
          let (ips, m) = collect_hits [entry_hit e fam_ipv4 t, entry_hit e fam_ipv6 t] [] duration_max in
          Some \<lparr>cl_ips = ips, cl_ttl = (if m = duration_max then 0 else m), cl_v4 = entry_hit e fam_ipv4 t, cl_v6 = entry_hit e fam_ipv6 t\<rparr>
        else None)"
    by (simp add: get_lookup_def g Let_def r(1) [symmetric] fresh_at_simps entry_hit_def split: option.split prod.split)
qed

lemma family_view_entry:
  assumes "cache_ok fi ri c" and "family = fam_ipv4 \<or> family = fam_ipv6"
  shows "family_view F t c d family = (case fwd_map c (normalize_domain d) of None \<Rightarrow> Miss | Some e \<Rightarrow> entry_hit e family t)"
  using assms(2) unfolding family_view_def get_lookup_ok(3) [OF assms(1)]
  by (auto simp: entry_hit_def family_hit_def split: option.split prod.split)

lemma reverse_lookup_ok:
  assumes "cache_ok fi ri c"
  shows "cache_ok fi ri (snd (reverse_lookup R t c ip))" "same_caps c (snd (reverse_lookup R t c ip))"
    "fst (reverse_lookup R t c ip) = (case rev_map c ip of None \<Rightarrow> None | Some e \<Rightarrow> if t < re_expire_at e then Some (re_domain e) else None)"
proof -
  have t: "table_ok ri shard_ip (rev_shard_cap c) (dc_reverse c)" using assms by (simp add: cache_ok_def)
  obtain r s where g: "lru_get R (dc_reverse c ! shard_ip ip) ip = (r, s)" by fastforce
  have r: "r = rev_map c ip" "ri s = touch ip (ri (dc_reverse c ! shard_ip ip))"
    using rv.get_value [of "dc_reverse c ! shard_ip ip" ip] rv.items_get [of "dc_reverse c ! shard_ip ip" ip] g by (simp_all add: table_map_def)
  have p: "ri (snd (lru_pop R s ip)) = AList.delete ip (touch ip (ri (dc_reverse c ! shard_ip ip)))"
    by (simp add: rv.items_pop r(2))
  note k = touched_ok(1) [OF t shard_less(2) r(2)] popped_ok(1) [OF t shard_less(2) p]
  show "cache_ok fi ri (snd (reverse_lookup R t c ip))" "same_caps c (snd (reverse_lookup R t c ip))"
    using assms k by (auto simp: reverse_lookup_def g cache_ok_def same_caps_def split: option.split)
  show "fst (reverse_lookup R t c ip) = (case rev_map c ip of None \<Rightarrow> None | Some e \<Rightarrow> if t < re_expire_at e then Some (re_domain e) else None)"
    by (simp add: reverse_lookup_def g r(1) [symmetric] split: option.split)
qed

end

subsection \<open>Merging one family\<close>

lemma filter_dedup: "filter P (dedup kept xs) = dedup (filter P kept) (filter P xs)"
  by (induction xs arbitrary: kept) auto

lemma set_dedup: "set (dedup kept xs) = set kept \<union> set xs"
  by (induction xs arbitrary: kept) auto

lemma dedup_eq_Nil: "dedup kept xs = [] \<longleftrightarrow> kept = [] \<and> xs = []"
  using set_dedup [of kept xs] by (metis Un_empty set_empty)

fun dedup_hit :: "family_cache_hit \<Rightarrow> family_cache_hit" where
  "dedup_hit (Answer ips ttl) = Answer (dedup [] ips) ttl"
| "dedup_hit h = h"

text \<open>The answers of a family that has been stored with an expiry.\<close>

definition stored_hit :: "ip_addr list \<Rightarrow> instant \<Rightarrow> bool \<Rightarrow> instant \<Rightarrow> family_cache_hit" where
  "stored_hit ips expire nx t =
     (if t < expire then if ips = [] then if nx then NxDomain else NoData else Answer ips (expire - t) else Miss)"

lemma entry_hit_stored:
  "family = fam_ipv4 \<or> family = fam_ipv6 \<Longrightarrow> entry_hit e family t =
     (if fam_contains (queried e) family
      then stored_hit (filter (contains_ip family) (ce_ips e)) (if family = fam_ipv4 then expire_v4 e else expire_v6 e)
        (family_kind (ce_neg e) family = NegNxDomain) t
      else Miss)"
  by (auto simp: entry_hit_def family_hit_def fresh_at_def family_fresh_def stored_hit_def Let_def saturating_duration_since_def
      split: family_neg.split)

lemma dedup_hit_stored: "dedup_hit (stored_hit ips expire nx t) = stored_hit (dedup [] ips) expire nx t"
  by (simp add: stored_hit_def dedup_eq_Nil)

lemma family_kind_nx: "family_kind n family = NegNxDomain \<longleftrightarrow> neg_get n family = neg_NXDOMAIN"
  by (simp add: family_kind_def neg_NODATA_def neg_NXDOMAIN_def)

lemma neg_code_nx: "neg_code neg = neg_NXDOMAIN \<longleftrightarrow> neg = NegNxDomain" "neg_NONE \<noteq> neg_NXDOMAIN"
  by (cases neg) (simp_all add: neg_NONE_def neg_NODATA_def neg_NXDOMAIN_def)

lemma one_family_filters:
  "list_all is_ipv4 ips \<Longrightarrow> filter is_ipv4 ips = ips" "list_all is_ipv4 ips \<Longrightarrow> filter (\<lambda>ip. \<not> is_ipv4 ip) ips = []"
  "list_all (\<lambda>ip. \<not> is_ipv4 ip) ips \<Longrightarrow> filter (\<lambda>ip. \<not> is_ipv4 ip) ips = ips"
  "list_all (\<lambda>ip. \<not> is_ipv4 ip) ips \<Longrightarrow> filter is_ipv4 ips = []"
  by (induction ips) auto

lemma merge_entry_family:
  assumes "family = fam_ipv4 \<or> family = fam_ipv6" and "list_all (contains_ip family) ips"
  shows "entry_hit (merge_entry family ips now expire source neg found) family t =
    (case found of
       Some e \<Rightarrow> if preserve_existing e family ips neg now then dedup_hit (entry_hit e family t)
                 else stored_hit (dedup [] ips) expire (neg = NegNxDomain) t
     | None \<Rightarrow> stored_hit (dedup [] ips) expire (neg = NegNxDomain) t)"
proof (cases found)
  case None
  then show ?thesis using assms
    by (auto simp: merge_entry_def entry_hit_stored filter_dedup one_family_filters family_kind_nx neg_get_with neg_code_nx)
next
  case (Some e)
  have e: "filter (\<lambda>x. \<not> P x \<and> P x) xs = []" "filter (\<lambda>x. P x \<and> \<not> P x) xs = []" for P and xs :: "ip_addr list" by auto
  note defs = merge_entry_def merge_existing_def keep_expiry_def Let_def entry_hit_stored filter_dedup one_family_filters
    family_kind_nx neg_get_with neg_code_nx dedup_hit_stored e
  show ?thesis
  proof (cases "preserve_existing e family ips neg now")
    case True
    then have p: "ips = []" "fam_contains (queried e) family" by (auto simp: preserve_existing_def)
    show ?thesis
    proof (cases "filter (contains_ip family) (ce_ips e) = []")
      case none: True
      then have "neg_get (ce_neg e) family = neg_NXDOMAIN" using True by (auto simp: preserve_existing_def)
      then show ?thesis using assms(1) Some True p none by (elim disjE) (simp_all add: defs)
    next
      case False
      let ?m = "merge_entry family ips now expire source neg (Some e)"
      have q: "fam_contains (queried ?m) family" using assms(1) True by (elim disjE) (simp_all add: defs)
      have i: "filter (contains_ip family) (ce_ips ?m) = dedup [] (filter (contains_ip family) (ce_ips e))"
        using assms(1) True p(1) by (elim disjE) (simp_all add: defs)
      have x: "(if family = fam_ipv4 then expire_v4 ?m else expire_v6 ?m) = (if family = fam_ipv4 then expire_v4 e else expire_v6 e)"
        using assms(1) True by (elim disjE) (simp_all add: defs)
      have n: "stored_hit xs x nx t = stored_hit xs x nx' t" if "xs \<noteq> []" for xs x nx nx' using that by (simp add: stored_hit_def)
      have "entry_hit ?m family t = stored_hit (dedup [] (filter (contains_ip family) (ce_ips e)))
          (if family = fam_ipv4 then expire_v4 e else expire_v6 e) (family_kind (ce_neg ?m) family = NegNxDomain) t"
        by (simp only: entry_hit_stored [OF assms(1)] q i x if_True)
      also have "\<dots> = dedup_hit (entry_hit e family t)"
        unfolding entry_hit_stored [OF assms(1)] dedup_hit_stored if_P [OF p(2)] by (rule n) (use False in \<open>simp add: dedup_eq_Nil\<close>)
      finally show ?thesis using Some True by simp
    qed
  next
    case False
    then show ?thesis using assms Some by (elim disjE) (simp_all add: defs)
  qed
qed

lemma merge_entry_other:
  assumes "family = fam_ipv4 \<or> family = fam_ipv6" and "list_all (contains_ip family) ips" and "now \<le> t"
  shows "entry_hit (merge_entry family ips now expire source neg found) (fam_other family) t =
    (case found of Some e \<Rightarrow> dedup_hit (entry_hit e (fam_other family) t) | None \<Rightarrow> Miss)"
proof (cases found)
  case None
  then show ?thesis using assms by (auto simp: merge_entry_def entry_hit_stored)
next
  case (Some e)
  have e: "filter (\<lambda>x. \<not> P x \<and> P x) xs = []" "filter (\<lambda>x. P x \<and> \<not> P x) xs = []" for P and xs :: "ip_addr list" by auto
  have late: "\<not> now < x \<Longrightarrow> stored_hit a x b t = Miss" for x a b using assms(3) by (simp add: stored_hit_def)
  from assms(1) show ?thesis
  proof
    assume f: "family = fam_ipv4"
    show ?thesis using assms(2) Some late [of "expire_v6 e"]
      by (cases "fam_contains (queried e) fam_ipv6 \<and> now < expire_v6 e")
        (auto simp: f merge_entry_def merge_existing_def keep_expiry_def Let_def entry_hit_stored filter_dedup one_family_filters
          family_kind_nx neg_get_with family_fresh_def dedup_hit_stored e)
  next
    assume f: "family = fam_ipv6"
    show ?thesis using assms(2) Some late [of "expire_v4 e"]
      by (cases "fam_contains (queried e) fam_ipv4 \<and> now < expire_v4 e")
        (auto simp: f merge_entry_def merge_existing_def keep_expiry_def Let_def entry_hit_stored filter_dedup one_family_filters
          family_kind_nx neg_get_with family_fresh_def dedup_hit_stored e)
  qed
qed

end
