(* ===== verification/Dns_Cache_Props.thy ===== *)
theory Dns_Cache_Props
  imports Dns_Cache_Laws
begin

section \<open>Histories of the DNS cache\<close>

text \<open>
  Every public operation of the cache as a step, the invariant along any history of them, and the
  statements about what a history leaves behind.
\<close>

context dns_lrus
begin

lemma put_with_source_ok:
  assumes "cache_ok fi ri c" and "put_with_source F R now c d ips ttl source = Some c'"
  shows "cache_ok fi ri c'" "same_caps c c'"
    "\<exists>neg. fwd_map c' (normalize_domain d) = Some \<lparr>ce_ips = ips, expire_v4 = now + ttl, expire_v6 = now + ttl, ce_source = source,
      queried = (if ips = [] then fam_both else from_ips ips), ce_neg = neg\<rparr> \<and>
      (ips = [] \<longrightarrow> neg_get neg fam_ipv4 = neg_NXDOMAIN \<and> neg_get neg fam_ipv6 = neg_NXDOMAIN)"
    "now + ttl \<le> instant_max"
proof -
  let ?neg = "if ips = [] then neg_with (neg_with neg_empty fam_ipv4 neg_NXDOMAIN) fam_ipv6 neg_NXDOMAIN else neg_empty"
  let ?e = "\<lparr>ce_ips = ips, expire_v4 = now + ttl, expire_v6 = now + ttl, ce_source = source,
      queried = (if ips = [] then fam_both else from_ips ips), ce_neg = ?neg\<rparr>"
  obtain at where c': "c' = put_forward F (foldl (\<lambda>c ip. put_reverse R c ip (normalize_domain d) at) c ips) (normalize_domain d) ?e"
    and l: "now + ttl \<le> instant_max"
    using assms(2) by (auto simp: put_with_source_def put_replacing_def instant_add_def Let_def split: if_splits)
  note r = put_reverses_ok [OF assms(1), of "normalize_domain d" at ips]
  note p = put_forward_ok [OF r(1)]
  show "cache_ok fi ri c'" "same_caps c c'" using p(1,2) r(2) unfolding c' by (simp_all add: same_caps_def)
  have "fwd_map c' (normalize_domain d) = Some ?e" unfolding c' by (rule p(3))
  then show "\<exists>neg. fwd_map c' (normalize_domain d) = Some \<lparr>ce_ips = ips, expire_v4 = now + ttl, expire_v6 = now + ttl, ce_source = source,
      queried = (if ips = [] then fam_both else from_ips ips), ce_neg = neg\<rparr> \<and>
      (ips = [] \<longrightarrow> neg_get neg fam_ipv4 = neg_NXDOMAIN \<and> neg_get neg fam_ipv6 = neg_NXDOMAIN)"
    by (intro exI [of _ ?neg]) (simp add: neg_get_with)
  show "now + ttl \<le> instant_max" by (rule l)
qed

lemma merge_family_ok:
  assumes "cache_ok fi ri c" and "merge_family F R now c d family ips ttl source neg = Some c'"
  shows "cache_ok fi ri c'" "same_caps c c'"
    "family = fam_ipv4 \<or> family = fam_ipv6 \<Longrightarrow> fwd_map c' (normalize_domain d) =
      Some (merge_entry family ips now (now + ttl) source neg (fwd_map c (normalize_domain d)))"
    "k \<noteq> normalize_domain d \<Longrightarrow> fwd_map c' k = fwd_map c k \<or> fwd_map c' k = None"
proof -
  let ?d = "normalize_domain d"
  have all: "cache_ok fi ri c' \<and> same_caps c c' \<and>
    fwd_map c' ?d = Some (merge_entry family ips now (now + ttl) source neg (fwd_map c ?d)) \<and>
    (\<forall>k. k \<noteq> ?d \<longrightarrow> fwd_map c' k = fwd_map c k \<or> fwd_map c' k = None)" if f: "family = fam_ipv4 \<or> family = fam_ipv6"
  proof -
    obtain at where at: "instant_add now (max ttl REVERSE_TTL_FLOOR) = Some at" "instant_add now ttl = Some (now + ttl)"
      using assms(2) f by (auto simp: merge_family_def instant_add_def split: if_splits)
    define c1 where "c1 = foldl (\<lambda>c ip. put_reverse R c ip ?d at) c ips"
    note r = put_reverses_ok [OF assms(1), of ?d at ips, folded c1_def]
    obtain found s where g: "lru_get F (dc_cache c1 ! shard_str ?d) ?d = (found, s)" by fastforce
    have k: "found = fwd_map c ?d" "fi s = touch ?d (fi (dc_cache c1 ! shard_str ?d))"
      using fwd.get_value [of "dc_cache c1 ! shard_str ?d" ?d] fwd.items_get [of "dc_cache c1 ! shard_str ?d" ?d] g r(3)
      by (simp_all add: table_map_def)
    define c2 where "c2 = c1\<lparr>dc_cache := (dc_cache c1)[shard_str ?d := s]\<rparr>"
    have t: "table_ok fi shard_str (fwd_shard_cap c1) (dc_cache c1)" using r(1) by (simp add: cache_ok_def)
    have c2: "cache_ok fi ri c2" "same_caps c c2" "fwd_map c2 = fwd_map c"
      using touched_ok [OF t shard_less(1) k(2)] r by (simp_all add: c2_def cache_ok_def same_caps_def)
    have c': "c' = put_forward F c2 ?d (merge_entry family ips now (now + ttl) source neg found)"
      using assms(2) f at g by (auto simp: merge_family_def Let_def c1_def c2_def)
    note p = put_forward_ok [OF c2(1), where key = ?d and e = "merge_entry family ips now (now + ttl) source neg found"]
    show ?thesis using p c2(2,3) unfolding c' k(1) by (simp add: same_caps_def)
  qed
  have "c' = c" if "\<not> (family = fam_ipv4 \<or> family = fam_ipv6)" using assms(2) that by (simp add: merge_family_def)
  then have o: "cache_ok fi ri c' \<and> same_caps c c' \<and> (\<forall>k. k \<noteq> ?d \<longrightarrow> fwd_map c' k = fwd_map c k \<or> fwd_map c' k = None)"
    using all assms(1) by (cases "family = fam_ipv4 \<or> family = fam_ipv6") (simp_all add: same_caps_def)
  show "cache_ok fi ri c'" "same_caps c c'" using o by simp_all
  show "fwd_map c' k = fwd_map c k \<or> fwd_map c' k = None" if "k \<noteq> ?d" using o that by simp
  show "fwd_map c' ?d = Some (merge_entry family ips now (now + ttl) source neg (fwd_map c ?d))" if "family = fam_ipv4 \<or> family = fam_ipv6"
    using all that by simp
qed

lemma restore_reverse_ok:
  "cache_ok fi ri c \<Longrightarrow> restore_reverse R now c es = Some c' \<Longrightarrow> cache_ok fi ri c' \<and> same_caps c c'"
proof (induction es arbitrary: c)
  case (Cons e es)
  show ?case
  proof (cases "rs_remaining e = 0")
    case False
    then obtain at where "restore_reverse R now (put_reverse R c (rs_ip e) (rs_domain e) at) es = Some c'"
      using Cons.prems(2) by (auto simp: bind_eq_Some_conv)
    then show ?thesis using Cons.IH put_reverse_ok(1,2) [OF Cons.prems(1)] by (fastforce simp: same_caps_def)
  qed (use Cons in simp)
qed (simp add: same_caps_def)

lemma filtered_table:
  assumes "table_ok items shard cap cs" and "length cs' = length cs"
    and "\<And>i. i < SHARDS \<Longrightarrow> items (cs' ! i) = filter P (items (cs ! i))"
  shows "table_ok items shard cap cs'"
proof -
  have "keyed (filter P xs)" if "keyed xs" for xs using that by (rule keyed_filter)
  then show ?thesis using assms by (auto simp: table_ok_def intro: le_trans [OF length_filter_le])
qed

lemma snapshot_ok:
  assumes "cache_ok fi ri c"
  shows "cache_ok fi ri (snd (cache_snapshot F now c)) \<and> same_caps c (snd (cache_snapshot F now c))"
proof -
  have t: "table_ok fi shard_str (fwd_shard_cap c) (dc_cache c)" using assms by (simp add: cache_ok_def)
  have "table_ok fi shard_str (fwd_shard_cap c) (map (pop_all F expired) (dc_cache c))" for expired
    by (rule filtered_table [OF t, where P = "\<lambda>(k, v). \<not> expired v"]) (use t in \<open>simp_all add: table_ok_def fwd.items_pop_all\<close>)
  then show ?thesis using assms by (simp add: cache_snapshot_def Let_def cache_ok_def same_caps_def)
qed

lemma reverse_snapshot_ok:
  assumes "cache_ok fi ri c"
  shows "cache_ok fi ri (snd (reverse_snapshot R now c)) \<and> same_caps c (snd (reverse_snapshot R now c))"
proof -
  have t: "table_ok ri shard_ip (rev_shard_cap c) (dc_reverse c)" using assms by (simp add: cache_ok_def)
  have "table_ok ri shard_ip (rev_shard_cap c) (map (pop_all R expired) (dc_reverse c))" for expired
    by (rule filtered_table [OF t, where P = "\<lambda>(k, v). \<not> expired v"]) (use t in \<open>simp_all add: table_ok_def rv.items_pop_all\<close>)
  then show ?thesis using assms by (simp add: reverse_snapshot_def Let_def cache_ok_def same_caps_def)
qed

lemma clear_ok: "cache_ok fi ri c \<Longrightarrow> cache_ok fi ri (cache_clear F R c) \<and> same_caps c (cache_clear F R c)"
  by (simp add: cache_clear_def cache_ok_def same_caps_def table_ok_def fwd.items_clear rv.items_clear)

lemma new_ok: "cache_ok fi ri (cache_new F R capacity)"
  by (simp add: cache_new_def cache_ok_def table_ok_def per_shard_cap_def SHARDS_def fwd.items_empty rv.items_empty le_max_iff_disj)

end

subsection \<open>Histories\<close>

datatype cache_op =
    GetOp instant string
  | PutOp instant string "ip_addr list" duration "string option"
  | MergeOp instant string query_families "ip_addr list" duration "string option" family_neg
  | ReverseOp instant ip_addr
  | ClearOp
  | SnapshotOp instant
  | ReverseSnapshotOp instant
  | RestoreOp instant "reverse_snapshot_entry list"

fun cache_step where
  "cache_step F R c (GetOp now d) = Some (snd (get_lookup F now c d))"
| "cache_step F R c (PutOp now d ips ttl source) = put_with_source F R now c d ips ttl source"
| "cache_step F R c (MergeOp now d family ips ttl source neg) = merge_family F R now c d family ips ttl source neg"
| "cache_step F R c (ReverseOp now ip) = Some (snd (reverse_lookup R now c ip))"
| "cache_step F R c ClearOp = Some (cache_clear F R c)"
| "cache_step F R c (SnapshotOp now) = Some (snd (cache_snapshot F now c))"
| "cache_step F R c (ReverseSnapshotOp now) = Some (snd (reverse_snapshot R now c))"
| "cache_step F R c (RestoreOp now es) = restore_reverse R now c es"

fun cache_run where
  "cache_run F R c [] = Some c"
| "cache_run F R c (x # xs) = Option.bind (cache_step F R c x) (\<lambda>c. cache_run F R c xs)"

context dns_lrus
begin

lemma step_ok:
  assumes "cache_ok fi ri c" and "cache_step F R c x = Some c'"
  shows "cache_ok fi ri c' \<and> same_caps c c'"
proof (cases x)
  case (GetOp now d)
  then show ?thesis using assms(2) get_lookup_ok(1,2) [OF assms(1)] by auto
next
  case (PutOp now d ips ttl source)
  then show ?thesis using assms(2) put_with_source_ok(1,2) [OF assms(1)] by auto
next
  case (MergeOp now d family ips ttl source neg)
  then show ?thesis using assms(2) merge_family_ok(1,2) [OF assms(1)] by auto
next
  case (ReverseOp now ip)
  then show ?thesis using assms(2) reverse_lookup_ok(1,2) [OF assms(1)] by auto
next
  case (RestoreOp now es)
  then show ?thesis using assms(2) restore_reverse_ok [OF assms(1)] by auto
qed (use assms clear_ok snapshot_ok reverse_snapshot_ok in auto)

lemma run_caps: "cache_ok fi ri c \<Longrightarrow> cache_run F R c xs = Some c' \<Longrightarrow> cache_ok fi ri c' \<and> same_caps c c'"
proof (induction xs arbitrary: c)
  case (Cons x xs)
  then obtain c1 where c1: "cache_step F R c x = Some c1" "cache_run F R c1 xs = Some c'" by (auto simp: bind_eq_Some_conv)
  then show ?case using Cons.IH step_ok [OF Cons.prems(1) c1(1)] by (fastforce simp: same_caps_def)
qed (simp add: same_caps_def)

lemmas history_ok = run_caps [OF new_ok]

end

lemma sum_list_bounded: "list_all (\<lambda>x. f x \<le> (n :: nat)) xs \<Longrightarrow> sum_list (map f xs) \<le> length xs * n"
  by (induction xs) auto

text \<open>
  C39. The cache is bounded: after any history of operations the forward table has at most as many
  entries as the configured capacity, or 128 when that is smaller, and the reverse table at most four
  times the capacity, or 256.
\<close>

theorem cache_bounded:
  assumes "recency_cache F fi" and "recency_cache R ri" and "cache_run F R (cache_new F R capacity) xs = Some c"
  shows "forward_len F c \<le> max capacity 128 \<and> reverse_len R c \<le> max (4 * capacity) 256"
proof -
  have two: "dns_lrus F fi R ri" using assms(1,2) by (simp add: dns_lrus_def)
  have ok: "cache_ok fi ri c" "same_caps (cache_new F R capacity) c" using dns_lrus.history_ok [OF two assms(3)] by simp_all
  then have t: "table_ok fi shard_str (fwd_shard_cap c) (dc_cache c)" "table_ok ri shard_ip (rev_shard_cap c) (dc_reverse c)"
    by (simp_all add: cache_ok_def)
  have caps: "16 * fwd_shard_cap c \<le> max capacity 128" "16 * rev_shard_cap c \<le> max (4 * capacity) 256"
    using ok(2) by (auto simp: same_caps_def cache_new_def per_shard_cap_def SHARDS_def REVERSE_CAP_MULTIPLIER_def max_def min_def)
  have "forward_len F c \<le> 16 * fwd_shard_cap c"
    using sum_list_bounded [of "lru_len F" "fwd_shard_cap c" "dc_cache c"] t(1)
    by (simp add: forward_len_def table_ok_def SHARDS_def recency_cache.len_items [OF assms(1)] list_all_length)
  moreover have "reverse_len R c \<le> 16 * rev_shard_cap c"
    using sum_list_bounded [of "lru_len R" "rev_shard_cap c" "dc_reverse c"] t(2)
    by (simp add: reverse_len_def table_ok_def SHARDS_def recency_cache.len_items [OF assms(2)] list_all_length)
  ultimately show ?thesis using caps by linarith
qed

text \<open>
  C38. A stored answer is served as stored, under any spelling of the name, until it expires: the
  addresses with the version 4 ones first, the time that is left as their lifetime, and nothing from
  the instant of expiry on. A name stored without addresses is served as non-existent for both
  families.
\<close>

theorem stored_answer_served:
  assumes "recency_cache F fi" and "recency_cache R ri" and "cache_run F R (cache_new F R capacity) xs = Some c0"
    and "put_with_source F R now c0 d ips ttl source = Some c" and "to_ascii_lowercase d' = to_ascii_lowercase d"
  shows "fst (get_with_ttl F t c d') = (if t < now + ttl
      then Some (filter is_ipv4 ips @ filter (\<lambda>ip. \<not> is_ipv4 ip) ips, if ips = [] then 0 else now + ttl - t) else None) \<and>
    (ips = [] \<longrightarrow> t < now + ttl \<longrightarrow> family_view F t c d' fam_ipv4 = NxDomain \<and> family_view F t c d' fam_ipv6 = NxDomain)"
proof -
  have two: "dns_lrus F fi R ri" using assms(1,2) by (simp add: dns_lrus_def)
  have ok: "cache_ok fi ri c0" using dns_lrus.history_ok [OF two assms(3)] by simp
  note p = dns_lrus.put_with_source_ok [OF two ok assms(4)]
  obtain neg where x: "table_map fi shard_str (dc_cache c) (normalize_domain d') = Some \<lparr>ce_ips = ips, expire_v4 = now + ttl,
      expire_v6 = now + ttl, ce_source = source, queried = (if ips = [] then fam_both else from_ips ips), ce_neg = neg\<rparr>"
    "ips = [] \<longrightarrow> neg_get neg fam_ipv4 = neg_NXDOMAIN \<and> neg_get neg fam_ipv6 = neg_NXDOMAIN"
    using p(3) assms(5) by (auto simp: normalize_domain_lower)
  define e where e_def: "e = \<lparr>ce_ips = ips, expire_v4 = now + ttl, expire_v6 = now + ttl, ce_source = source,
      queried = (if ips = [] then fam_both else from_ips ips), ce_neg = neg\<rparr>"
  have d: "now + ttl - t < duration_max" using p(4) by (simp add: instant_max_def duration_max_def secs_def)
  have q: "fam_contains (queried e) fam_ipv4 \<longleftrightarrow> ips = [] \<or> filter is_ipv4 ips \<noteq> []"
    "fam_contains (queried e) fam_ipv6 \<longleftrightarrow> ips = [] \<or> filter (\<lambda>ip. \<not> is_ipv4 ip) ips \<noteq> []"
    by (auto simp: e_def from_ips_contains list_ex_iff filter_empty_conv)
  have h: "entry_hit e fam_ipv4 t = (if ips = [] \<or> filter is_ipv4 ips \<noteq> [] then stored_hit (filter is_ipv4 ips) (now + ttl) (ips = []) t else Miss)"
    "entry_hit e fam_ipv6 t = (if ips = [] \<or> filter (\<lambda>ip. \<not> is_ipv4 ip) ips \<noteq> [] then stored_hit (filter (\<lambda>ip. \<not> is_ipv4 ip) ips) (now + ttl) (ips = []) t else Miss)"
    using q x(2) by (auto simp: e_def entry_hit_stored family_kind_nx stored_hit_def)
  have f: "fresh_at e fam_ipv4 t \<or> fresh_at e fam_ipv6 t \<longleftrightarrow> t < now + ttl"
    using q by (auto simp: fresh_at_def family_fresh_def filter_empty_conv e_def)
  have g: "fst (get_lookup F t c d') = (if t < now + ttl then
      let (is, m) = collect_hits [entry_hit e fam_ipv4 t, entry_hit e fam_ipv6 t] [] duration_max in
      Some \<lparr>cl_ips = is, cl_ttl = (if m = duration_max then 0 else m), cl_v4 = entry_hit e fam_ipv4 t, cl_v6 = entry_hit e fam_ipv6 t\<rparr> else None)"
    unfolding dns_lrus.get_lookup_ok(3) [OF two p(1)] x(1) option.case e_def [symmetric] f ..
  have "fst (get_with_ttl F t c d') = (if t < now + ttl
      then Some (filter is_ipv4 ips @ filter (\<lambda>ip. \<not> is_ipv4 ip) ips, if ips = [] then 0 else now + ttl - t) else None)"
  proof (cases "t < now + ttl \<and> ips \<noteq> []")
    case True
    then have "filter is_ipv4 ips \<noteq> [] \<or> filter (\<lambda>ip. \<not> is_ipv4 ip) ips \<noteq> []" by (auto simp: filter_empty_conv) (metis hd_in_set)
    then show ?thesis using True d by (auto simp: get_with_ttl_def g h stored_hit_def)
  qed (auto simp: get_with_ttl_def g h stored_hit_def)
  then show ?thesis
    using h unfolding dns_lrus.family_view_entry [OF two p(1) disjI1 [OF refl]] dns_lrus.family_view_entry [OF two p(1) disjI2 [OF refl]] x(1) option.case e_def [symmetric]
    by (auto simp: stored_hit_def)
qed

text \<open>
  C36. Merging the answer for one family changes the answers for that family alone. The other family
  is answered at every later instant as before, with repeated addresses dropped; a name that is not
  the merged one is answered as before or has been evicted. The merged family is answered with what was
  merged, except that an empty answer without data never displaces addresses or a non-existent name
  that are still fresh.
\<close>

theorem merge_family_exact:
  assumes "recency_cache F fi" and "recency_cache R ri" and "cache_run F R (cache_new F R capacity) xs = Some c0"
    and "merge_family F R now c0 d family ips ttl source neg = Some c"
    and "family = fam_ipv4 \<or> family = fam_ipv6" and "list_all (contains_ip family) ips" and "now \<le> t"
  shows "family_view F t c d family =
      (if neg = NegNoData \<and> ips = [] \<and> family_view F now c0 d family \<noteq> NoData \<and> family_view F now c0 d family \<noteq> Miss
       then dedup_hit (family_view F t c0 d family) else stored_hit (dedup [] ips) (now + ttl) (neg = NegNxDomain) t) \<and>
    family_view F t c d (fam_other family) = dedup_hit (family_view F t c0 d (fam_other family)) \<and>
    (to_ascii_lowercase d' \<noteq> to_ascii_lowercase d \<longrightarrow> family_view F t c d' f = family_view F t c0 d' f \<or> family_view F t c d' f = Miss)"
proof -
  have two: "dns_lrus F fi R ri" using assms(1,2) by (simp add: dns_lrus_def)
  have ok: "cache_ok fi ri c0" using dns_lrus.history_ok [OF two assms(3)] by simp
  note m = dns_lrus.merge_family_ok [OF two ok assms(4)]
  let ?d = "normalize_domain d" and ?o = "fam_other family"
  have o: "?o = fam_ipv4 \<or> ?o = fam_ipv6" using assms(5) by auto
  note v0 = dns_lrus.family_view_entry [OF two ok]
  note v = dns_lrus.family_view_entry [OF two m(1)]
  have keep: "preserve_existing e family ips neg now \<longleftrightarrow> neg = NegNoData \<and> ips = [] \<and> entry_hit e family now \<noteq> NoData \<and> entry_hit e family now \<noteq> Miss" for e
    using assms(5) by (auto simp: preserve_existing_def entry_hit_def family_hit_def fresh_at_def Let_def family_kind_nx split: family_neg.split)
      (auto simp: family_kind_def neg_NODATA_def neg_NXDOMAIN_def split: if_splits)
  have "family_view F t c d family =
      (if neg = NegNoData \<and> ips = [] \<and> family_view F now c0 d family \<noteq> NoData \<and> family_view F now c0 d family \<noteq> Miss
       then dedup_hit (family_view F t c0 d family) else stored_hit (dedup [] ips) (now + ttl) (neg = NegNxDomain) t)"
    unfolding v [OF assms(5)] v0 [OF assms(5)] m(3) [OF assms(5)] option.case merge_entry_family [OF assms(5,6)] keep
    by (simp split: option.split)
  moreover have "family_view F t c d ?o = dedup_hit (family_view F t c0 d ?o)"
    unfolding v [OF o] v0 [OF o] m(3) [OF assms(5)] option.case merge_entry_other [OF assms(5,6,7)] by (simp split: option.split)
  moreover have "family_view F t c d' f = family_view F t c0 d' f \<or> family_view F t c d' f = Miss"
    if "to_ascii_lowercase d' \<noteq> to_ascii_lowercase d"
  proof -
    have "normalize_domain d' \<noteq> ?d" using that by (simp add: normalize_domain_lower)
    from m(4) [OF this] show ?thesis
      by (auto simp: family_view_def dns_lrus.get_lookup_ok(3) [OF two ok] dns_lrus.get_lookup_ok(3) [OF two m(1)])
  qed
  ultimately show ?thesis by blast
qed

subsection \<open>The reverse table across a restart\<close>

lemma distinct_tagged:
  assumes "\<And>i. i < n \<Longrightarrow> distinct (h i)" and "\<And>i x. i < n \<Longrightarrow> x \<in> set (h i) \<Longrightarrow> tag x = i"
  shows "distinct (concat (map h [0..<n]))"
  using assms
proof (induction n)
  case (Suc n)
  have "tag x < n" if "x \<in> set (concat (map h [0..<n]))" for x
  proof -
    from that obtain i where "i < n" "x \<in> set (h i)" by auto
    then show ?thesis using Suc.prems(2) [of i x] by simp
  qed
  moreover have "tag x = n" if "x \<in> set (h n)" for x using that Suc.prems(2) by simp
  ultimately show ?case using Suc by (fastforce simp: less_Suc_eq)
qed simp

lemma filter_tagged:
  assumes "\<And>i x. i < n \<Longrightarrow> x \<in> set (h i) \<Longrightarrow> tag x = i"
  shows "filter (\<lambda>x. tag x = i) (concat (map h [0..<n])) = (if i < n then h i else [])"
  using assms
proof (induction n)
  case (Suc n)
  have "filter (\<lambda>x. tag x = i) (h n) = (if i = n then h n else [])"
    using Suc.prems [of n] by (auto simp: filter_id_conv filter_empty_conv)
  then show ?case using Suc by auto
qed simp

context dns_lrus
begin

lemma put_reverse_length:
  assumes "cache_ok fi ri c"
  shows "length (ri (dc_reverse (put_reverse R c ip key at) ! i)) \<le> length (ri (dc_reverse c ! i)) + (if shard_ip ip = i then 1 else 0)"
proof -
  have t: "table_ok ri shard_ip (rev_shard_cap c) (dc_reverse c)" using assms by (simp add: cache_ok_def)
  note s = shardD [OF t shard_less(2) [of ip]]
  have "length (ri (put_capped R (rev_shard_cap c) (dc_reverse c ! shard_ip ip) ip v)) \<le> Suc (length (ri (dc_reverse c ! shard_ip ip)))" for v
    unfolding rv.items_put_capped [OF s(2,3)] using length_delete_le [of ip "ri (dc_reverse c ! shard_ip ip)"] by (simp add: min_def)
  then show ?thesis using s(4) by (cases "shard_ip ip = i") (auto simp: put_reverse_def nth_list_update)
qed

lemma restore_map:
  assumes "cache_ok fi ri c" and "distinct (map rs_ip es)" and "list_all (\<lambda>e. rs_remaining e > 0) es"
    and "\<And>i. i < SHARDS \<Longrightarrow> length (ri (dc_reverse c ! i)) + length (filter (\<lambda>e. shard_ip (rs_ip e) = i) es) \<le> rev_shard_cap c"
    and "restore_reverse R now c es = Some c'"
  shows "rev_map c' ip = (case map_of (map (\<lambda>e. (rs_ip e, e)) es) ip of
      Some e \<Rightarrow> Some \<lparr>re_domain = rs_domain e, re_expire_at = now + rs_remaining e\<rparr> | None \<Rightarrow> rev_map c ip)"
  using assms
proof (induction es arbitrary: c)
  case (Cons e es)
  define c1 where "c1 = put_reverse R c (rs_ip e) (rs_domain e) (now + rs_remaining e)"
  have r: "restore_reverse R now c1 es = Some c'"
    using Cons.prems(3,5) by (auto simp: bind_eq_Some_conv instant_add_def c1_def split: if_splits)
  note p = put_reverse_ok [OF Cons.prems(1), of "rs_ip e" "rs_domain e" "now + rs_remaining e", folded c1_def]
  have room: "length (ri (dc_reverse c1 ! i)) + length (filter (\<lambda>e. shard_ip (rs_ip e) = i) es) \<le> rev_shard_cap c1" if "i < SHARDS" for i
    using put_reverse_length [OF Cons.prems(1), of "rs_ip e" "rs_domain e" "now + rs_remaining e" i, folded c1_def] Cons.prems(4) [OF that] p(2)
    by (auto simp: same_caps_def split: if_splits)
  have "length (ri (dc_reverse c ! shard_ip (rs_ip e))) < rev_shard_cap c" using Cons.prems(4) [of "shard_ip (rs_ip e)"] by simp
  note m = p(4) [OF this]
  have "map_of (map (\<lambda>e. (rs_ip e, e)) es) (rs_ip e) = None" using Cons.prems(2) by (simp add: map_of_eq_None_iff image_image)
  then show ?case using Cons.IH [OF p(1) _ _ room r] Cons.prems(2,3) m by (auto split: option.split)
qed simp

lemma reverse_snapshot_map:
  assumes "cache_ok fi ri c" and "reverse_snapshot R now c = (es, c1)"
  shows "distinct (map rs_ip es)" "list_all (\<lambda>e. rs_remaining e > 0) es"
    "i < SHARDS \<Longrightarrow> length (filter (\<lambda>e. shard_ip (rs_ip e) = i) es) \<le> rev_shard_cap c"
    "map_of (map (\<lambda>e. (rs_ip e, e)) es) ip = (case rev_map c ip of
       Some v \<Rightarrow> if now < re_expire_at v then Some \<lparr>rs_ip = ip, rs_domain = re_domain v, rs_remaining = re_expire_at v - now\<rparr> else None
     | None \<Rightarrow> None)"
proof -
  let ?mk = "\<lambda>(ip, e). \<lparr>rs_ip = ip, rs_domain = re_domain e, rs_remaining = saturating_duration_since (re_expire_at e) now\<rparr>"
  let ?live = "\<lambda>i. filter (\<lambda>(k, v). \<not> re_expire_at v \<le> now) (ri (dc_reverse c ! i))"
  have t: "table_ok ri shard_ip (rev_shard_cap c) (dc_reverse c)" using assms(1) by (simp add: cache_ok_def)
  note s = shardD [OF t]
  have len: "length (dc_reverse c) = SHARDS" using t by (simp add: table_ok_def)
  define h where "h = (\<lambda>i. map ?mk (?live i))"
  have "map (\<lambda>shard. map ?mk (lru_iter R shard)) (map (pop_all R (\<lambda>e. re_expire_at e \<le> now)) (dc_reverse c)) = map h [0..<SHARDS]"
    by (rule nth_equalityI) (use len s(1) in \<open>simp_all add: h_def rv.iter_items rv.items_pop_all\<close>)
  then have es: "es = sort_key (\<lambda>e. ip_order (rs_ip e)) (concat (map h [0..<SHARDS]))"
    using assms(2) by (simp add: reverse_snapshot_def Let_def comp_def)
  have tag: "shard_ip (rs_ip e) = i" if "i < SHARDS" "e \<in> set (h i)" for i e
    using that(2) s(5) [OF that(1)] by (force simp: h_def)
  have ip: "map rs_ip (h i) = map fst (?live i)" for i by (simp add: h_def comp_def case_prod_beta)
  have "mset (map rs_ip es) = mset (map rs_ip (concat (map h [0..<SHARDS])))" by (simp only: es mset_map mset_sort)
  also have "map rs_ip (concat (map h [0..<SHARDS])) = concat (map (\<lambda>i. map rs_ip (h i)) [0..<SHARDS])"
    by (simp add: map_concat comp_def)
  finally have "mset (map rs_ip es) = mset (concat (map (\<lambda>i. map rs_ip (h i)) [0..<SHARDS]))" .
  moreover have "distinct (concat (map (\<lambda>i. map rs_ip (h i)) [0..<SHARDS]))"
  proof (rule distinct_tagged [where tag = shard_ip])
    show "distinct (map rs_ip (h i))" if "i < SHARDS" for i using keyed_filter [OF s(1) [OF that]] unfolding ip by (simp add: keyed_def)
    show "shard_ip x = i" if "i < SHARDS" "x \<in> set (map rs_ip (h i))" for i x using that tag by auto
  qed
  ultimately show d: "distinct (map rs_ip es)" by (metis mset_eq_imp_distinct_iff)
  have mem: "e \<in> set es \<longleftrightarrow> (\<exists>i < SHARDS. e \<in> set (h i))" for e by (auto simp: es)
  show "list_all (\<lambda>e. rs_remaining e > 0) es"
    by (auto simp: list_all_iff mem h_def saturating_duration_since_def)
  show "length (filter (\<lambda>e. shard_ip (rs_ip e) = i) es) \<le> rev_shard_cap c" if "i < SHARDS" for i
  proof -
    have "length (filter (\<lambda>e. shard_ip (rs_ip e) = i) es) = length (filter (\<lambda>e. shard_ip (rs_ip e) = i) (concat (map h [0..<SHARDS])))"
      unfolding es by (metis mset_filter mset_sort size_mset)
    also have "\<dots> = length (h i)" using filter_tagged [of SHARDS h "\<lambda>e. shard_ip (rs_ip e)" i] tag that by simp
    also have "\<dots> \<le> rev_shard_cap c" using order_trans [OF length_filter_le s(2) [OF that]] by (simp add: h_def)
    finally show ?thesis .
  qed
  have k: "distinct (map fst (map (\<lambda>e. (rs_ip e, e)) es))" using d by (simp add: comp_def)
  have "map_of (map (\<lambda>e. (rs_ip e, e)) es) ip = Some e \<longleftrightarrow>
      (\<exists>v. rev_map c ip = Some v \<and> now < re_expire_at v \<and> e = \<lparr>rs_ip = ip, rs_domain = re_domain v, rs_remaining = re_expire_at v - now\<rparr>)" for e
  proof -
    have "map_of (map (\<lambda>e. (rs_ip e, e)) es) ip = Some e \<longleftrightarrow> e \<in> set es \<and> rs_ip e = ip"
      unfolding map_of_eq_Some_iff [OF k] by auto
    also have "\<dots> \<longleftrightarrow> e \<in> set (h (shard_ip ip)) \<and> rs_ip e = ip" unfolding mem using tag shard_less(2) by blast
    also have "\<dots> \<longleftrightarrow> (\<exists>v. (ip, v) \<in> set (?live (shard_ip ip)) \<and> e = ?mk (ip, v))" by (auto simp: h_def)
    also have "\<dots> \<longleftrightarrow> (\<exists>v. rev_map c ip = Some v \<and> now < re_expire_at v \<and> e = \<lparr>rs_ip = ip, rs_domain = re_domain v, rs_remaining = re_expire_at v - now\<rparr>)"
      using s(1) [OF shard_less(2) [of ip]] by (auto simp: table_map_def keyed_def saturating_duration_since_def)
    finally show ?thesis .
  qed
  then show "map_of (map (\<lambda>e. (rs_ip e, e)) es) ip = (case rev_map c ip of
       Some v \<Rightarrow> if now < re_expire_at v then Some \<lparr>rs_ip = ip, rs_domain = re_domain v, rs_remaining = re_expire_at v - now\<rparr> else None
     | None \<Rightarrow> None)"
    by (cases "map_of (map (\<lambda>e. (rs_ip e, e)) es) ip"; cases "rev_map c ip") (simp_all, blast+)
qed

end

text \<open>
  C37. The reverse table survives a restart: a snapshot taken at any point of a history and restored
  into a new cache of the same capacity answers every reverse lookup, at every later distance from the
  restore, as the old cache would have answered it at the same distance from the snapshot.
\<close>

theorem reverse_restore_roundtrip:
  assumes "recency_cache F fi" and "recency_cache R ri" and "cache_run F R (cache_new F R capacity) xs = Some c"
    and "reverse_snapshot R now c = (es, c1)" and "restore_reverse R later (cache_new F R capacity) es = Some c2"
  shows "fst (reverse_lookup R (later + dt) c2 ip) = fst (reverse_lookup R (now + dt) c ip)"
proof -
  have two: "dns_lrus F fi R ri" using assms(1,2) by (simp add: dns_lrus_def)
  have ok: "cache_ok fi ri c" "same_caps (cache_new F R capacity) c" using dns_lrus.history_ok [OF two assms(3)] by simp_all
  have new: "cache_ok fi ri (cache_new F R capacity)" using dns_lrus.new_ok [OF two] .
  have none: "ri (dc_reverse (cache_new F R capacity) ! i) = []" if "i < SHARDS" for i
    using that by (simp add: cache_new_def recency_cache.items_empty [OF assms(2)])
  note s = dns_lrus.reverse_snapshot_map [OF two ok(1) assms(4)]
  have room: "length (ri (dc_reverse (cache_new F R capacity) ! i)) + length (filter (\<lambda>e. shard_ip (rs_ip e) = i) es) \<le> rev_shard_cap (cache_new F R capacity)"
    if "i < SHARDS" for i using s(3) [OF that] ok(2) none [OF that] by (simp add: same_caps_def)
  have e: "table_map ri shard_ip (dc_reverse (cache_new F R capacity)) ip = None" using none by (simp add: table_map_def)
  have ok2: "cache_ok fi ri c2" using dns_lrus.restore_reverse_ok [OF two new assms(5)] by simp
  have m: "table_map ri shard_ip (dc_reverse c2) ip = (case table_map ri shard_ip (dc_reverse c) ip of
      Some v \<Rightarrow> if now < re_expire_at v then Some \<lparr>re_domain = re_domain v, re_expire_at = later + (re_expire_at v - now)\<rparr> else None
    | None \<Rightarrow> None)"
    using dns_lrus.restore_map [OF two new s(1,2) room assms(5), of ip] s(4) [of ip] e by (auto split: option.splits if_splits)
  show ?thesis
    unfolding dns_lrus.reverse_lookup_ok(3) [OF two ok(1)] dns_lrus.reverse_lookup_ok(3) [OF two ok2] m
    by (auto split: option.split)
qed

subsection \<open>Instances\<close>

abbreviation dns_fwd_lru :: "((string \<times> cache_entry) list, string, cache_entry) lru_ops" where
  "dns_fwd_lru \<equiv> list_lru"

abbreviation dns_rev_lru :: "((ip_addr \<times> reverse_entry) list, ip_addr, reverse_entry) lru_ops" where
  "dns_rev_lru \<equiv> list_lru"

interpretation list_dns: dns_lrus dns_fwd_lru "\<lambda>xs. xs" dns_rev_lru "\<lambda>xs. xs"
  by unfold_locales

lemma list_lru_contract: "recency_cache list_lru (\<lambda>xs. xs)"
  by unfold_locales

definition demo_ops :: "cache_op list" where
  "demo_ops = [PutOp 5 ''A.com'' [V4 1, V6 2] (secs 10) None, GetOp 6 ''a.com'']"

lemma put_capped_values: "set (put_capped list_lru cap xs k v) \<subseteq> insert (k, v) (set xs)"
  by (auto simp: put_capped_def list_lru_def Let_def AList.delete_eq dest!: in_set_butlastD)

lemma put_reverse_values:
  assumes "\<forall>sh \<in> set (dc_reverse c). \<forall>x \<in> set sh. re_expire_at (snd x) \<le> n" and "at \<le> n"
  shows "\<forall>sh \<in> set (dc_reverse (put_reverse dns_rev_lru c ip key at)). \<forall>x \<in> set sh. re_expire_at (snd x) \<le> n"
proof (cases "shard_ip ip < length (dc_reverse c)")
  case True
  have "\<forall>x \<in> set (put_capped dns_rev_lru (rev_shard_cap c) (dc_reverse c ! shard_ip ip) ip \<lparr>re_domain = key, re_expire_at = at\<rparr>). re_expire_at (snd x) \<le> n"
    using put_capped_values [of "rev_shard_cap c" "dc_reverse c ! shard_ip ip" ip] assms nth_mem [OF True] by fastforce
  then show ?thesis using assms(1) by (auto simp: put_reverse_def dest!: set_update_subset_insert [THEN subsetD])
qed (use assms in \<open>simp add: put_reverse_def list_update_beyond\<close>)

lemma demo_cache:
  obtains c where "cache_run dns_fwd_lru dns_rev_lru (cache_new dns_fwd_lru dns_rev_lru 0) demo_ops = Some c"
    "\<forall>sh \<in> set (dc_reverse c). \<forall>x \<in> set sh. re_expire_at (snd x) \<le> secs 601"
proof -
  have i: "instant_add 5 (secs 10) = Some (5 + secs 10)" "instant_add 5 (max (secs 10) REVERSE_TTL_FLOOR) = Some (5 + secs 600)"
    by (simp_all add: instant_add_def instant_max_def REVERSE_TTL_FLOOR_def secs_def max_def)
  let ?c = "put_reverse dns_rev_lru (put_reverse dns_rev_lru (cache_new dns_fwd_lru dns_rev_lru 0) (V4 1) (normalize_domain ''A.com'') (5 + secs 600))
    (V6 2) (normalize_domain ''A.com'') (5 + secs 600)"
  have "\<forall>sh \<in> set (dc_reverse ?c). \<forall>x \<in> set sh. re_expire_at (snd x) \<le> secs 601"
    by (intro put_reverse_values) (simp_all add: cache_new_def list_lru_def secs_def)
  moreover have "dc_reverse (snd (get_lookup dns_fwd_lru 6 (put_forward dns_fwd_lru ?c k e) d)) = dc_reverse ?c" for k e d
    by (simp add: get_lookup_def put_forward_def Let_def split: prod.split option.split)
  ultimately show ?thesis using that by (simp add: demo_ops_def put_with_source_def put_replacing_def i Let_def)
qed

theorem cache_bounded_witness:
  "\<exists>c. cache_run dns_fwd_lru dns_rev_lru (cache_new dns_fwd_lru dns_rev_lru 0) demo_ops = Some c \<and> forward_len dns_fwd_lru c \<le> 128"
proof -
  obtain c where c: "cache_run dns_fwd_lru dns_rev_lru (cache_new dns_fwd_lru dns_rev_lru 0) demo_ops = Some c" using demo_cache by blast
  show ?thesis using cache_bounded [OF list_lru_contract list_lru_contract c] c by auto
qed

theorem stored_answer_served_witness:
  "\<exists>c0 c. cache_run dns_fwd_lru dns_rev_lru (cache_new dns_fwd_lru dns_rev_lru 0) demo_ops = Some c0 \<and>
     put_with_source dns_fwd_lru dns_rev_lru 7 c0 ''b.com'' [V6 3, V4 4] (secs 10) None = Some c \<and>
     fst (get_with_ttl dns_fwd_lru 8 c ''B.com'') = Some ([V4 4, V6 3], 9999999999)"
proof -
  obtain c0 where c0: "cache_run dns_fwd_lru dns_rev_lru (cache_new dns_fwd_lru dns_rev_lru 0) demo_ops = Some c0" using demo_cache by blast
  obtain c where c: "put_with_source dns_fwd_lru dns_rev_lru 7 c0 ''b.com'' [V6 3, V4 4] (secs 10) None = Some c"
    by (auto simp: Let_def put_with_source_def put_replacing_def instant_add_def instant_max_def REVERSE_TTL_FLOOR_def secs_def max_def)
  have "to_ascii_lowercase ''B.com'' = to_ascii_lowercase ''b.com''" by code_simp
  from stored_answer_served [OF list_lru_contract list_lru_contract c0 c this, of 8] c0 c
  show ?thesis by (auto simp: secs_def)
qed

theorem merge_family_exact_witness:
  "\<exists>c0 c. cache_run dns_fwd_lru dns_rev_lru (cache_new dns_fwd_lru dns_rev_lru 0) demo_ops = Some c0 \<and>
     merge_family dns_fwd_lru dns_rev_lru 7 c0 ''a.com'' fam_ipv4 [V4 9, V4 9] (secs 1) None NegNone = Some c \<and>
     family_view dns_fwd_lru 8 c ''a.com'' fam_ipv4 = Answer [V4 9] 999999999 \<and>
     family_view dns_fwd_lru 8 c ''a.com'' fam_ipv6 = dedup_hit (family_view dns_fwd_lru 8 c0 ''a.com'' fam_ipv6)"
proof -
  obtain c0 where c0: "cache_run dns_fwd_lru dns_rev_lru (cache_new dns_fwd_lru dns_rev_lru 0) demo_ops = Some c0" using demo_cache by blast
  have "merge_family dns_fwd_lru dns_rev_lru 7 c0 ''a.com'' fam_ipv4 [V4 9, V4 9] (secs 1) None NegNone \<noteq> None"
    by (auto simp: merge_family_def instant_add_def instant_max_def REVERSE_TTL_FLOOR_def secs_def max_def Let_def split: prod.split)
  then obtain c where c: "merge_family dns_fwd_lru dns_rev_lru 7 c0 ''a.com'' fam_ipv4 [V4 9, V4 9] (secs 1) None NegNone = Some c" by blast
  have "list_all (contains_ip fam_ipv4) [V4 9, V4 9]" by simp
  from merge_family_exact [OF list_lru_contract list_lru_contract c0 c disjI1 [OF refl] this, of 8] c0 c
  show ?thesis by (auto simp: secs_def stored_hit_def)
qed

lemma restore_total:
  "list_all (\<lambda>e. later + rs_remaining e \<le> instant_max) es \<Longrightarrow> \<exists>c'. restore_reverse R later c es = Some c'"
  by (induction es arbitrary: c) (auto simp: instant_add_def)

theorem reverse_restore_roundtrip_witness:
  "\<exists>c es c1 c2. cache_run dns_fwd_lru dns_rev_lru (cache_new dns_fwd_lru dns_rev_lru 0) demo_ops = Some c \<and>
     reverse_snapshot dns_rev_lru 10 c = (es, c1) \<and>
     restore_reverse dns_rev_lru 3 (cache_new dns_fwd_lru dns_rev_lru 0) es = Some c2 \<and>
     fst (reverse_lookup dns_rev_lru (3 + 7) c2 (V4 1)) = fst (reverse_lookup dns_rev_lru (10 + 7) c (V4 1))"
proof -
  obtain c where c: "cache_run dns_fwd_lru dns_rev_lru (cache_new dns_fwd_lru dns_rev_lru 0) demo_ops = Some c"
    "\<forall>sh \<in> set (dc_reverse c). \<forall>x \<in> set sh. re_expire_at (snd x) \<le> secs 601" by (rule demo_cache)
  obtain es c1 where s: "reverse_snapshot dns_rev_lru 10 c = (es, c1)" by fastforce
  have ok: "cache_ok (\<lambda>xs. xs) (\<lambda>xs. xs) c" using list_dns.history_ok [OF c(1)] by simp
  have "3 + rs_remaining e \<le> instant_max" if "e \<in> set es" for e
  proof -
    have "map_of (map (\<lambda>e. (rs_ip e, e)) es) (rs_ip e) = Some e"
      using that list_dns.reverse_snapshot_map(1) [OF ok s] by (intro map_of_is_SomeI) (simp_all add: comp_def)
    then obtain v where v: "table_map (\<lambda>xs. xs) shard_ip (dc_reverse c) (rs_ip e) = Some v" "rs_remaining e = re_expire_at v - 10"
      using list_dns.reverse_snapshot_map(4) [OF ok s, of "rs_ip e"]
      by (cases "list_dns.rev_map c (rs_ip e)") (auto split: if_splits dest: arg_cong [where f = rs_remaining])
    have "shard_ip (rs_ip e) < length (dc_reverse c)" using ok by (simp add: cache_ok_def table_ok_def)
    then have "re_expire_at v \<le> secs 601" using v(1) c(2) nth_mem by (fastforce simp: table_map_def dest: map_of_SomeD)
    then show ?thesis using v(2) by (simp add: instant_max_def secs_def)
  qed
  then obtain c2 where c2: "restore_reverse dns_rev_lru 3 (cache_new dns_fwd_lru dns_rev_lru 0) es = Some c2"
    using restore_total [of 3 es dns_rev_lru "cache_new dns_fwd_lru dns_rev_lru 0"] by (auto simp: list_all_iff)
  show ?thesis using reverse_restore_roundtrip [OF list_lru_contract list_lru_contract c(1) s c2, of 7 "V4 1"] c(1) s c2 by blast
qed

end
