(* ===== verification/Kcp.thy ===== *)
theory Kcp
  imports Prelude "HOL-Library.Word"
begin

section \<open>The KCP protocol\<close>

text \<open>
  The model of \<^verbatim>\<open>meow-transport/src/kcptun/kcp_go.rs\<close>: segments and their encoding, the send and receive
  queues, acknowledgements, retransmission, congestion control and window probing. Bytes are 8-bit
  words and sequence numbers, clocks and windows 32-bit words that wrap as the source's do. The
  \<^verbatim>\<open>Output\<close> of the source is a writer: the state keeps the datagrams written so far, and the parameter
  \<open>wr\<close> says which further ones the writer accepts. An operation that can fail returns its result
  together with the state, which an early return leaves as far as it got.
\<close>

unbundle bit_operations_syntax

type_synonym byte = "8 word"
type_synonym bytes = "byte list"
type_synonym u32 = "32 word"

subsection \<open>Constants, errors and wire integers\<close>

datatype kcp_error =
    ConvInconsistent u32 u32 | InvalidMtu nat | InvalidSegmentSize nat | InvalidMss nat | InvalidSegmentDataSize nat nat
  | IoError | NeedUpdate | RecvQueueEmpty | ExpectingFragment | UnsupportedCmd byte | UserBufTooBig | UserBufTooSmall | EmptySend

definition KCP_RTO_NDL :: u32 where "KCP_RTO_NDL = 30"
definition KCP_RTO_MIN :: u32 where "KCP_RTO_MIN = 100"
definition KCP_RTO_DEF :: u32 where "KCP_RTO_DEF = 200"
definition KCP_RTO_MAX :: u32 where "KCP_RTO_MAX = 60000"
definition KCP_CMD_PUSH :: byte where "KCP_CMD_PUSH = 81"
definition KCP_CMD_ACK :: byte where "KCP_CMD_ACK = 82"
definition KCP_CMD_WASK :: byte where "KCP_CMD_WASK = 83"
definition KCP_CMD_WINS :: byte where "KCP_CMD_WINS = 84"
definition KCP_ASK_SEND :: u32 where "KCP_ASK_SEND = 1"
definition KCP_ASK_TELL :: u32 where "KCP_ASK_TELL = 2"
definition KCP_WND_SND :: u32 where "KCP_WND_SND = 32"
definition KCP_WND_RCV :: u32 where "KCP_WND_RCV = 32"
definition KCP_MTU_DEF :: nat where "KCP_MTU_DEF = 1400"
definition KCP_INTERVAL :: u32 where "KCP_INTERVAL = 100"
definition KCP_OVERHEAD :: nat where "KCP_OVERHEAD = 24"
definition KCP_DEADLINK :: u32 where "KCP_DEADLINK = 20"
definition KCP_THRESH_INIT :: u32 where "KCP_THRESH_INIT = 2"
definition KCP_THRESH_MIN :: u32 where "KCP_THRESH_MIN = 2"
definition KCP_PROBE_INIT :: u32 where "KCP_PROBE_INIT = 500"
definition KCP_PROBE_LIMIT :: u32 where "KCP_PROBE_LIMIT = 120000"

lemmas kcp_consts = KCP_RTO_NDL_def KCP_RTO_MIN_def KCP_RTO_DEF_def KCP_RTO_MAX_def KCP_CMD_PUSH_def KCP_CMD_ACK_def
  KCP_CMD_WASK_def KCP_CMD_WINS_def KCP_MTU_DEF_def KCP_OVERHEAD_def

datatype flush_type = AckOnly | Full

definition put_u16_le :: "16 word \<Rightarrow> bytes" where
  "put_u16_le w = [ucast w, ucast (drop_bit 8 w)]"

definition put_u32_le :: "u32 \<Rightarrow> bytes" where
  "put_u32_le w = [ucast w, ucast (drop_bit 8 w), ucast (drop_bit 16 w), ucast (drop_bit 24 w)]"

text \<open>A read past the end panics in the source; every read of the protocol is guarded by a length test.\<close>

definition get_u8 :: "bytes \<Rightarrow> byte \<times> bytes" where
  "get_u8 b = (b ! 0, drop 1 b)"

definition get_u16_le :: "bytes \<Rightarrow> 16 word \<times> bytes" where
  "get_u16_le b = (ucast (b ! 0) OR push_bit 8 (ucast (b ! 1)), drop 2 b)"

definition get_u32_le :: "bytes \<Rightarrow> u32 \<times> bytes" where
  "get_u32_le b =
     (ucast (b ! 0) OR push_bit 8 (ucast (b ! 1)) OR push_bit 16 (ucast (b ! 2)) OR push_bit 24 (ucast (b ! 3)), drop 4 b)"

definition get_conv :: "bytes \<Rightarrow> u32" where
  "get_conv buf = (if length buf < KCP_OVERHEAD then 0 else fst (get_u32_le buf))"

definition set_conv_buf :: "bytes \<Rightarrow> u32 \<Rightarrow> bytes" where
  "set_conv_buf buf c = (if length buf < KCP_OVERHEAD then buf else put_u32_le c @ drop 4 buf)"

definition get_sn :: "bytes \<Rightarrow> u32" where
  "get_sn buf = (if length buf < KCP_OVERHEAD then 0 else fst (get_u32_le (drop 12 buf)))"

definition bound :: "u32 \<Rightarrow> u32 \<Rightarrow> u32 \<Rightarrow> u32" where
  "bound lower v upper = min (max lower v) upper"

definition timediff :: "u32 \<Rightarrow> u32 \<Rightarrow> int" where
  "timediff later earlier = sint (later - earlier)"

subsection \<open>Segments\<close>

record kcp_segment =
  sg_conv :: u32
  sg_cmd :: byte
  sg_frg :: byte
  sg_wnd :: "16 word"
  sg_ts :: u32
  sg_sn :: u32
  sg_una :: u32
  sg_resendts :: u32
  sg_rto :: u32
  sg_fastack :: u32
  sg_xmit :: u32
  sg_acked :: bool
  sg_data :: bytes

definition new_with_data :: "bytes \<Rightarrow> kcp_segment" where
  "new_with_data d = \<lparr>sg_conv = 0, sg_cmd = 0, sg_frg = 0, sg_wnd = 0, sg_ts = 0, sg_sn = 0, sg_una = 0, sg_resendts = 0,
     sg_rto = 0, sg_fastack = 0, sg_xmit = 0, sg_acked = False, sg_data = d\<rparr>"

definition encode :: "kcp_segment \<Rightarrow> bytes \<Rightarrow> bytes" where
  "encode s buf = buf @ put_u32_le (sg_conv s) @ [sg_cmd s] @ [sg_frg s] @ put_u16_le (sg_wnd s) @ put_u32_le (sg_ts s) @
     put_u32_le (sg_sn s) @ put_u32_le (sg_una s) @ put_u32_le (word_of_nat (length (sg_data s))) @ sg_data s"

definition encoded_len :: "kcp_segment \<Rightarrow> nat" where
  "encoded_len s = KCP_OVERHEAD + length (sg_data s)"

subsection \<open>The control block\<close>

record kcp =
  k_conv :: u32
  k_mtu :: nat
  k_mss :: nat
  k_state :: int
  snd_una :: u32
  snd_nxt :: u32
  rcv_nxt :: u32
  ssthresh :: u32
  rx_rttval :: u32
  rx_srtt :: u32
  rx_rto :: u32
  rx_minrto :: u32
  snd_wnd :: u32
  rcv_wnd :: u32
  rmt_wnd :: u32
  cwnd :: u32
  probe :: u32
  current :: u32
  interval :: u32
  ts_flush :: u32
  nodelay :: bool
  updated :: bool
  ts_probe :: u32
  probe_wait :: u32
  dead_link :: u32
  incr :: u32
  snd_queue :: "kcp_segment list"
  rcv_queue :: "kcp_segment list"
  snd_buf :: "kcp_segment list"
  rcv_buf :: "kcp_segment list"
  acklist :: "(u32 \<times> u32) list"
  k_buf :: bytes
  fastresend :: u32
  nocwnd :: bool
  k_stream :: bool
  input_conv :: bool
  k_output :: "bytes list"

definition construct :: "u32 \<Rightarrow> bool \<Rightarrow> kcp" where
  "construct c strm = \<lparr>k_conv = c, k_mtu = KCP_MTU_DEF, k_mss = KCP_MTU_DEF - KCP_OVERHEAD, k_state = 0, snd_una = 0, snd_nxt = 0,
     rcv_nxt = 0, ssthresh = KCP_THRESH_INIT, rx_rttval = 0, rx_srtt = 0, rx_rto = KCP_RTO_DEF, rx_minrto = KCP_RTO_MIN,
     snd_wnd = KCP_WND_SND, rcv_wnd = KCP_WND_RCV, rmt_wnd = KCP_WND_RCV, cwnd = 0, probe = 0, current = 0, interval = KCP_INTERVAL,
     ts_flush = KCP_INTERVAL, nodelay = False, updated = False, ts_probe = 0, probe_wait = 0, dead_link = KCP_DEADLINK, incr = 0,
     snd_queue = [], rcv_queue = [], snd_buf = [], rcv_buf = [], acklist = [], k_buf = [], fastresend = 0, nocwnd = False,
     k_stream = strm, input_conv = False, k_output = []\<rparr>"

definition kcp_new :: "u32 \<Rightarrow> kcp" where
  "kcp_new c = construct c False"

definition new_stream :: "u32 \<Rightarrow> kcp" where
  "new_stream c = construct c True"

subsection \<open>Receiving\<close>

fun move_loop :: "u32 \<Rightarrow> u32 \<Rightarrow> kcp_segment list \<Rightarrow> kcp_segment list \<Rightarrow> u32 \<times> kcp_segment list \<times> kcp_segment list" where
  "move_loop wnd nxt queue [] = (nxt, queue, [])"
| "move_loop wnd nxt queue (seg # buf) =
     (if sg_sn seg = nxt \<and> length queue < unat wnd then move_loop wnd (nxt + 1) (queue @ [seg]) buf else (nxt, queue, seg # buf))"

definition move_buf :: "kcp \<Rightarrow> kcp" where
  "move_buf k = (let (nxt, queue, buf) = move_loop (rcv_wnd k) (rcv_nxt k) (rcv_queue k) (rcv_buf k) in
     k\<lparr>rcv_nxt := nxt, rcv_queue := queue, rcv_buf := buf\<rparr>)"

text \<open>The length of the first message of the queue, and the loop that takes it out.\<close>

fun message_len :: "kcp_segment list \<Rightarrow> nat" where
  "message_len [] = 0"
| "message_len (seg # segs) = length (sg_data seg) + (if sg_frg seg = 0 then 0 else message_len segs)"

definition peeksize :: "kcp \<Rightarrow> kcp_error + nat" where
  "peeksize k =
     (case rcv_queue k of
        [] \<Rightarrow> Inl RecvQueueEmpty
      | seg # _ \<Rightarrow>
          if sg_frg seg = 0 then Inr (length (sg_data seg))
          else if length (rcv_queue k) < unat (sg_frg seg) + 1 then Inl ExpectingFragment
          else Inr (message_len (rcv_queue k)))"

text \<open>Writing to the caller's buffer of \<open>room\<close> bytes fails when a segment does not fit.\<close>

fun take_message :: "nat \<Rightarrow> bytes \<Rightarrow> kcp_segment list \<Rightarrow> (kcp_error + bytes) \<times> kcp_segment list" where
  "take_message room acc [] = (Inr acc, [])"
| "take_message room acc (seg # segs) =
     (if room < length acc + length (sg_data seg) then (Inl IoError, segs)
      else if sg_frg seg = 0 then (Inr (acc @ sg_data seg), segs)
      else take_message room (acc @ sg_data seg) segs)"

definition recv :: "kcp \<Rightarrow> nat \<Rightarrow> (kcp_error + bytes) \<times> kcp" where
  "recv k room =
     (if rcv_queue k = [] then (Inl RecvQueueEmpty, k)
      else case peeksize k of
        Inl e \<Rightarrow> (Inl e, k)
      | Inr peek \<Rightarrow>
          if room < peek then (Inl UserBufTooSmall, k)
          else let recover = unat (rcv_wnd k) \<le> length (rcv_queue k);
                   (r, queue) = take_message room [] (rcv_queue k); k = k\<lparr>rcv_queue := queue\<rparr> in
            case r of
              Inl e \<Rightarrow> (Inl e, k)
            | Inr data \<Rightarrow>
                let k = move_buf k;
                    k = (if length (rcv_queue k) < unat (rcv_wnd k) \<and> recover then k\<lparr>probe := probe k OR KCP_ASK_TELL\<rparr> else k) in
                (Inr data, k))"

subsection \<open>Sending\<close>

fun fragments :: "bool \<Rightarrow> nat \<Rightarrow> nat \<Rightarrow> bytes \<Rightarrow> kcp_segment list" where
  "fragments strm mss 0 buf = []"
| "fragments strm mss (Suc left) buf =
     (let n = min mss (length buf) in
      (new_with_data (take n buf))\<lparr>sg_frg := (if strm then 0 else word_of_nat left)\<rparr> # fragments strm mss left (drop n buf))"

definition div_ceil :: "nat \<Rightarrow> nat \<Rightarrow> nat" where
  "div_ceil a b = (a + b - 1) div b"

text \<open>The append to the last queued segment in stream mode: the bytes that are left and those taken.\<close>

definition append_last :: "kcp \<Rightarrow> bytes \<Rightarrow> bytes \<times> nat \<times> kcp" where
  "append_last k buf =
     (if snd_queue k = [] then (buf, 0, k)
      else let old = last (snd_queue k); l = length (sg_data old) in
        if l < k_mss k then
          (let extend = min (length buf) (k_mss k - l) in
           (drop extend buf, extend,
            k\<lparr>snd_queue := butlast (snd_queue k) @ [old\<lparr>sg_data := sg_data old @ take extend buf, sg_frg := 0\<rparr>]\<rparr>))
        else (buf, 0, k))"

definition send :: "kcp \<Rightarrow> bytes \<Rightarrow> (kcp_error + nat) \<times> kcp" where
  "send k buf =
     (if k_mss k = 0 then (Inl (InvalidMss 0), k)
      else if buf = [] then (Inl EmptySend, k)
      else let (buf, sent_size, k) = (if k_stream k then append_last k buf else (buf, 0, k)) in
        if k_stream k \<and> buf = [] then (Inr sent_size, k)
        else let count = (if length buf \<le> k_mss k then 1 else div_ceil (length buf) (k_mss k)) in
          if 255 < count then (Inl UserBufTooBig, k)
          else let count = max 1 count in
            (Inr (sent_size + min (count * k_mss k) (length buf)),
             k\<lparr>snd_queue := snd_queue k @ fragments (k_stream k) (k_mss k) count buf\<rparr>))"

subsection \<open>Acknowledgements\<close>

definition asr :: "u32 \<Rightarrow> nat \<Rightarrow> u32" where
  "asr w n = signed_drop_bit n w"

definition update_ack :: "kcp \<Rightarrow> u32 \<Rightarrow> kcp" where
  "update_ack k rtt =
     (let k = (if rx_srtt k = 0 then k\<lparr>rx_srtt := rtt, rx_rttval := asr rtt 1\<rparr>
               else let delta = rtt - rx_srtt k; k = k\<lparr>rx_srtt := rx_srtt k + asr delta 3\<rparr>;
                        delta = (if sint delta < 0 then - delta else delta) in
                 if sint rtt < sint (rx_srtt k - rx_rttval k)
                 then k\<lparr>rx_rttval := rx_rttval k + asr (delta - rx_rttval k) 5\<rparr>
                 else k\<lparr>rx_rttval := rx_rttval k + asr (delta - rx_rttval k) 2\<rparr>);
          rto = rx_srtt k + max (interval k) (push_bit 2 (rx_rttval k)) in
      k\<lparr>rx_rto := bound (rx_minrto k) rto KCP_RTO_MAX\<rparr>)"

definition shrink_buf :: "kcp \<Rightarrow> kcp" where
  "shrink_buf k = k\<lparr>snd_una := (case snd_buf k of seg # _ \<Rightarrow> sg_sn seg | [] \<Rightarrow> snd_nxt k)\<rparr>"

fun mark_acked :: "u32 \<Rightarrow> kcp_segment list \<Rightarrow> kcp_segment list" where
  "mark_acked sn [] = []"
| "mark_acked sn (seg # segs) =
     (if sn = sg_sn seg then seg\<lparr>sg_acked := True, sg_data := []\<rparr> # segs
      else if timediff sn (sg_sn seg) < 0 then seg # segs
      else seg # mark_acked sn segs)"

definition parse_ack :: "kcp \<Rightarrow> u32 \<Rightarrow> kcp" where
  "parse_ack k sn =
     (if timediff sn (snd_una k) < 0 \<or> timediff sn (snd_nxt k) \<ge> 0 then k else k\<lparr>snd_buf := mark_acked sn (snd_buf k)\<rparr>)"

definition parse_una :: "kcp \<Rightarrow> u32 \<Rightarrow> nat \<times> kcp" where
  "parse_una k una =
     (let slid = takeWhile (\<lambda>seg. timediff una (sg_sn seg) > 0) (snd_buf k) in
      (length slid, k\<lparr>snd_buf := drop (length slid) (snd_buf k)\<rparr>))"

fun fastack_loop :: "u32 \<Rightarrow> u32 \<Rightarrow> u32 \<Rightarrow> u32 \<Rightarrow> kcp_segment list \<Rightarrow> u32 \<times> kcp_segment list" where
  "fastack_loop fr sn ts should [] = (should, [])"
| "fastack_loop fr sn ts should (seg # segs) =
     (if timediff sn (sg_sn seg) < 0 then (should, seg # segs)
      else if sn \<noteq> sg_sn seg \<and> timediff (sg_ts seg) ts \<le> 0 \<and> sg_fastack seg \<noteq> 0xFFFFFFFF then
        (let seg = seg\<lparr>sg_fastack := sg_fastack seg + 1\<rparr>;
             (should, segs) = fastack_loop fr sn ts (if fr \<le> sg_fastack seg then 1 else should) segs in
         (should, seg # segs))
      else (let (should, segs) = fastack_loop fr sn ts should segs in (should, seg # segs)))"

definition parse_fastack :: "kcp \<Rightarrow> u32 \<Rightarrow> u32 \<Rightarrow> u32 \<times> kcp" where
  "parse_fastack k sn ts =
     (if timediff sn (snd_una k) < 0 \<or> timediff sn (snd_nxt k) \<ge> 0 then (0, k)
      else let (should, segs) = fastack_loop (fastresend k) sn ts 0 (snd_buf k) in (should, k\<lparr>snd_buf := segs\<rparr>))"

definition ack_push :: "kcp \<Rightarrow> u32 \<Rightarrow> u32 \<Rightarrow> kcp" where
  "ack_push k sn ts = k\<lparr>acklist := acklist k @ [(sn, ts)]\<rparr>"

subsection \<open>Incoming data\<close>

text \<open>The scan from the back of the buffer: whether the number is there already, and where it belongs.\<close>

fun scan_back :: "u32 \<Rightarrow> nat \<Rightarrow> kcp_segment list \<Rightarrow> bool \<times> nat" where
  "scan_back sn i [] = (False, i)"
| "scan_back sn i (seg # segs) =
     (if sg_sn seg = sn then (True, i) else if timediff sn (sg_sn seg) > 0 then (False, i) else scan_back sn (i - 1) segs)"

definition parse_data :: "kcp \<Rightarrow> u32 \<Rightarrow> byte \<Rightarrow> byte \<Rightarrow> 16 word \<Rightarrow> u32 \<Rightarrow> u32 \<Rightarrow> u32 \<Rightarrow> bytes \<Rightarrow> kcp" where
  "parse_data k c cmd frg wnd ts sn una data =
     (if timediff sn (rcv_nxt k + rcv_wnd k) \<ge> 0 \<or> timediff sn (rcv_nxt k) < 0 then k
      else let (repeated, i) = scan_back sn (length (rcv_buf k)) (rev (rcv_buf k));
               k = (if \<not> repeated
                    then k\<lparr>rcv_buf := take i (rcv_buf k) @ (new_with_data data)\<lparr>sg_conv := c, sg_cmd := cmd, sg_frg := frg,
                           sg_wnd := wnd, sg_ts := ts, sg_sn := sn, sg_una := una\<rparr> # drop i (rcv_buf k)\<rparr>
                    else k) in
        move_buf k)"

definition await_conv :: "kcp \<Rightarrow> kcp" where
  "await_conv k = k\<lparr>input_conv := True\<rparr>"

definition set_conv :: "kcp \<Rightarrow> u32 \<Rightarrow> kcp" where
  "set_conv k c = k\<lparr>k_conv := c\<rparr>"

definition wnd_unused :: "kcp \<Rightarrow> 16 word" where
  "wnd_unused k =
     (if word_of_nat (length (rcv_queue k)) < rcv_wnd k then ucast (rcv_wnd k - word_of_nat (length (rcv_queue k))) else 0)"

definition probe_wnd_size :: "kcp \<Rightarrow> kcp" where
  "probe_wnd_size k =
     (if rmt_wnd k = 0 then
        if probe_wait k = 0 then k\<lparr>probe_wait := KCP_PROBE_INIT, ts_probe := current k + KCP_PROBE_INIT\<rparr>
        else if timediff (current k) (ts_probe k) \<ge> 0 then
          (let w = (if probe_wait k < KCP_PROBE_INIT then KCP_PROBE_INIT else probe_wait k); w = w + w div 2;
               w = (if w > KCP_PROBE_LIMIT then KCP_PROBE_LIMIT else w) in
           k\<lparr>probe_wait := w, ts_probe := current k + w, probe := probe k OR KCP_ASK_SEND\<rparr>)
        else k
      else k\<lparr>ts_probe := 0, probe_wait := 0\<rparr>)"

subsection \<open>Settings and timers\<close>

fun check_loop :: "u32 \<Rightarrow> kcp_segment list \<Rightarrow> u32 \<Rightarrow> u32 option" where
  "check_loop now [] tm = Some tm"
| "check_loop now (seg # segs) tm =
     (if sg_acked seg \<or> sg_xmit seg = 0 then check_loop now segs tm
      else let diff = timediff (sg_resendts seg) now in
        if diff \<le> 0 then None
        else check_loop now segs (if word_of_int diff < tm then word_of_int diff else tm))"

definition check :: "kcp \<Rightarrow> u32 \<Rightarrow> u32" where
  "check k now =
     (if \<not> updated k then 0
      else let t = (if timediff now (ts_flush k) \<ge> 10000 \<or> timediff now (ts_flush k) < -10000 then now else ts_flush k) in
        if timediff now t \<ge> 0 then 0
        else case check_loop now (snd_buf k) (- 1) of
          None \<Rightarrow> 0
        | Some tm_packet \<Rightarrow>
            (let minimal = min tm_packet (word_of_int (timediff t now)) in
             if interval k \<le> minimal then interval k else minimal))"

definition set_mtu :: "kcp \<Rightarrow> nat \<Rightarrow> (kcp_error + unit) \<times> kcp" where
  "set_mtu k mtu = (if mtu \<le> KCP_OVERHEAD then (Inl (InvalidMtu mtu), k) else (Inr (), k\<lparr>k_mtu := mtu, k_mss := mtu - KCP_OVERHEAD\<rparr>))"

definition set_interval :: "kcp \<Rightarrow> u32 \<Rightarrow> kcp" where
  "set_interval k i = k\<lparr>interval := min (max i 10) 5000\<rparr>"

definition set_nodelay :: "kcp \<Rightarrow> bool \<Rightarrow> int \<Rightarrow> int \<Rightarrow> bool \<Rightarrow> kcp" where
  "set_nodelay k nd i resend nc =
     (let k = (if nd then k\<lparr>nodelay := True, rx_minrto := KCP_RTO_NDL\<rparr> else k\<lparr>nodelay := False, rx_minrto := KCP_RTO_MIN\<rparr>);
          k = (if i \<ge> 0 then k\<lparr>interval := min (max (word_of_int i) 10) 5000\<rparr> else k);
          k = (if resend \<ge> 0 then k\<lparr>fastresend := word_of_int resend\<rparr> else k) in
      k\<lparr>nocwnd := nc\<rparr>)"

definition set_wndsize :: "kcp \<Rightarrow> u32 \<Rightarrow> u32 \<Rightarrow> kcp" where
  "set_wndsize k s r =
     (let k = (if s > 0 then k\<lparr>snd_wnd := s\<rparr> else k) in if r > 0 then k\<lparr>rcv_wnd := r\<rparr> else k)"

definition wait_snd :: "kcp \<Rightarrow> nat" where
  "wait_snd k = length (snd_buf k) + length (snd_queue k)"

definition set_rx_minrto :: "kcp \<Rightarrow> u32 \<Rightarrow> kcp" where
  "set_rx_minrto k rto = k\<lparr>rx_minrto := rto\<rparr>"

definition set_fast_resend :: "kcp \<Rightarrow> u32 \<Rightarrow> kcp" where
  "set_fast_resend k fr = k\<lparr>fastresend := fr\<rparr>"

definition set_maximum_resend_times :: "kcp \<Rightarrow> u32 \<Rightarrow> kcp" where
  "set_maximum_resend_times k n = k\<lparr>dead_link := n\<rparr>"

definition is_dead_link :: "kcp \<Rightarrow> bool" where
  "is_dead_link k \<longleftrightarrow> k_state k \<noteq> 0"

subsection \<open>Flushing\<close>

type_synonym writer = "bytes list \<Rightarrow> bytes \<Rightarrow> bool"

text \<open>The pending datagram is written out and the buffer cleared; and the same when \<open>need\<close> more bytes would exceed the MTU.\<close>

definition write_out :: "writer \<Rightarrow> kcp \<Rightarrow> kcp_error option \<times> kcp" where
  "write_out wr k =
     (if wr (k_output k) (k_buf k) then (None, k\<lparr>k_output := k_output k @ [k_buf k], k_buf := []\<rparr>) else (Some IoError, k))"

definition make_room :: "writer \<Rightarrow> nat \<Rightarrow> kcp \<Rightarrow> kcp_error option \<times> kcp" where
  "make_room wr need k = (if length (k_buf k) + need > k_mtu k then write_out wr k else (None, k))"

definition append_seg :: "kcp_segment \<Rightarrow> kcp \<Rightarrow> kcp" where
  "append_seg seg k = k\<lparr>k_buf := encode seg (k_buf k)\<rparr>"

fun ack_loop :: "writer \<Rightarrow> nat \<Rightarrow> nat \<Rightarrow> (u32 \<times> u32) list \<Rightarrow> kcp_segment \<Rightarrow> kcp \<Rightarrow> kcp_error option \<times> kcp_segment \<times> kcp" where
  "ack_loop wr lst i [] seg k = (None, seg, k)"
| "ack_loop wr lst i ((sn, ts) # acks) seg k =
     (case make_room wr KCP_OVERHEAD k of
        (Some e, k) \<Rightarrow> (Some e, seg, k)
      | (None, k) \<Rightarrow>
          if timediff sn (rcv_nxt k) \<ge> 0 \<or> i = lst
          then (let seg = seg\<lparr>sg_sn := sn, sg_ts := ts\<rparr> in ack_loop wr lst (i + 1) acks seg (append_seg seg k))
          else ack_loop wr lst (i + 1) acks seg k)"

definition flush_acks :: "writer \<Rightarrow> kcp_segment \<Rightarrow> kcp \<Rightarrow> kcp_error option \<times> kcp_segment \<times> kcp" where
  "flush_acks wr seg k =
     (case ack_loop wr (length (acklist k) - 1) 0 (acklist k) seg k of
        (Some e, seg, k) \<Rightarrow> (Some e, seg, k)
      | (None, seg, k) \<Rightarrow> (None, seg, k\<lparr>acklist := []\<rparr>))"

definition flush_probe_command :: "writer \<Rightarrow> byte \<Rightarrow> kcp_segment \<Rightarrow> kcp \<Rightarrow> kcp_error option \<times> kcp_segment \<times> kcp" where
  "flush_probe_command wr cmd seg k =
     (let seg = seg\<lparr>sg_cmd := cmd\<rparr> in
      case make_room wr KCP_OVERHEAD k of (Some e, k) \<Rightarrow> (Some e, seg, k) | (None, k) \<Rightarrow> (None, seg, append_seg seg k))"

definition flush_probe_commands :: "writer \<Rightarrow> kcp_segment \<Rightarrow> kcp \<Rightarrow> kcp_error option \<times> kcp_segment \<times> kcp" where
  "flush_probe_commands wr seg k =
     (case (if probe k AND KCP_ASK_SEND \<noteq> 0 then flush_probe_command wr KCP_CMD_WASK seg k else (None, seg, k)) of
        (Some e, seg, k) \<Rightarrow> (Some e, seg, k)
      | (None, seg, k) \<Rightarrow>
          (case (if probe k AND KCP_ASK_TELL \<noteq> 0 then flush_probe_command wr KCP_CMD_WINS seg k else (None, seg, k)) of
             (Some e, seg, k) \<Rightarrow> (Some e, seg, k)
           | (None, seg, k) \<Rightarrow> (None, seg, k\<lparr>probe := 0\<rparr>)))"

fun slide_loop :: "u32 \<Rightarrow> u32 \<Rightarrow> u32 \<Rightarrow> kcp_segment list \<Rightarrow> nat \<Rightarrow> kcp_segment list \<Rightarrow> u32 \<times> kcp_segment list \<times> nat \<times> kcp_segment list" where
  "slide_loop limit c nxt buf n [] = (nxt, buf, n, [])"
| "slide_loop limit c nxt buf n (seg # queue) =
     (if timediff nxt limit < 0
      then slide_loop limit c (nxt + 1) (buf @ [seg\<lparr>sg_conv := c, sg_cmd := KCP_CMD_PUSH, sg_sn := nxt\<rparr>]) (n + 1) queue
      else (nxt, buf, n, seg # queue))"

text \<open>Whether a segment goes on the wire, with its new timers, and whether it counts as lost or as a fast retransmit.\<close>

definition resend_decision :: "kcp \<Rightarrow> u32 \<Rightarrow> nat \<Rightarrow> kcp_segment \<Rightarrow> bool \<times> kcp_segment \<times> bool \<times> bool" where
  "resend_decision k resent new_segs s =
     (let fresh = s\<lparr>sg_rto := rx_rto k, sg_resendts := current k + rx_rto k\<rparr> in
      if sg_xmit s = 0 then (True, fresh, False, False)
      else if resent \<le> sg_fastack s \<and> sg_fastack s \<noteq> 0xFFFFFFFF then (True, fresh\<lparr>sg_fastack := 0xFFFFFFFF\<rparr>, False, True)
      else if sg_fastack s > 0 \<and> sg_fastack s \<noteq> 0xFFFFFFFF \<and> new_segs = 0 then (True, fresh\<lparr>sg_fastack := 0xFFFFFFFF\<rparr>, False, True)
      else if timediff (current k) (sg_resendts s) \<ge> 0 then
        (let rto = sg_rto s + (if nodelay k then rx_rto k div 2 else rx_rto k) in
         (True, s\<lparr>sg_rto := rto, sg_fastack := 0, sg_resendts := current k + rto\<rparr>, True, False))
      else (False, s, False, False))"

fun resend_loop :: "writer \<Rightarrow> 16 word \<Rightarrow> u32 \<Rightarrow> nat \<Rightarrow> kcp_segment list \<Rightarrow> kcp \<Rightarrow> bool \<Rightarrow> nat \<Rightarrow>
    kcp_error option \<times> kcp_segment list \<times> kcp \<times> bool \<times> nat" where
  "resend_loop wr wnd resent new_segs [] k lost change = (None, [], k, lost, change)"
| "resend_loop wr wnd resent new_segs (s # segs) k lost change =
     (if sg_acked s then
        (let (e, segs, r) = resend_loop wr wnd resent new_segs segs k lost change in (e, s # segs, r))
      else
        (case resend_decision k resent new_segs s of (need_send, s, l, ch) \<Rightarrow>
           let lost = (lost \<or> l); change = (if ch then change + 1 else change) in
           if need_send then
             (let s = s\<lparr>sg_xmit := sg_xmit s + 1, sg_ts := current k, sg_wnd := wnd, sg_una := rcv_nxt k\<rparr> in
              case make_room wr (KCP_OVERHEAD + length (sg_data s)) k of
                (Some e, k) \<Rightarrow> (Some e, s # segs, k, lost, change)
              | (None, k) \<Rightarrow>
                  (let k = append_seg s k; k = (if dead_link k \<le> sg_xmit s then k\<lparr>k_state := -1\<rparr> else k);
                       (e, segs, r) = resend_loop wr wnd resent new_segs segs k lost change in
                   (e, s # segs, r)))
           else (let (e, segs, r) = resend_loop wr wnd resent new_segs segs k lost change in (e, s # segs, r))))"

definition update_cwnd :: "u32 \<Rightarrow> u32 \<Rightarrow> bool \<Rightarrow> nat \<Rightarrow> kcp \<Rightarrow> kcp" where
  "update_cwnd cw resent lost change k =
     (if nocwnd k then k
      else
       (let k = (if change > 0 then
                   (let th = max ((snd_nxt k - snd_una k) div 2) KCP_THRESH_MIN; c = th + resent in
                    k\<lparr>ssthresh := th, cwnd := c, incr := c * word_of_nat (k_mss k)\<rparr>)
                 else k);
            k = (if lost then k\<lparr>ssthresh := max (cw div 2) KCP_THRESH_MIN, cwnd := 1, incr := word_of_nat (k_mss k)\<rparr> else k) in
        if cwnd k < 1 then k\<lparr>cwnd := 1, incr := word_of_nat (k_mss k)\<rparr> else k))"

definition flush_segment :: "kcp \<Rightarrow> kcp_segment" where
  "flush_segment k = (new_with_data [])\<lparr>sg_conv := k_conv k, sg_cmd := KCP_CMD_ACK, sg_wnd := wnd_unused k, sg_una := rcv_nxt k\<rparr>"

definition slide :: "kcp \<Rightarrow> u32 \<Rightarrow> nat \<times> kcp" where
  "slide k cw =
     (let (nxt, buf, new_segs, queue) = slide_loop (snd_una k + cw) (k_conv k) (snd_nxt k) (snd_buf k) 0 (snd_queue k) in
      (new_segs, k\<lparr>snd_nxt := nxt, snd_buf := buf, snd_queue := queue\<rparr>))"

definition flush_inner :: "writer \<Rightarrow> flush_type \<Rightarrow> kcp \<Rightarrow> kcp_error option \<times> kcp" where
  "flush_inner wr ft k =
     (let seg = flush_segment k in
      case flush_acks wr seg k of (Some e, seg, k) \<Rightarrow> (Some e, k) | (None, seg, k) \<Rightarrow>
      let k = probe_wnd_size k in
      case flush_probe_commands wr seg k of (Some e, seg, k) \<Rightarrow> (Some e, k) | (None, seg, k) \<Rightarrow>
      let cw = min (snd_wnd k) (rmt_wnd k); cw = (if nocwnd k then cw else min (cwnd k) cw);
          (new_segs, k) = slide k cw;
          resent = (if fastresend k > 0 then fastresend k else - 1);
          (e, segs, k, lost, change) =
            (if ft = Full then resend_loop wr (sg_wnd seg) resent new_segs (snd_buf k) k False 0
             else (None, snd_buf k, k, False, 0));
          k = k\<lparr>snd_buf := segs\<rparr> in
      case e of Some e \<Rightarrow> (Some e, k) | None \<Rightarrow>
      case (if k_buf k \<noteq> [] then write_out wr k else (None, k)) of (Some e, k) \<Rightarrow> (Some e, k) | (None, k) \<Rightarrow>
      (None, update_cwnd cw resent lost change k))"

definition flush_ack :: "writer \<Rightarrow> kcp \<Rightarrow> kcp_error option \<times> kcp" where
  "flush_ack wr k = (if \<not> updated k then (Some NeedUpdate, k) else flush_inner wr AckOnly k)"

definition flush :: "writer \<Rightarrow> kcp \<Rightarrow> kcp_error option \<times> kcp" where
  "flush wr k = (if \<not> updated k then (Some NeedUpdate, k) else flush_inner wr Full k)"

definition update :: "writer \<Rightarrow> kcp \<Rightarrow> u32 \<Rightarrow> kcp_error option \<times> kcp" where
  "update wr k now =
     (let k = k\<lparr>current := now\<rparr>; k = (if updated k then k else k\<lparr>updated := True, ts_flush := current k\<rparr>);
          slap = timediff (current k) (ts_flush k);
          (slap, k) = (if \<not> (-10000 \<le> slap \<and> slap < 10000) then (0, k\<lparr>ts_flush := current k\<rparr>) else (slap, k)) in
      if slap \<ge> 0 then
        (let k = k\<lparr>ts_flush := ts_flush k + interval k\<rparr>;
             k = (if timediff (current k) (ts_flush k) \<ge> 0 then k\<lparr>ts_flush := current k + interval k\<rparr> else k) in
         flush wr k)
      else (None, k))"

subsection \<open>Input\<close>

record header =
  h_conv :: u32
  h_cmd :: byte
  h_frg :: byte
  h_wnd :: "16 word"
  h_ts :: u32
  h_sn :: u32
  h_una :: u32
  h_len :: nat

definition read_header :: "bytes \<Rightarrow> header \<times> bytes" where
  "read_header b =
     (let (c, b) = get_u32_le b; (cmd, b) = get_u8 b; (frg, b) = get_u8 b; (wnd, b) = get_u16_le b; (ts, b) = get_u32_le b;
          (sn, b) = get_u32_le b; (una, b) = get_u32_le b; (len, b) = get_u32_le b in
      (\<lparr>h_conv = c, h_cmd = cmd, h_frg = frg, h_wnd = wnd, h_ts = ts, h_sn = sn, h_una = una, h_len = unat len\<rparr>, b))"

definition known_cmd :: "byte \<Rightarrow> bool" where
  "known_cmd cmd \<longleftrightarrow> cmd \<in> {KCP_CMD_PUSH, KCP_CMD_ACK, KCP_CMD_WASK, KCP_CMD_WINS}"

record input_state =
  update_rtt :: bool
  latest :: u32
  flush_segments :: u32

definition input_push :: "kcp \<Rightarrow> header \<Rightarrow> bytes \<Rightarrow> kcp" where
  "input_push k h data =
     (if timediff (h_sn h) (rcv_nxt k + rcv_wnd k) < 0 then
        (let k = ack_push k (h_sn h) (h_ts h) in
         if timediff (h_sn h) (rcv_nxt k) \<ge> 0
         then parse_data k (h_conv h) (h_cmd h) (h_frg h) (h_wnd h) (h_ts h) (h_sn h) (h_una h) data else k)
      else k)"

definition input_segment :: "bool \<Rightarrow> kcp \<Rightarrow> input_state \<Rightarrow> header \<Rightarrow> bytes \<Rightarrow> kcp \<times> input_state" where
  "input_segment regular k st h data =
     (let k = (if regular then k\<lparr>rmt_wnd := ucast (h_wnd h)\<rparr> else k);
          (count, k) = parse_una k (h_una h);
          st = (if count > 0 then st\<lparr>flush_segments := flush_segments st OR 1\<rparr> else st);
          k = shrink_buf k in
      if h_cmd h = KCP_CMD_ACK then
        (let k = parse_ack k (h_sn h); (f, k) = parse_fastack k (h_sn h) (h_ts h) in
         (k, st\<lparr>flush_segments := flush_segments st OR f, update_rtt := True, latest := h_ts h\<rparr>))
      else if h_cmd h = KCP_CMD_PUSH then (input_push k h data, st)
      else if h_cmd h = KCP_CMD_WASK then (k\<lparr>probe := probe k OR KCP_ASK_TELL\<rparr>, st)
      else (k, st))"

lemma length_read_header [simp]: "length (snd (read_header b)) = length b - 24"
  by (simp add: read_header_def get_u32_le_def get_u16_le_def get_u8_def Let_def)

function input_loop :: "bool \<Rightarrow> kcp \<Rightarrow> input_state \<Rightarrow> bytes \<Rightarrow> (kcp_error + input_state \<times> bytes) \<times> kcp" where
  "input_loop regular k st b =
     (if length b < KCP_OVERHEAD then (Inr (st, b), k)
      else let (h, b) = read_header b in
        if h_conv h \<noteq> k_conv k \<and> \<not> input_conv k then (Inl (ConvInconsistent (k_conv k) (h_conv h)), k)
        else let k = (if h_conv h \<noteq> k_conv k then k\<lparr>k_conv := h_conv h, input_conv := False\<rparr> else k) in
          if length b < h_len h then (Inl (InvalidSegmentDataSize (h_len h) (length b)), k)
          else if \<not> known_cmd (h_cmd h) then (Inl (UnsupportedCmd (h_cmd h)), k)
          else let (k, st) = input_segment regular k st h (take (h_len h) b) in
            input_loop regular k st (drop (h_len h) b))"
  by pat_completeness auto
termination
proof (relation "measure (\<lambda>(regular, k, st, b). length b)")
  fix b :: bytes and x h b'
  assume "\<not> length b < KCP_OVERHEAD" "x = read_header b" "(h, b') = x"
  then have "length b' = length b - 24" "24 \<le> length b"
    using length_read_header [of b] by (simp_all add: KCP_OVERHEAD_def del: length_read_header) (metis snd_conv)
  then show "((regular, k, st, drop (h_len h) b'), regular', k', st', b) \<in> measure (\<lambda>(regular, k, st, b). length b)"
    for regular k st regular' k' st' by simp
qed simp

declare input_loop.simps [simp del]

definition grow_cwnd :: "u32 \<Rightarrow> kcp \<Rightarrow> kcp" where
  "grow_cwnd old_una k =
     (if \<not> nocwnd k \<and> timediff (snd_una k) old_una > 0 \<and> cwnd k < rmt_wnd k then
        (let mss = word_of_nat (k_mss k);
             k = (if cwnd k < ssthresh k then k\<lparr>cwnd := cwnd k + 1, incr := incr k + mss\<rparr>
                  else let i = (if incr k < mss then mss else incr k); i = i + (mss * mss div i + mss div 16); k = k\<lparr>incr := i\<rparr> in
                    if (cwnd k + 1) * mss \<le> incr k then k\<lparr>cwnd := (incr k + mss - 1) div mss\<rparr> else k) in
         if cwnd k > rmt_wnd k then k\<lparr>cwnd := rmt_wnd k, incr := rmt_wnd k * mss\<rparr> else k)
      else k)"

definition input :: "writer \<Rightarrow> kcp \<Rightarrow> bytes \<Rightarrow> bool \<Rightarrow> bool \<Rightarrow> (kcp_error + nat) \<times> kcp" where
  "input wr k b regular ack_nodelay =
     (if length b < KCP_OVERHEAD then (Inl (InvalidSegmentSize (length b)), k)
      else let old_una = snd_una k in
        case input_loop regular k \<lparr>update_rtt = False, latest = 0, flush_segments = 0\<rparr> b of
          (Inl e, k) \<Rightarrow> (Inl e, k)
        | (Inr (st, rest), k) \<Rightarrow>
            (let k = (if update_rtt st \<and> regular \<and> timediff (current k) (latest st) \<ge> 0
                      then update_ack k (current k - latest st) else k);
                 k = grow_cwnd old_una k;
                 (e, k) = (if flush_segments st \<noteq> 0 then flush_inner wr Full k
                           else if k_mtu k div KCP_OVERHEAD \<le> length (acklist k) \<or> ack_nodelay \<and> acklist k \<noteq> []
                           then flush_inner wr AckOnly k else (None, k)) in
             (case e of Some e \<Rightarrow> (Inl e, k) | None \<Rightarrow> (Inr (length b - length rest), k))))"

end
