(* ===== verification/Kcp_Laws.thy ===== *)
theory Kcp_Laws
  imports Kcp "HOL-Library.Sublist"
begin

section \<open>Facts about the KCP protocol\<close>

text \<open>
  The wire format reads back what was written, sequence numbers below \<open>2 ^ 31\<close> compare as numbers, and
  the invariants of the two halves of an endpoint: the sender numbers its segments once and for all and
  keeps what is not acknowledged, the receiver holds a contiguous prefix of the numbered segments and
  an ordered buffer of later ones.
\<close>

subsection \<open>The wire format\<close>

lemma get_put_u32 [simp]: "get_u32_le (put_u32_le w @ r) = (w, r)"
proof -
  have "ucast (ucast w :: byte) OR push_bit 8 (ucast (ucast (drop_bit 8 w) :: byte)) OR
      push_bit 16 (ucast (ucast (drop_bit 16 w) :: byte)) OR push_bit 24 (ucast (ucast (drop_bit 24 w) :: byte)) = w" (is "?l = w")
  proof (rule bit_word_eqI)
    fix n assume "n < LENGTH(32)"
    then consider "n < 8" | "8 \<le> n" "n < 16" | "16 \<le> n" "n < 24" | "24 \<le> n" "n < 32" by fastforce
    then show "bit ?l n = bit w n" by cases (auto simp: bit_simps)
  qed
  then show ?thesis by (simp add: get_u32_le_def put_u32_le_def)
qed

lemma get_put_u16 [simp]: "get_u16_le (put_u16_le w @ r) = (w, r)"
proof -
  have "ucast (ucast w :: byte) OR push_bit 8 (ucast (ucast (drop_bit 8 w) :: byte)) = w"
    by (rule bit_word_eqI) (auto simp: bit_simps)
  then show ?thesis by (simp add: get_u16_le_def put_u16_le_def)
qed

lemma get_u8_Cons [simp]: "get_u8 (x # r) = (x, r)"
  by (simp add: get_u8_def)

lemma length_put [simp]: "length (put_u32_le w) = 4" "length (put_u16_le v) = 2"
  by (simp_all add: put_u32_le_def put_u16_le_def)

definition wire :: "kcp_segment \<Rightarrow> bytes" where
  "wire s = encode s []"

lemma encode_wire: "encode s buf = buf @ wire s"
  by (simp add: wire_def encode_def)

lemma length_wire [simp]: "length (wire s) = encoded_len s"
  by (simp add: wire_def encode_def encoded_len_def KCP_OVERHEAD_def)

definition seg_header :: "kcp_segment \<Rightarrow> header" where
  "seg_header s = \<lparr>h_conv = sg_conv s, h_cmd = sg_cmd s, h_frg = sg_frg s, h_wnd = sg_wnd s, h_ts = sg_ts s, h_sn = sg_sn s,
     h_una = sg_una s, h_len = length (sg_data s)\<rparr>"

lemma read_header_wire:
  assumes "length (sg_data s) < 2 ^ 32"
  shows "read_header (wire s @ r) = (seg_header s, sg_data s @ r)"
  using assms by (simp add: wire_def encode_def read_header_def seg_header_def unat_of_nat)

subsection \<open>Sequence numbers\<close>

lemma timediff_of_nat:
  assumes "n < 2 ^ 31" and "m < 2 ^ 31"
  shows "timediff (word_of_nat n) (word_of_nat m) = int n - int m"
proof -
  have "(word_of_nat n - word_of_nat m :: u32) = word_of_int (int n - int m)" by simp
  then have "timediff (word_of_nat n) (word_of_nat m) = signed_take_bit 31 (int n - int m)"
    unfolding timediff_def by (simp add: sint_sbintrunc' del: of_int_diff)
  also have "\<dots> = int n - int m" using assms by (intro signed_take_bit_int_eq_self) simp_all
  finally show ?thesis .
qed

lemma of_nat_inject_u32: "n < 2 ^ 31 \<Longrightarrow> m < 2 ^ 31 \<Longrightarrow> (word_of_nat n :: u32) = word_of_nat m \<longleftrightarrow> n = m"
  by (simp add: word_unat_eq_iff unat_of_nat)

subsection \<open>The receiving half\<close>

text \<open>The segment with the absolute number \<open>n\<close> of a stream with the contents \<open>c\<close>.\<close>

definition carries :: "(nat \<Rightarrow> byte \<times> bytes) \<Rightarrow> nat \<Rightarrow> kcp_segment \<Rightarrow> bool" where
  "carries c n s \<longleftrightarrow> sg_sn s = word_of_nat n \<and> c n = (sg_frg s, sg_data s)"

text \<open>
  The first \<open>d\<close> of \<open>L\<close> segments have been handed to the application, those up to \<open>R\<close> are queued in
  order, and the buffer holds those with the numbers \<open>ns\<close>.
\<close>

definition rcv_inv :: "(nat \<Rightarrow> byte \<times> bytes) \<Rightarrow> nat \<Rightarrow> nat \<Rightarrow> nat \<Rightarrow> nat list \<Rightarrow> kcp \<Rightarrow> bool" where
  "rcv_inv c L d R ns k \<longleftrightarrow>
     L < 2 ^ 31 \<and> d \<le> R \<and> R \<le> L \<and> rcv_nxt k = word_of_nat R \<and> list_all2 (carries c) [d..<R] (rcv_queue k) \<and>
     sorted_wrt (<) ns \<and> (\<forall>n \<in> set ns. R \<le> n \<and> n < L) \<and> list_all2 (carries c) ns (rcv_buf k)"

definition held :: "nat \<Rightarrow> nat list \<Rightarrow> nat set" where
  "held R ns = {..<R} \<union> set ns"

lemma move_loop_inv:
  assumes "L < 2 ^ 31" "d \<le> R" "R \<le> L" "list_all2 (carries c) [d..<R] q"
    and "sorted_wrt (<) ns" "\<forall>n \<in> set ns. R \<le> n \<and> n < L" "list_all2 (carries c) ns buf"
    and "move_loop wnd (word_of_nat R) q buf = (nxt, q', buf')"
  shows "\<exists>R' ns'. R \<le> R' \<and> R' \<le> L \<and> nxt = word_of_nat R' \<and> list_all2 (carries c) [d..<R'] q' \<and> sorted_wrt (<) ns' \<and>
    (\<forall>n \<in> set ns'. R' \<le> n \<and> n < L) \<and> list_all2 (carries c) ns' buf' \<and> held R' ns' = held R ns"
  using assms
proof (induction buf arbitrary: R q ns)
  case (Cons s buf)
  obtain n ns1 where ns: "ns = n # ns1" "carries c n s" "list_all2 (carries c) ns1 buf"
    using Cons.prems(7) by (auto simp: list_all2_Cons2)
  show ?case
  proof (cases "sg_sn s = word_of_nat R \<and> length q < unat wnd")
    case True
    then have "(word_of_nat n :: u32) = word_of_nat R" using ns(2) by (simp add: carries_def)
    moreover have "n < 2 ^ 31" "R < 2 ^ 31" using Cons.prems(1,3,6) ns(1) by auto
    ultimately have n: "n = R" using of_nat_inject_u32 by blast
    have "list_all2 (carries c) [d..<Suc R] (q @ [s])" using Cons.prems(2,4) ns(2) n by (simp add: list_all2_appendI)
    moreover have "\<forall>m \<in> set ns1. Suc R \<le> m \<and> m < L" using Cons.prems(5,6) ns(1) n by auto
    moreover have "move_loop wnd (word_of_nat (Suc R)) (q @ [s]) buf = (nxt, q', buf')" using Cons.prems(8) True by (simp add: add.commute)
    moreover have "Suc R \<le> L" using Cons.prems(6) ns(1) n by auto
    ultimately obtain R' ns' where "Suc R \<le> R' \<and> R' \<le> L \<and> nxt = word_of_nat R' \<and> list_all2 (carries c) [d..<R'] q' \<and> sorted_wrt (<) ns' \<and>
        (\<forall>n \<in> set ns'. R' \<le> n \<and> n < L) \<and> list_all2 (carries c) ns' buf' \<and> held R' ns' = held (Suc R) ns1"
      using Cons.IH [of "Suc R" "q @ [s]" ns1] Cons.prems(1,2,5) ns by auto
    moreover have "held (Suc R) ns1 = held R ns" using ns(1) n by (auto simp: held_def)
    ultimately show ?thesis by (metis Suc_leD)
  next
    case False
    then have "nxt = word_of_nat R" "q' = q" "buf' = s # buf" using Cons.prems(8) by (auto split: if_splits)
    then show ?thesis using Cons.prems by blast
  qed
next
  case Nil
  then show ?case by (intro exI [of _ R] exI [of _ "[]"]) auto
qed

lemma move_buf_inv:
  assumes "rcv_inv c L d R ns k"
  shows "\<exists>R' ns'. R \<le> R' \<and> rcv_inv c L d R' ns' (move_buf k) \<and> held R' ns' = held R ns"
proof -
  obtain nxt q' buf' where m: "move_loop (rcv_wnd k) (rcv_nxt k) (rcv_queue k) (rcv_buf k) = (nxt, q', buf')"
    using prod_cases3 by blast
  then show ?thesis
    using move_loop_inv [of L d R c "rcv_queue k" ns "rcv_buf k" "rcv_wnd k" nxt q' buf'] assms
    by (fastforce simp: rcv_inv_def move_buf_def)
qed

lemma scan_back_inv:
  assumes "sorted_wrt (<) ns" "\<forall>m \<in> set ns. m < L" "list_all2 (carries c) ns buf" "n < L" "L < 2 ^ 31"
  shows "fst (scan_back (word_of_nat n) (length buf) (rev buf)) = (n \<in> set ns)"
    and "n \<notin> set ns \<Longrightarrow> snd (scan_back (word_of_nat n) (length buf) (rev buf)) = length (takeWhile (\<lambda>m. m < n) ns)"
proof -
  have "fst (scan_back (word_of_nat n) (length buf) (rev buf)) = (n \<in> set ns) \<and>
      (n \<notin> set ns \<longrightarrow> snd (scan_back (word_of_nat n) (length buf) (rev buf)) = length (takeWhile (\<lambda>m. m < n) ns))"
    using assms
  proof (induction buf arbitrary: ns rule: rev_induct)
    case (snoc s buf)
    obtain ns1 m where ns: "ns = ns1 @ [m]" "list_all2 (carries c) ns1 buf" "carries c m s"
      using snoc.prems(3) by (auto simp: list_all2_append2 list_all2_Cons2)
    have lt: "m < 2 ^ 31" "n < 2 ^ 31" "\<forall>x \<in> set ns1. x < m" using snoc.prems ns(1) by (auto simp: sorted_wrt_append)
    have t: "timediff (word_of_nat n) (sg_sn s) = int n - int m" "sg_sn s = word_of_nat n \<longleftrightarrow> m = n"
      using ns(3) timediff_of_nat [OF lt(2,1)] of_nat_inject_u32 [OF lt(1,2)] by (auto simp: carries_def)
    consider "m = n" | "m < n" | "n < m" by linarith
    then show ?case
    proof cases
      case 2
      then have tw: "takeWhile (\<lambda>m. m < n) ns = ns" "n \<notin> set ns" using lt(3) ns(1) by (auto simp: takeWhile_eq_all_conv)
      show ?thesis using 2 t list_all2_lengthD [OF snoc.prems(3)] by (simp add: tw)
    next
      case 3
      have "takeWhile (\<lambda>m. m < n) ns = takeWhile (\<lambda>m. m < n) ns1" using 3 ns(1) by (simp add: takeWhile_tail)
      then show ?thesis using 3 t snoc.IH [of ns1] snoc.prems ns by (auto simp: sorted_wrt_append)
    qed (use t ns(1) in simp)
  qed simp
  then show "fst (scan_back (word_of_nat n) (length buf) (rev buf)) = (n \<in> set ns)"
    "n \<notin> set ns \<Longrightarrow> snd (scan_back (word_of_nat n) (length buf) (rev buf)) = length (takeWhile (\<lambda>m. m < n) ns)" by simp_all
qed

lemma sorted_wrt_insert:
  "\<forall>y \<in> set ys. (n :: nat) < y \<Longrightarrow> \<forall>x \<in> set xs. x < n \<Longrightarrow> sorted_wrt (<) (xs @ ys) \<Longrightarrow> sorted_wrt (<) (xs @ n # ys)"
  by (auto simp: sorted_wrt_append)

lemma parse_data_inv:
  assumes "rcv_inv c L d R ns k" and "n < L" and "c n = (frg, data)"
  shows "\<exists>R' ns'. R \<le> R' \<and> rcv_inv c L d R' ns' (parse_data k cv cmd frg wnd ts (word_of_nat n) una data) \<and>
    (held R' ns' = held R ns \<or> held R' ns' = insert n (held R ns))"
    and "timediff (word_of_nat n) (rcv_nxt k + rcv_wnd k) < 0 \<Longrightarrow> R \<le> n \<Longrightarrow>
      \<exists>R' ns'. R \<le> R' \<and> rcv_inv c L d R' ns' (parse_data k cv cmd frg wnd ts (word_of_nat n) una data) \<and> held R' ns' = insert n (held R ns)"
proof -
  let ?k = "parse_data k cv cmd frg wnd ts (word_of_nat n) una data"
  note inv = assms(1) [unfolded rcv_inv_def]
  have lt: "n < 2 ^ 31" "R < 2 ^ 31" using inv assms(2) by auto
  have td: "timediff (word_of_nat n) (rcv_nxt k) = int n - int R" using timediff_of_nat [OF lt] inv by simp
  have ins: "\<exists>R' ns'. R \<le> R' \<and> rcv_inv c L d R' ns' ?k \<and> held R' ns' = insert n (held R ns)"
    if enter: "timediff (word_of_nat n) (rcv_nxt k + rcv_wnd k) < 0" "R \<le> n"
  proof (cases "n \<in> set ns")
    case True
    then obtain i where "scan_back (word_of_nat n) (length (rcv_buf k)) (rev (rcv_buf k)) = (True, i)"
      using scan_back_inv(1) [of ns L c "rcv_buf k" n] inv assms(2) by (metis prod.collapse)
    then have "?k = move_buf k" using enter td by (simp add: parse_data_def)
    moreover have "insert n (held R ns) = held R ns" using True by (auto simp: held_def)
    ultimately show ?thesis using move_buf_inv [OF assms(1)] by simp
  next
    case False
    let ?i = "length (takeWhile (\<lambda>m. m < n) ns)" and ?ns = "takeWhile (\<lambda>m. m < n) ns @ n # dropWhile (\<lambda>m. m < n) ns"
    define s where "s = (new_with_data data)\<lparr>sg_conv := cv, sg_cmd := cmd, sg_frg := frg, sg_wnd := wnd, sg_ts := ts, sg_sn := word_of_nat n, sg_una := una\<rparr>"
    define k1 where "k1 = k\<lparr>rcv_buf := take ?i (rcv_buf k) @ s # drop ?i (rcv_buf k)\<rparr>"
    have "scan_back (word_of_nat n) (length (rcv_buf k)) (rev (rcv_buf k)) = (False, ?i)"
      using scan_back_inv [of ns L c "rcv_buf k" n] inv assms(2) False by (simp add: prod_eq_iff)
    then have k: "?k = move_buf k1" using enter td by (simp add: parse_data_def k1_def s_def)
    have "carries c n s" using assms(3) by (simp add: carries_def s_def new_with_data_def)
    moreover have "list_all2 (carries c) (take ?i ns) (take ?i (rcv_buf k))" "list_all2 (carries c) (drop ?i ns) (drop ?i (rcv_buf k))"
      using inv by (simp_all add: list_all2_takeI list_all2_dropI)
    ultimately have l: "list_all2 (carries c) ?ns (rcv_buf k1)"
      by (simp add: k1_def takeWhile_eq_take [symmetric] dropWhile_eq_drop [symmetric] list_all2_appendI)
    have "\<forall>m \<in> set (dropWhile (\<lambda>m. m < n) ns). n < m"
    proof (cases "dropWhile (\<lambda>m. m < n) ns")
      case (Cons a as)
      then have "\<not> a < n" using hd_dropWhile [of "\<lambda>m. m < n" ns] by simp
      moreover have "a \<noteq> n" using False Cons set_dropWhileD [of a "\<lambda>m. m < n" ns] by auto
      moreover have "sorted_wrt (<) (a # as)" using inv Cons sorted_wrt_drop [of "(<)" ns ?i] by (simp add: dropWhile_eq_drop)
      ultimately show ?thesis using Cons by auto
    next
      case Nil
      show ?thesis unfolding Nil by simp
    qed
    moreover have "\<forall>m \<in> set (takeWhile (\<lambda>m. m < n) ns). m < n" using set_takeWhileD by fast
    moreover have "sorted_wrt (<) (takeWhile (\<lambda>m. m < n) ns @ dropWhile (\<lambda>m. m < n) ns)" using inv by simp
    ultimately have srt: "sorted_wrt (<) ?ns" by (intro sorted_wrt_insert)
    have "set ns = set (takeWhile (\<lambda>m. m < n) ns) \<union> set (dropWhile (\<lambda>m. m < n) ns)" by (metis set_append takeWhile_dropWhile_id)
    then have "set ?ns = insert n (set ns)" by simp
    note this srt
    then have "rcv_inv c L d R ?ns k1" "held R ?ns = insert n (held R ns)"
      using inv l enter(2) assms(2) by (auto simp: rcv_inv_def k1_def held_def)
    then show ?thesis using move_buf_inv [of c L d R ?ns k1] k by simp
  qed
  then show "\<exists>R' ns'. R \<le> R' \<and> rcv_inv c L d R' ns' ?k \<and> (held R' ns' = held R ns \<or> held R' ns' = insert n (held R ns))"
  proof (cases "timediff (word_of_nat n) (rcv_nxt k + rcv_wnd k) < 0 \<and> R \<le> n")
    case False
    then have "?k = k" using td by (auto simp: parse_data_def)
    then show ?thesis using assms(1) by auto
  qed blast
  show "timediff (word_of_nat n) (rcv_nxt k + rcv_wnd k) < 0 \<Longrightarrow> R \<le> n \<Longrightarrow>
      \<exists>R' ns'. R \<le> R' \<and> rcv_inv c L d R' ns' ?k \<and> held R' ns' = insert n (held R ns)" by (rule ins)
qed

lemma take_message_ok:
  "length acc + message_len q \<le> room \<Longrightarrow>
     \<exists>j \<le> length q. take_message room acc q = (Inr (acc @ concat (map sg_data (take j q))), drop j q)"
proof (induction q arbitrary: acc)
  case (Cons s q)
  show ?case
  proof (cases "sg_frg s = 0")
    case True
    then show ?thesis using Cons.prems by (intro exI [of _ 1]) simp
  next
    case False
    then obtain j where "j \<le> length q" "take_message room (acc @ sg_data s) q = (Inr ((acc @ sg_data s) @ concat (map sg_data (take j q))), drop j q)"
      using Cons.IH [of "acc @ sg_data s"] Cons.prems by auto
    then show ?thesis using False Cons.prems by (intro exI [of _ "Suc j"]) simp
  qed
qed simp

lemma rcv_inv_cong:
  "rcv_nxt k' = rcv_nxt k \<Longrightarrow> rcv_queue k' = rcv_queue k \<Longrightarrow> rcv_buf k' = rcv_buf k \<Longrightarrow> rcv_inv c L d R ns k' = rcv_inv c L d R ns k"
  by (simp add: rcv_inv_def)

lemma carried_data: "list_all2 (carries c) ms q \<Longrightarrow> map sg_data q = map (\<lambda>n. snd (c n)) ms"
  by (induction rule: list_all2_induct) (auto simp: carries_def)

lemma move_buf_frame: "\<exists>nxt q b. move_buf k = k\<lparr>rcv_nxt := nxt, rcv_queue := q, rcv_buf := b\<rparr>"
  by (auto simp: move_buf_def split: prod.split)

lemma recv_inv:
  assumes "rcv_inv c L d R ns k" and "recv k room = (r, k')"
  shows "\<exists>d' R' ns'. d \<le> d' \<and> R \<le> R' \<and> rcv_inv c L d' R' ns' k' \<and> held R' ns' = held R ns \<and>
    (case r of Inr data \<Rightarrow> data = concat (map (\<lambda>n. snd (c n)) [d..<d']) | Inl _ \<Rightarrow> d' = d)"
    and "\<exists>nxt q b p. k' = k\<lparr>rcv_nxt := nxt, rcv_queue := q, rcv_buf := b, probe := p\<rparr>"
proof -
  let ?goal = "(\<exists>d' R' ns'. d \<le> d' \<and> R \<le> R' \<and> rcv_inv c L d' R' ns' k' \<and> held R' ns' = held R ns \<and>
    (case r of Inr data \<Rightarrow> data = concat (map (\<lambda>n. snd (c n)) [d..<d']) | Inl _ \<Rightarrow> d' = d)) \<and>
    (\<exists>nxt q b p. k' = k\<lparr>rcv_nxt := nxt, rcv_queue := q, rcv_buf := b, probe := p\<rparr>)"
  have ?goal
  proof (cases "\<exists>p. peeksize k = Inr p \<and> p \<le> room \<and> rcv_queue k \<noteq> []")
    case False
    then have "room < p" if "peeksize k = Inr p" "rcv_queue k \<noteq> []" for p using that by (meson not_le)
    then have "k' = k" "isl r" using assms(2) by (auto simp: recv_def split: if_splits sum.splits)
    then obtain e where r: "k' = k" "r = Inl e" by (cases r) auto
    show ?thesis unfolding r
    proof (intro conjI)
      show "\<exists>nxt q b p. k = k\<lparr>rcv_nxt := nxt, rcv_queue := q, rcv_buf := b, probe := p\<rparr>"
        by (intro exI [of _ "rcv_nxt k"] exI [of _ "rcv_queue k"] exI [of _ "rcv_buf k"] exI [of _ "probe k"]) simp
    qed (rule exI [of _ d], rule exI [of _ R], rule exI [of _ ns], use assms(1) in simp)
  next
    case True
    then obtain p where p: "peeksize k = Inr p" "p \<le> room" "rcv_queue k \<noteq> []" by blast
    then have "message_len (rcv_queue k) = p" by (auto simp: peeksize_def split: list.splits if_splits)
    then obtain j where j: "j \<le> length (rcv_queue k)"
      "take_message room [] (rcv_queue k) = (Inr (concat (map sg_data (take j (rcv_queue k)))), drop j (rcv_queue k))"
      using take_message_ok [of "[]" "rcv_queue k" room] p(2) by auto
    define k1 where "k1 = k\<lparr>rcv_queue := drop j (rcv_queue k)\<rparr>"
    note inv = assms(1) [unfolded rcv_inv_def]
    have len: "length (rcv_queue k) = R - d" using inv list_all2_lengthD by fastforce
    have "d \<le> R" using inv by blast
    then have "d + j \<le> R" using j(1) len by simp
    then have tk: "take j [d..<R] = [d..<d + j]" "drop j [d..<R] = [d + j..<R]" by (simp_all add: take_upt)
    have lq: "list_all2 (carries c) [d..<R] (rcv_queue k)" using inv by blast
    have q: "list_all2 (carries c) [d..<d + j] (take j (rcv_queue k))" "list_all2 (carries c) [d + j..<R] (drop j (rcv_queue k))"
      using list_all2_takeI [OF lq, of j] list_all2_dropI [OF lq, of j] unfolding tk .
    have "rcv_inv c L (d + j) R ns k1" using inv q(2) j(1) len by (auto simp: rcv_inv_def k1_def)
    then obtain R' ns' where m: "R \<le> R'" "rcv_inv c L (d + j) R' ns' (move_buf k1)" "held R' ns' = held R ns"
      using move_buf_inv by blast
    have k': "k' = (move_buf k1)\<lparr>probe := (if length (rcv_queue (move_buf k1)) < unat (rcv_wnd (move_buf k1)) \<and> unat (rcv_wnd k) \<le> length (rcv_queue k)
        then probe (move_buf k1) OR KCP_ASK_TELL else probe (move_buf k1))\<rparr>" "r = Inr (concat (map sg_data (take j (rcv_queue k))))"
      using assms(2) p j(2) by (auto simp: recv_def Let_def k1_def [symmetric] split: if_splits)
    have ri: "rcv_inv c L (d + j) R' ns' k'" using m(2) k'(1) rcv_inv_cong [of k' "move_buf k1"] by simp
    obtain nxt q b where "move_buf k1 = k1\<lparr>rcv_nxt := nxt, rcv_queue := q, rcv_buf := b\<rparr>" using move_buf_frame by blast
    moreover obtain p' where "k' = (move_buf k1)\<lparr>probe := p'\<rparr>" using k'(1) by blast
    ultimately have "k' = k\<lparr>rcv_nxt := nxt, rcv_queue := q, rcv_buf := b, probe := p'\<rparr>" by (simp add: k1_def)
    then have "\<exists>nxt q b p. k' = k\<lparr>rcv_nxt := nxt, rcv_queue := q, rcv_buf := b, probe := p\<rparr>" by blast
    then show ?thesis using ri m k'(2) carried_data [OF q(1)]
      by (intro conjI exI [of _ "d + j"] exI [of _ R'] exI [of _ ns']) simp_all
  qed
  then show "\<exists>d' R' ns'. d \<le> d' \<and> R \<le> R' \<and> rcv_inv c L d' R' ns' k' \<and> held R' ns' = held R ns \<and>
    (case r of Inr data \<Rightarrow> data = concat (map (\<lambda>n. snd (c n)) [d..<d']) | Inl _ \<Rightarrow> d' = d)"
    "\<exists>nxt q b p. k' = k\<lparr>rcv_nxt := nxt, rcv_queue := q, rcv_buf := b, probe := p\<rparr>" by blast+
qed

end
