(* ===== verification/Spec2Isabelle.thy ===== *)
theory Spec2Isabelle
  imports Replay_Window IR_Match Fake_Ip_Props Dns_Cache_Props Kcp_Laws
begin

text \<open>
  \<^bold>\<open>A verification development for the meow-rs proxy core.\<close>

  \<^item> \<open>Prelude\<close>: byte strings and the string operations of the Rust standard library.
  \<^item> \<open>Rust_Slice\<close>: slices, binary search, loops that may panic.
  \<^item> \<open>Replay_Window\<close>: \<^verbatim>\<open>meow-common/src/replay_window.rs\<close>.
  \<^item> \<open>Trie_Search\<close>, \<open>Trie_Builder\<close>, \<open>Trie_Sealed\<close>, \<open>Domain_Trie\<close>: \<^verbatim>\<open>meow-trie/src/trie.rs\<close>.
\<close>

end
